theory Spec2Isabelle
  imports Complex_Main
begin

section \<open>Numbers and arrays\<close>

text \<open>
  The program computes with JavaScript numbers. They are modelled as exact reals: every
  value is finite and arithmetic does not round. A second model of the numbers, with the
  special values \<open>Infinity\<close> and \<open>NaN\<close>, follows further down, for the properties that
  depend on them. A JavaScript array of numbers is a list;
  \<open>new Array(n)\<close> is a list of \<open>n\<close> placeholder cells (the value \<open>0\<close>), each of which the
  code assigns before it reads it whenever the arrays involved are non-empty and of equal
  length. The theorems below carry these shape conditions as hypotheses.
\<close>

type_synonym vec = "real list"

definition newArray :: "nat \<Rightarrow> 'a::zero list" where
  "newArray n = replicate n 0"

section \<open>Tridiagonal solver\<close>

text \<open>The threshold \<open>1e-15\<close> under which a pivot counts as degenerate.\<close>

definition pivot_eps :: real where
  "pivot_eps = 1 / 10 ^ 15"

text \<open>
  The forward sweep \<open>for (let i = 1; i < n; i++)\<close> of \<open>thomasAlgorithm\<close>. The early
  \<open>return d\<close> inside the loop is the result \<open>None\<close>; a completed loop yields the arrays
  \<open>cp\<close> and \<open>dp\<close>.
\<close>

function forwardSweep ::
  "vec \<Rightarrow> vec \<Rightarrow> vec \<Rightarrow> vec \<Rightarrow> nat \<Rightarrow> nat \<Rightarrow> vec \<Rightarrow> vec \<Rightarrow> (vec \<times> vec) option" where
  "forwardSweep a b c d n i cp dp =
     (if i < n then
        (let denom = b ! i - a ! i * cp ! (i - 1) in
         if \<bar>denom\<bar> < pivot_eps then None
         else forwardSweep a b c d n (i + 1)
                (cp[i := c ! i / denom])
                (dp[i := (d ! i - a ! i * dp ! (i - 1)) / denom]))
      else Some (cp, dp))"
  by pat_completeness auto
termination
  by (relation "measure (\<lambda>(a, b, c, d, n, i, cp, dp). n - i)") auto

declare forwardSweep.simps [simp del]

text \<open>
  Back substitution \<open>for (let i = n - 2; i >= 0; i--)\<close>; the counter of the model is
  \<open>i + 1\<close>, so that it stops at \<open>0\<close>.
\<close>

primrec backSubst :: "vec \<Rightarrow> vec \<Rightarrow> vec \<Rightarrow> nat \<Rightarrow> vec" where
  "backSubst cp dp x 0 = x"
| "backSubst cp dp x (Suc i) = backSubst cp dp (x[i := dp ! i - cp ! i * x ! (i + 1)]) i"

text \<open>
  \<open>thomasAlgorithm(a, b, c, d)\<close>, the same in all three source files (the 1D application
  also writes a line to the console before each early return).
\<close>

definition thomasAlgorithm :: "vec \<Rightarrow> vec \<Rightarrow> vec \<Rightarrow> vec \<Rightarrow> vec" where
  "thomasAlgorithm a b c d =
     (let n = length d;
          cp = newArray n;
          dp = newArray n;
          x = newArray n
      in if \<bar>b ! 0\<bar> < pivot_eps then d
         else
           (case forwardSweep a b c d n 1 (cp[0 := c ! 0 / b ! 0]) (dp[0 := d ! 0 / b ! 0]) of
              None \<Rightarrow> d
            | Some (cp', dp') \<Rightarrow> backSubst cp' dp' (x[n - 1 := dp' ! (n - 1)]) (n - 1)))"

text \<open>
  The solver runs to completion when neither early \<open>return d\<close> is taken: the test on
  \<open>b[0]\<close> fails and the forward sweep finishes its loop.
\<close>

definition thomas_completes :: "vec \<Rightarrow> vec \<Rightarrow> vec \<Rightarrow> vec \<Rightarrow> bool" where
  "thomas_completes a b c d =
     (let n = length d
      in \<not> \<bar>b ! 0\<bar> < pivot_eps
         \<and> forwardSweep a b c d n 1 ((newArray n)[0 := c ! 0 / b ! 0])
               ((newArray n)[0 := d ! 0 / b ! 0]) \<noteq> None)"

text \<open>
  The normalised coefficients and effective pivots as the specification writes them:
  \<open>cp\<^sub>0 = c\<^sub>0 / b\<^sub>0\<close>, \<open>cp\<^sub>i = c\<^sub>i / (b\<^sub>i - a\<^sub>i cp\<^sub>i\<^sub>-\<^sub>1)\<close>, and the pivot of row \<open>i\<close> is
  \<open>b\<^sub>0\<close> for \<open>i = 0\<close> and \<open>b\<^sub>i - a\<^sub>i cp\<^sub>i\<^sub>-\<^sub>1\<close> otherwise.
\<close>

fun cprime :: "vec \<Rightarrow> vec \<Rightarrow> vec \<Rightarrow> nat \<Rightarrow> real" where
  "cprime a b c 0 = c ! 0 / b ! 0"
| "cprime a b c (Suc i) = c ! Suc i / (b ! Suc i - a ! Suc i * cprime a b c i)"

fun pivot :: "vec \<Rightarrow> vec \<Rightarrow> vec \<Rightarrow> nat \<Rightarrow> real" where
  "pivot a b c 0 = b ! 0"
| "pivot a b c (Suc i) = b ! Suc i - a ! Suc i * cprime a b c i"

fun dprime :: "vec \<Rightarrow> vec \<Rightarrow> vec \<Rightarrow> vec \<Rightarrow> nat \<Rightarrow> real" where
  "dprime a b c d 0 = d ! 0 / b ! 0"
| "dprime a b c d (Suc i) = (d ! Suc i - a ! Suc i * dprime a b c d i) / pivot a b c (Suc i)"

section \<open>One-dimensional steppers\<close>

text \<open>
  \<open>forwardEuler(u, r)\<close> (\<open>forwardEuler1D\<close> in the unified application has the same body).
\<close>

definition forwardEuler :: "vec \<Rightarrow> real \<Rightarrow> vec" where
  "forwardEuler u r =
     (let n = length u;
          uNew = newArray n;
          uNew = uNew[0 := 0];
          uNew = uNew[n - 1 := 0]
      in fold (\<lambda>i uNew. uNew[i := u ! i + r * (u ! (i + 1) - 2 * u ! i + u ! (i - 1))])
           [1..<n - 1] uNew)"

text \<open>
  The six assignments that every implicit stepper makes under the comment
  \<open>Boundary conditions\<close>: \<open>b[0] = 1; c[0] = 0; d[0] = 0; a[n - 1] = 0; b[n - 1] = 1;
  d[n - 1] = 0\<close>.
\<close>

definition dirichletRows :: "nat \<Rightarrow> vec \<times> vec \<times> vec \<times> vec \<Rightarrow> vec \<times> vec \<times> vec \<times> vec" where
  "dirichletRows n s =
     (case s of (a, b, c, d) \<Rightarrow>
        (a[n - 1 := 0], b[0 := 1, n - 1 := 1], c[0 := 0], d[0 := 0, n - 1 := 0]))"

text \<open>
  The system that \<open>backwardEuler(u, r)\<close> assembles before it calls the solver
  (\<open>[...u]\<close> copies \<open>u\<close>), and the stepper itself (\<open>backwardEuler1D\<close> in the unified
  application has the same body).
\<close>

definition backwardEuler_system :: "vec \<Rightarrow> real \<Rightarrow> vec \<times> vec \<times> vec \<times> vec" where
  "backwardEuler_system u r =
     (let n = length u;
          a = replicate n (- r);
          b = replicate n (1 + 2 * r);
          c = replicate n (- r);
          d = u
      in dirichletRows n (a, b, c, d))"

definition backwardEuler :: "vec \<Rightarrow> real \<Rightarrow> vec" where
  "backwardEuler u r =
     (case backwardEuler_system u r of (a, b, c, d) \<Rightarrow> thomasAlgorithm a b c d)"

text \<open>
  The system of \<open>crankNicolson(u, r)\<close> and the stepper (\<open>crankNicolson1D\<close> in the unified
  application has the same body).
\<close>

definition crankNicolson_system :: "vec \<Rightarrow> real \<Rightarrow> vec \<times> vec \<times> vec \<times> vec" where
  "crankNicolson_system u r =
     (let n = length u;
          r2 = r / 2;
          a = replicate n (- r2);
          b = replicate n (1 + r);
          c = replicate n (- r2);
          d = newArray n;
          d = fold (\<lambda>i d. d[i := (1 - r) * u ! i + r2 * (u ! (i + 1) + u ! (i - 1))])
                [1..<n - 1] d
      in dirichletRows n (a, b, c, d))"

definition crankNicolson :: "vec \<Rightarrow> real \<Rightarrow> vec" where
  "crankNicolson u r =
     (case crankNicolson_system u r of (a, b, c, d) \<Rightarrow> thomasAlgorithm a b c d)"

text \<open>The right-hand side that \<open>crankNicolson\<close> fills in before the boundary rows.\<close>

definition cn_rhs :: "vec \<Rightarrow> real \<Rightarrow> vec" where
  "cn_rhs u r =
     fold (\<lambda>i d. d[i := (1 - r) * u ! i + r / 2 * (u ! (i + 1) + u ! (i - 1))])
       [1..<length u - 1] (newArray (length u))"

section \<open>Two-dimensional steppers\<close>

text \<open>
  A field on the square grid is an array of rows, \<open>u[i][j]\<close>. The only exception the
  steppers can raise on an array of arrays is the \<open>TypeError\<close> of \<open>u[0].length\<close> when
  \<open>u\<close> is empty.
\<close>

type_synonym grid = "real list list"

datatype error = TypeError

definition zeros :: "nat \<Rightarrow> nat \<Rightarrow> 'a::zero list list" where
  "zeros Nx Ny = replicate Nx (replicate Ny 0)"

definition set2 :: "'a list list \<Rightarrow> nat \<Rightarrow> nat \<Rightarrow> 'a \<Rightarrow> 'a list list" where
  "set2 g i j v = g[i := (g ! i)[j := v]]"

text \<open>\<open>forwardEuler2D(u, rx, ry)\<close>, the same in both two-dimensional sources.\<close>

definition forwardEuler2D :: "grid \<Rightarrow> real \<Rightarrow> real \<Rightarrow> error + grid" where
  "forwardEuler2D u rx ry =
     (if u = [] then Inl TypeError
      else
        (let Nx = length u;
             Ny = length (u ! 0);
             uNew = zeros Nx Ny
         in Inr (fold (\<lambda>i uNew.
                   fold (\<lambda>j uNew.
                     set2 uNew i j
                       (u ! i ! j
                          + rx * (u ! (i + 1) ! j - 2 * u ! i ! j + u ! (i - 1) ! j)
                          + ry * (u ! i ! (j + 1) - 2 * u ! i ! j + u ! i ! (j - 1))))
                     [1..<Ny - 1] uNew)
                   [1..<Nx - 1] uNew)))"

text \<open>
  What every sweep does with one line of the grid: it writes the boundary rows into the
  system with constant coefficients and right-hand side \<open>d\<close>, and calls the solver.
\<close>

definition solveLine :: "nat \<Rightarrow> real \<Rightarrow> real \<Rightarrow> vec \<Rightarrow> vec" where
  "solveLine n off dg d =
     (case dirichletRows n (replicate n off, replicate n dg, replicate n off, d) of
        (a, b, c, d) \<Rightarrow> thomasAlgorithm a b c d)"

text \<open>
  \<open>backwardEulerADI(u, rx, ry)\<close> of the two-dimensional application: \<open>Step 1\<close> solves
  along \<open>x\<close> for every interior \<open>j\<close>, \<open>Step 2\<close> along \<open>y\<close> for every interior \<open>i\<close>.
\<close>

definition backwardEulerADI_step1 :: "nat \<Rightarrow> nat \<Rightarrow> grid \<Rightarrow> real \<Rightarrow> grid" where
  "backwardEulerADI_step1 Nx Ny u rx =
     (let uStar = zeros Nx Ny
      in fold (\<lambda>j uStar.
           (let a = replicate Nx (- rx);
                b = replicate Nx (1 + 2 * rx);
                c = replicate Nx (- rx);
                d = newArray Nx;
                d = fold (\<lambda>i d. d[i := u ! i ! j]) [0..<Nx] d
            in case dirichletRows Nx (a, b, c, d) of (a, b, c, d) \<Rightarrow>
                 (let res = thomasAlgorithm a b c d
                  in fold (\<lambda>i uStar. set2 uStar i j (res ! i)) [0..<Nx] uStar)))
           [1..<Ny - 1] uStar)"

definition backwardEulerADI_step2 :: "nat \<Rightarrow> nat \<Rightarrow> grid \<Rightarrow> real \<Rightarrow> grid" where
  "backwardEulerADI_step2 Nx Ny uStar ry =
     (let uNew = zeros Nx Ny
      in fold (\<lambda>i uNew.
           (let a = replicate Ny (- ry);
                b = replicate Ny (1 + 2 * ry);
                c = replicate Ny (- ry);
                d = newArray Ny;
                d = fold (\<lambda>j d. d[j := uStar ! i ! j]) [0..<Ny] d
            in case dirichletRows Ny (a, b, c, d) of (a, b, c, d) \<Rightarrow>
                 (let res = thomasAlgorithm a b c d
                  in fold (\<lambda>j uNew. set2 uNew i j (res ! j)) [0..<Ny] uNew)))
           [1..<Nx - 1] uNew)"

definition backwardEulerADI :: "grid \<Rightarrow> real \<Rightarrow> real \<Rightarrow> error + grid" where
  "backwardEulerADI u rx ry =
     (if u = [] then Inl TypeError
      else
        (let Nx = length u;
             Ny = length (u ! 0);
             uStar = backwardEulerADI_step1 Nx Ny u rx
         in Inr (backwardEulerADI_step2 Nx Ny uStar ry)))"

text \<open>
  \<open>crankNicolsonADI(u, rx, ry)\<close> of the two-dimensional application. Both result arrays
  are allocated before the first loop; the second loop reads \<open>uStar\<close> only.
\<close>

definition crankNicolsonADI_step1 :: "nat \<Rightarrow> nat \<Rightarrow> grid \<Rightarrow> real \<Rightarrow> real \<Rightarrow> grid" where
  "crankNicolsonADI_step1 Nx Ny u rx ry =
     (let uStar = zeros Nx Ny;
          rx2 = rx / 2;
          ry2 = ry / 2
      in fold (\<lambda>j uStar.
           (let a = replicate Nx (- rx2);
                b = replicate Nx (1 + rx);
                c = replicate Nx (- rx2);
                d = newArray Nx;
                d = fold (\<lambda>i d.
                      d[i := u ! i ! j
                               + ry2 * (u ! i ! (j + 1) - 2 * u ! i ! j + u ! i ! (j - 1))])
                      [1..<Nx - 1] d
            in case dirichletRows Nx (a, b, c, d) of (a, b, c, d) \<Rightarrow>
                 (let res = thomasAlgorithm a b c d
                  in fold (\<lambda>i uStar. set2 uStar i j (res ! i)) [0..<Nx] uStar)))
           [1..<Ny - 1] uStar)"

definition crankNicolsonADI_step2 :: "nat \<Rightarrow> nat \<Rightarrow> grid \<Rightarrow> real \<Rightarrow> real \<Rightarrow> grid" where
  "crankNicolsonADI_step2 Nx Ny uStar rx ry =
     (let uNew = zeros Nx Ny;
          rx2 = rx / 2;
          ry2 = ry / 2
      in fold (\<lambda>i uNew.
           (let a = replicate Ny (- ry2);
                b = replicate Ny (1 + ry);
                c = replicate Ny (- ry2);
                d = newArray Ny;
                d = fold (\<lambda>j d.
                      d[j := uStar ! i ! j
                               + rx2 * (uStar ! (i + 1) ! j - 2 * uStar ! i ! j
                                          + uStar ! (i - 1) ! j)])
                      [1..<Ny - 1] d
            in case dirichletRows Ny (a, b, c, d) of (a, b, c, d) \<Rightarrow>
                 (let res = thomasAlgorithm a b c d
                  in fold (\<lambda>j uNew. set2 uNew i j (res ! j)) [0..<Ny] uNew)))
           [1..<Nx - 1] uNew)"

definition crankNicolsonADI :: "grid \<Rightarrow> real \<Rightarrow> real \<Rightarrow> error + grid" where
  "crankNicolsonADI u rx ry =
     (if u = [] then Inl TypeError
      else
        (let Nx = length u;
             Ny = length (u ! 0);
             uStar = crankNicolsonADI_step1 Nx Ny u rx ry
         in Inr (crankNicolsonADI_step2 Nx Ny uStar rx ry)))"

text \<open>
  \<open>backwardEuler2D_ADI(u, rx, ry)\<close> of the unified application: the \<open>X-sweep\<close> runs over
  every \<open>j\<close> and the \<open>Y-sweep\<close> over every \<open>i\<close>, the right-hand side takes the interior
  entries only.
\<close>

definition backwardEuler2D_ADI_xsweep :: "nat \<Rightarrow> nat \<Rightarrow> grid \<Rightarrow> real \<Rightarrow> grid" where
  "backwardEuler2D_ADI_xsweep Nx Ny u rx =
     (let uHalf = zeros Nx Ny
      in fold (\<lambda>j uHalf.
           (let a = replicate Nx (- rx);
                b = replicate Nx (1 + 2 * rx);
                c = replicate Nx (- rx);
                d = newArray Nx;
                d = fold (\<lambda>i d. d[i := u ! i ! j]) [1..<Nx - 1] d
            in case dirichletRows Nx (a, b, c, d) of (a, b, c, d) \<Rightarrow>
                 (let sol = thomasAlgorithm a b c d
                  in fold (\<lambda>i uHalf. set2 uHalf i j (sol ! i)) [0..<Nx] uHalf)))
           [0..<Ny] uHalf)"

definition backwardEuler2D_ADI_ysweep :: "nat \<Rightarrow> nat \<Rightarrow> grid \<Rightarrow> real \<Rightarrow> grid" where
  "backwardEuler2D_ADI_ysweep Nx Ny uHalf ry =
     (let uNew = zeros Nx Ny
      in fold (\<lambda>i uNew.
           (let a = replicate Ny (- ry);
                b = replicate Ny (1 + 2 * ry);
                c = replicate Ny (- ry);
                d = newArray Ny;
                d = fold (\<lambda>j d. d[j := uHalf ! i ! j]) [1..<Ny - 1] d
            in case dirichletRows Ny (a, b, c, d) of (a, b, c, d) \<Rightarrow>
                 (let sol = thomasAlgorithm a b c d
                  in fold (\<lambda>j uNew. set2 uNew i j (sol ! j)) [0..<Ny] uNew)))
           [0..<Nx] uNew)"

definition backwardEuler2D_ADI :: "grid \<Rightarrow> real \<Rightarrow> real \<Rightarrow> error + grid" where
  "backwardEuler2D_ADI u rx ry =
     (if u = [] then Inl TypeError
      else
        (let Nx = length u;
             Ny = length (u ! 0);
             uHalf = backwardEuler2D_ADI_xsweep Nx Ny u rx
         in Inr (backwardEuler2D_ADI_ysweep Nx Ny uHalf ry)))"

text \<open>\<open>crankNicolson2D_ADI(u, rx, ry)\<close> of the unified application.\<close>

definition crankNicolson2D_ADI_xsweep :: "nat \<Rightarrow> nat \<Rightarrow> grid \<Rightarrow> real \<Rightarrow> grid" where
  "crankNicolson2D_ADI_xsweep Nx Ny u rx =
     (let uHalf = zeros Nx Ny;
          rx2 = rx / 2
      in fold (\<lambda>j uHalf.
           (let a = replicate Nx (- rx2);
                b = replicate Nx (1 + rx);
                c = replicate Nx (- rx2);
                d = newArray Nx;
                d = fold (\<lambda>i d.
                      d[i := (1 - rx) * u ! i ! j + rx2 * (u ! (i + 1) ! j + u ! (i - 1) ! j)])
                      [1..<Nx - 1] d
            in case dirichletRows Nx (a, b, c, d) of (a, b, c, d) \<Rightarrow>
                 (let sol = thomasAlgorithm a b c d
                  in fold (\<lambda>i uHalf. set2 uHalf i j (sol ! i)) [0..<Nx] uHalf)))
           [0..<Ny] uHalf)"

definition crankNicolson2D_ADI_ysweep :: "nat \<Rightarrow> nat \<Rightarrow> grid \<Rightarrow> real \<Rightarrow> grid" where
  "crankNicolson2D_ADI_ysweep Nx Ny uHalf ry =
     (let uNew = zeros Nx Ny;
          ry2 = ry / 2
      in fold (\<lambda>i uNew.
           (let a = replicate Ny (- ry2);
                b = replicate Ny (1 + ry);
                c = replicate Ny (- ry2);
                d = newArray Ny;
                d = fold (\<lambda>j d.
                      d[j := (1 - ry) * uHalf ! i ! j
                               + ry2 * (uHalf ! i ! (j + 1) + uHalf ! i ! (j - 1))])
                      [1..<Ny - 1] d
            in case dirichletRows Ny (a, b, c, d) of (a, b, c, d) \<Rightarrow>
                 (let sol = thomasAlgorithm a b c d
                  in fold (\<lambda>j uNew. set2 uNew i j (sol ! j)) [0..<Ny] uNew)))
           [0..<Nx] uNew)"

definition crankNicolson2D_ADI :: "grid \<Rightarrow> real \<Rightarrow> real \<Rightarrow> error + grid" where
  "crankNicolson2D_ADI u rx ry =
     (if u = [] then Inl TypeError
      else
        (let Nx = length u;
             Ny = length (u ! 0);
             uHalf = crankNicolson2D_ADI_xsweep Nx Ny u rx
         in Inr (crankNicolson2D_ADI_ysweep Nx Ny uHalf ry)))"

section \<open>Initial condition and analytical solution\<close>

text \<open>
  The object \<open>config\<close> (\<open>sharedConfig\<close> in the unified application). \<open>Nx\<close> is the result
  of \<open>parseInt\<close>, an integer; \<open>method\<close> is the string of the pressed button.
\<close>

record config =
  cfg_L :: real
  cfg_alpha :: real
  cfg_Nx :: int
  cfg_dt :: real
  cfg_Tmax :: real
  cfg_method :: string
  cfg_animationSpeed :: int

definition getSineIC :: "config \<Rightarrow> vec \<Rightarrow> vec" where
  "getSineIC cfg x =
     (let L = cfg_L cfg; k = 3
      in map (\<lambda>xi. sin (k * pi * xi / L)) x)"

definition getAnalyticalSolution :: "config \<Rightarrow> vec \<Rightarrow> real \<Rightarrow> vec" where
  "getAnalyticalSolution cfg x t =
     (let L = cfg_L cfg;
          alpha = cfg_alpha cfg;
          k = 3;
          decay = exp (- alpha * (k * pi) ^ 2 * t / (L * L))
      in map (\<lambda>xi. sin (k * pi * xi / L) * decay) x)"

text \<open>
  The two nested loops of \<open>getSineIC2D\<close> and \<open>getAnalyticalSolution2D\<close> assign every cell
  \<open>u[i][j]\<close> once, for \<open>i\<close> below \<open>x.length\<close> and \<open>j\<close> below \<open>y.length\<close>.
\<close>

definition getSineIC2D :: "vec \<Rightarrow> vec \<Rightarrow> grid" where
  "getSineIC2D x y =
     map (\<lambda>i. map (\<lambda>j. sin (2 * pi * x ! i) * sin (pi * y ! j)) [0..<length y])
       [0..<length x]"

definition getAnalyticalSolution2D :: "config \<Rightarrow> vec \<Rightarrow> vec \<Rightarrow> real \<Rightarrow> grid" where
  "getAnalyticalSolution2D cfg x y t =
     (let alpha = cfg_alpha cfg;
          decay = exp (- alpha * pi * pi * 5 * t)
      in map (\<lambda>i. map (\<lambda>j. sin (2 * pi * x ! i) * sin (pi * y ! j) * decay) [0..<length y])
           [0..<length x])"

section \<open>The one-dimensional engine\<close>

text \<open>
  The object \<open>state\<close> without the fields of the user interface (\<open>isPlaying\<close>,
  \<open>animationId\<close>, \<open>chart\<close>). The program keeps \<open>config\<close> and \<open>state\<close> in global
  variables; the model passes them.
\<close>

record state1d =
  st_t :: real
  st_nSteps :: nat
  st_flops :: int
  st_u :: vec
  st_uExact :: vec
  st_x :: vec
  st_dx :: real
  st_r :: real
  st_hasDiverged :: bool

text \<open>
  \<open>initSimulation()\<close> (\<open>initSimulation1D\<close> in the unified application) assigns every field
  of the state; \<open>Array.from({ length: Nx }, (_, i) => i * dx)\<close> is the grid.
\<close>

definition initSimulation :: "config \<Rightarrow> state1d" where
  "initSimulation cfg =
     (let dx = cfg_L cfg / (of_int (cfg_Nx cfg) - 1);
          x = map (\<lambda>i. real i * dx) [0..<nat (cfg_Nx cfg)];
          r = cfg_alpha cfg * cfg_dt cfg / (dx * dx)
      in \<lparr> st_t = 0, st_nSteps = 0, st_flops = 0,
           st_u = getSineIC cfg x,
           st_uExact = getAnalyticalSolution cfg x 0,
           st_x = x, st_dx = dx, st_r = r, st_hasDiverged = False \<rparr>)"

text \<open>
  \<open>stepNumerical()\<close>: the \<open>switch\<close> on the method name. In the \<open>default\<close> case the
  one-dimensional application writes \<open>Unknown method\<close> to the console; the unified
  application (\<open>stepNumerical1D\<close>) has no \<open>default\<close> case. Neither changes the state there.
\<close>

definition stepNumerical :: "config \<Rightarrow> state1d \<Rightarrow> state1d" where
  "stepNumerical cfg s =
     (let r = st_r s; N = cfg_Nx cfg
      in if cfg_method cfg = ''forward-euler'' then
           s\<lparr> st_u := forwardEuler (st_u s) r, st_flops := st_flops s + 5 * (N - 2) \<rparr>
         else if cfg_method cfg = ''backward-euler'' then
           s\<lparr> st_u := backwardEuler (st_u s) r, st_flops := st_flops s + 8 * N \<rparr>
         else if cfg_method cfg = ''crank-nicolson'' then
           s\<lparr> st_u := crankNicolson (st_u s) r, st_flops := st_flops s + 12 * N \<rparr>
         else s)"

definition timeStep :: "config \<Rightarrow> state1d \<Rightarrow> state1d" where
  "timeStep cfg s =
     (let s = stepNumerical cfg s;
          s = s\<lparr> st_t := st_t s + cfg_dt cfg \<rparr>;
          s = s\<lparr> st_nSteps := st_nSteps s + 1 \<rparr>
      in s\<lparr> st_uExact := getAnalyticalSolution cfg (st_x s) (st_t s) \<rparr>)"

text \<open>\<open>reset()\<close> stops the animation and calls \<open>initSimulation()\<close>.\<close>

definition reset :: "config \<Rightarrow> state1d \<Rightarrow> state1d" where
  "reset cfg s = initSimulation cfg"

text \<open>\<open>timeStep\<close> called \<open>k\<close> times.\<close>

primrec timeSteps :: "config \<Rightarrow> nat \<Rightarrow> state1d \<Rightarrow> state1d" where
  "timeSteps cfg 0 s = s"
| "timeSteps cfg (Suc k) s = timeSteps cfg k (timeStep cfg s)"

section \<open>The two-dimensional engines\<close>

record state2d =
  st2_t :: real
  st2_nSteps :: nat
  st2_flops :: int
  st2_u :: grid
  st2_uExact :: grid
  st2_x :: vec
  st2_y :: vec
  st2_dx :: real
  st2_dy :: real
  st2_rx :: real
  st2_ry :: real
  st2_hasDiverged :: bool

text \<open>\<open>initSimulation()\<close> of the two-dimensional application.\<close>

definition initSimulation_2d :: "config \<Rightarrow> state2d" where
  "initSimulation_2d cfg =
     (let dx = cfg_L cfg / (of_int (cfg_Nx cfg) - 1);
          dy = cfg_L cfg / (of_int (cfg_Nx cfg) - 1);
          x = map (\<lambda>i. real i * dx) [0..<nat (cfg_Nx cfg)];
          y = map (\<lambda>i. real i * dy) [0..<nat (cfg_Nx cfg)];
          rx = cfg_alpha cfg * cfg_dt cfg / (dx * dx);
          ry = cfg_alpha cfg * cfg_dt cfg / (dy * dy)
      in \<lparr> st2_t = 0, st2_nSteps = 0, st2_flops = 0,
           st2_u = getSineIC2D x y,
           st2_uExact = getAnalyticalSolution2D cfg x y 0,
           st2_x = x, st2_y = y, st2_dx = dx, st2_dy = dy,
           st2_rx = rx, st2_ry = ry, st2_hasDiverged = False \<rparr>)"

text \<open>
  \<open>reset()\<close> of the two-dimensional application keeps the grid of the state and
  regenerates the fields on it.
\<close>

definition reset_2d :: "config \<Rightarrow> state2d \<Rightarrow> state2d" where
  "reset_2d cfg s =
     s\<lparr> st2_t := 0, st2_nSteps := 0, st2_flops := 0, st2_hasDiverged := False,
        st2_u := getSineIC2D (st2_x s) (st2_y s),
        st2_uExact := getAnalyticalSolution2D cfg (st2_x s) (st2_y s) 0 \<rparr>"

text \<open>
  \<open>stepNumerical()\<close> and \<open>timeStep()\<close> of the two-dimensional application. An exception
  of the stepper leaves the assignments after it undone.
\<close>

definition stepNumerical_2d :: "config \<Rightarrow> state2d \<Rightarrow> error + state2d" where
  "stepNumerical_2d cfg s =
     (let rx = st2_rx s; ry = st2_ry s; N = cfg_Nx cfg
      in if cfg_method cfg = ''forward-euler'' then
           (case forwardEuler2D (st2_u s) rx ry of
              Inl e \<Rightarrow> Inl e
            | Inr v \<Rightarrow> Inr (s\<lparr> st2_u := v, st2_flops := st2_flops s + 10 * N * N \<rparr>))
         else if cfg_method cfg = ''backward-euler'' then
           (case backwardEulerADI (st2_u s) rx ry of
              Inl e \<Rightarrow> Inl e
            | Inr v \<Rightarrow> Inr (s\<lparr> st2_u := v, st2_flops := st2_flops s + 16 * N * N \<rparr>))
         else if cfg_method cfg = ''crank-nicolson'' then
           (case crankNicolsonADI (st2_u s) rx ry of
              Inl e \<Rightarrow> Inl e
            | Inr v \<Rightarrow> Inr (s\<lparr> st2_u := v, st2_flops := st2_flops s + 24 * N * N \<rparr>))
         else Inr s)"

definition timeStep_2d :: "config \<Rightarrow> state2d \<Rightarrow> error + state2d" where
  "timeStep_2d cfg s =
     (case stepNumerical_2d cfg s of
        Inl e \<Rightarrow> Inl e
      | Inr s \<Rightarrow>
          (let s = s\<lparr> st2_t := st2_t s + cfg_dt cfg \<rparr>;
               s = s\<lparr> st2_nSteps := st2_nSteps s + 1 \<rparr>
           in Inr (s\<lparr> st2_uExact :=
                        getAnalyticalSolution2D cfg (st2_x s) (st2_y s) (st2_t s) \<rparr>)))"

text \<open>
  \<open>initSimulation2D()\<close>, \<open>stepNumerical2D()\<close> and \<open>timeStep2D()\<close> of the unified
  application; its \<open>reset()\<close> calls \<open>initSimulation2D()\<close>.
\<close>

definition initSimulation2D :: "config \<Rightarrow> state2d" where
  "initSimulation2D cfg =
     (let dx = cfg_L cfg / (of_int (cfg_Nx cfg) - 1);
          dy = dx;
          x = map (\<lambda>i. real i * dx) [0..<nat (cfg_Nx cfg)];
          y = x;
          rx = cfg_alpha cfg * cfg_dt cfg / (dx * dx);
          ry = rx
      in \<lparr> st2_t = 0, st2_nSteps = 0, st2_flops = 0,
           st2_u = getSineIC2D x y,
           st2_uExact = getAnalyticalSolution2D cfg x y 0,
           st2_x = x, st2_y = y, st2_dx = dx, st2_dy = dy,
           st2_rx = rx, st2_ry = ry, st2_hasDiverged = False \<rparr>)"

definition stepNumerical2D :: "config \<Rightarrow> state2d \<Rightarrow> error + state2d" where
  "stepNumerical2D cfg s =
     (let rx = st2_rx s; ry = st2_ry s; N = cfg_Nx cfg
      in if cfg_method cfg = ''forward-euler'' then
           (case forwardEuler2D (st2_u s) rx ry of
              Inl e \<Rightarrow> Inl e
            | Inr v \<Rightarrow>
                Inr (s\<lparr> st2_u := v, st2_flops := st2_flops s + 9 * (N - 2) * (N - 2) \<rparr>))
         else if cfg_method cfg = ''backward-euler'' then
           (case backwardEuler2D_ADI (st2_u s) rx ry of
              Inl e \<Rightarrow> Inl e
            | Inr v \<Rightarrow> Inr (s\<lparr> st2_u := v, st2_flops := st2_flops s + 16 * N * N \<rparr>))
         else if cfg_method cfg = ''crank-nicolson'' then
           (case crankNicolson2D_ADI (st2_u s) rx ry of
              Inl e \<Rightarrow> Inl e
            | Inr v \<Rightarrow> Inr (s\<lparr> st2_u := v, st2_flops := st2_flops s + 24 * N * N \<rparr>))
         else Inr s)"

definition timeStep2D :: "config \<Rightarrow> state2d \<Rightarrow> error + state2d" where
  "timeStep2D cfg s =
     (case stepNumerical2D cfg s of
        Inl e \<Rightarrow> Inl e
      | Inr s \<Rightarrow>
          (let s = s\<lparr> st2_t := st2_t s + cfg_dt cfg \<rparr>;
               s = s\<lparr> st2_nSteps := st2_nSteps s + 1 \<rparr>
           in Inr (s\<lparr> st2_uExact :=
                        getAnalyticalSolution2D cfg (st2_x s) (st2_y s) (st2_t s) \<rparr>)))"

text \<open>\<open>timeStep\<close> of the two-dimensional engines called \<open>k\<close> times; an exception ends the run.\<close>

primrec timeSteps_2d :: "config \<Rightarrow> nat \<Rightarrow> state2d \<Rightarrow> error + state2d" where
  "timeSteps_2d cfg 0 s = Inr s"
| "timeSteps_2d cfg (Suc k) s =
     (case timeStep_2d cfg s of Inl e \<Rightarrow> Inl e | Inr s' \<Rightarrow> timeSteps_2d cfg k s')"

primrec timeSteps2D :: "config \<Rightarrow> nat \<Rightarrow> state2d \<Rightarrow> error + state2d" where
  "timeSteps2D cfg 0 s = Inr s"
| "timeSteps2D cfg (Suc k) s =
     (case timeStep2D cfg s of Inl e \<Rightarrow> Inl e | Inr s' \<Rightarrow> timeSteps2D cfg k s')"

section \<open>Operation-cost increments\<close>

text \<open>
  The amount by which one step raises the operation count, as a polynomial in the point
  count \<open>N\<close>: of degree one in one dimension, of degree two in two dimensions (the
  two-dimensional application, then the unified application).
\<close>

definition cost_1d :: "string \<Rightarrow> int \<Rightarrow> int" where
  "cost_1d m N =
     (if m = ''forward-euler'' then 5 * N - 10
      else if m = ''backward-euler'' then 8 * N else 12 * N)"

definition cost_2d :: "string \<Rightarrow> int \<Rightarrow> int" where
  "cost_2d m N =
     (if m = ''forward-euler'' then 10 * N ^ 2
      else if m = ''backward-euler'' then 16 * N ^ 2 else 24 * N ^ 2)"

definition cost2D :: "string \<Rightarrow> int \<Rightarrow> int" where
  "cost2D m N =
     (if m = ''forward-euler'' then 9 * N ^ 2 - 36 * N + 36
      else if m = ''backward-euler'' then 16 * N ^ 2 else 24 * N ^ 2)"

section \<open>Valid parameters\<close>

text \<open>
  The invariant of the specification's data model: at least one interior point, and a
  positive time step, domain length and diffusivity. The three method names.
\<close>

definition valid_config :: "config \<Rightarrow> bool" where
  "valid_config cfg =
     (3 \<le> cfg_Nx cfg \<and> 0 < cfg_dt cfg \<and> 0 < cfg_L cfg \<and> 0 < cfg_alpha cfg)"

definition known_method :: "string \<Rightarrow> bool" where
  "known_method m = (m = ''forward-euler'' \<or> m = ''backward-euler'' \<or> m = ''crank-nicolson'')"

text \<open>
  The defaults of the program, and a configuration that breaks each rule of validity:
  two grid points, a negative time step, a method name that no stepper has.
\<close>

definition default_config :: config where
  "default_config =
     \<lparr> cfg_L = 1, cfg_alpha = 1 / 100, cfg_Nx = 41, cfg_dt = 1 / 1000, cfg_Tmax = 2,
       cfg_method = ''forward-euler'', cfg_animationSpeed = 5 \<rparr>"

definition invalid_config :: config where
  "invalid_config =
     \<lparr> cfg_L = 1, cfg_alpha = 1 / 100, cfg_Nx = 2, cfg_dt = - 1, cfg_Tmax = 2,
       cfg_method = ''leapfrog'', cfg_animationSpeed = 5 \<rparr>"

section \<open>The specification's wording of two operations\<close>

text \<open>
  The Peaceman-Rachford step as the specification words it. A line of the grid is solved
  by the tridiagonal solver on the system with off-diagonal entries \<open>off\<close>, diagonal
  entries \<open>diag\<close>, identity equations in the first and last row and right-hand side
  \<open>rhs\<close> (zero in the first and last row). The entries \<open>a\<^sub>0\<close> and \<open>c\<^sub>n\<^sub>-\<^sub>1\<close> are the ones the
  solver's contract ignores.
\<close>

definition line_system :: "nat \<Rightarrow> real \<Rightarrow> real \<Rightarrow> (nat \<Rightarrow> real) \<Rightarrow> vec \<times> vec \<times> vec \<times> vec" where
  "line_system n off diag rhs =
     (map (\<lambda>i. if i = n - 1 then 0 else off) [0..<n],
      map (\<lambda>i. if i = 0 \<or> i = n - 1 then 1 else diag) [0..<n],
      map (\<lambda>i. if i = 0 then 0 else off) [0..<n],
      map (\<lambda>i. if i = 0 \<or> i = n - 1 then 0 else rhs i) [0..<n])"

definition line_solve :: "nat \<Rightarrow> real \<Rightarrow> real \<Rightarrow> (nat \<Rightarrow> real) \<Rightarrow> vec" where
  "line_solve n off diag rhs =
     (case line_system n off diag rhs of (a, b, c, d) \<Rightarrow> thomasAlgorithm a b c d)"

text \<open>
  Half-step 1: implicit along \<open>x\<close> with coefficients from \<open>rx / 2\<close>, the right-hand side
  is the current field plus the \<open>ry / 2\<close> central difference in \<open>y\<close>; the lines \<open>j = 0\<close>
  and \<open>j = Ny - 1\<close> stay 0. Half-step 2: implicit along \<open>y\<close> with coefficients from
  \<open>ry / 2\<close>, the right-hand side is the half-step-1 result plus its \<open>rx / 2\<close> central
  difference in \<open>x\<close>; the lines \<open>i = 0\<close> and \<open>i = Nx - 1\<close> stay 0.
\<close>

definition pr_half1 :: "nat \<Rightarrow> nat \<Rightarrow> grid \<Rightarrow> real \<Rightarrow> real \<Rightarrow> grid" where
  "pr_half1 Nx Ny u rx ry =
     map (\<lambda>i. map (\<lambda>j.
         if 1 \<le> j \<and> j < Ny - 1 then
           line_solve Nx (- (rx / 2)) (1 + 2 * (rx / 2))
             (\<lambda>i. u ! i ! j + (ry / 2) * (u ! i ! (j + 1) - 2 * u ! i ! j + u ! i ! (j - 1))) ! i
         else 0) [0..<Ny]) [0..<Nx]"

definition pr_half2 :: "nat \<Rightarrow> nat \<Rightarrow> grid \<Rightarrow> real \<Rightarrow> real \<Rightarrow> grid" where
  "pr_half2 Nx Ny uStar rx ry =
     map (\<lambda>i. map (\<lambda>j.
         if 1 \<le> i \<and> i < Nx - 1 then
           line_solve Ny (- (ry / 2)) (1 + 2 * (ry / 2))
             (\<lambda>j. uStar ! i ! j
                    + (rx / 2) * (uStar ! (i + 1) ! j - 2 * uStar ! i ! j + uStar ! (i - 1) ! j)) ! j
         else 0) [0..<Ny]) [0..<Nx]"

definition pr_step :: "grid \<Rightarrow> real \<Rightarrow> real \<Rightarrow> grid" where
  "pr_step u rx ry =
     (let Nx = length u; Ny = length (u ! 0)
      in pr_half2 Nx Ny (pr_half1 Nx Ny u rx ry) rx ry)"

text \<open>
  The maximum of a quantity over the \<open>N\<close> by \<open>N\<close> grid, and the maximum relative error
  as the specification words it: \<open>100\<close> times the maximum error over the maximum of
  \<open>|uExact|\<close>, and \<open>0\<close> when that maximum is at most \<open>1e-9\<close>.
\<close>

definition grid_max :: "nat \<Rightarrow> (nat \<Rightarrow> nat \<Rightarrow> real) \<Rightarrow> real" where
  "grid_max N f = Max ((\<lambda>(i, j). f i j) ` ({0..<N} \<times> {0..<N}))"

definition spec_maxRelError :: "nat \<Rightarrow> grid \<Rightarrow> grid \<Rightarrow> real" where
  "spec_maxRelError N u uExact =
     (let maxAbs = grid_max N (\<lambda>i j. \<bar>uExact ! i ! j\<bar>);
          maxErr = grid_max N (\<lambda>i j. \<bar>u ! i ! j - uExact ! i ! j\<bar>)
      in if maxAbs \<le> 1 / 10 ^ 9 then 0 else 100 * (maxErr / maxAbs))"

text \<open>A field is rectangular when all its rows have the length of the first.\<close>

definition rectangular :: "'a list list \<Rightarrow> bool" where
  "rectangular u = (\<forall>row \<in> set u. length row = length (u ! 0))"

text \<open>The border of a field is zero: first and last row, first and last column.\<close>

definition border_zero :: "'a::zero list list \<Rightarrow> bool" where
  "border_zero u =
     (\<forall>i < length u. \<forall>j < length (u ! i).
        (i = 0 \<or> i = length u - 1 \<or> j = 0 \<or> j = length (u ! i) - 1) \<longrightarrow> u ! i ! j = 0)"

text \<open>
  Two fields on the 3 by 3 grid: the first is \<open>1\<close> at the interior point and has a zero
  border, the second is \<open>1\<close> at one border cell.
\<close>

definition bump_field :: grid where
  "bump_field = [[0, 0, 0], [0, 1, 0], [0, 0, 0]]"

definition edge_field :: grid where
  "edge_field = [[0, 1, 0], [0, 0, 0], [0, 0, 0]]"

text \<open>A field of \<open>N\<close> rows of length \<open>N\<close>.\<close>

definition square_grid :: "nat \<Rightarrow> 'a list list \<Rightarrow> bool" where
  "square_grid N g = (length g = N \<and> (\<forall>row \<in> set g. length row = N))"

section \<open>The steppers on a store of arrays\<close>

text \<open>
  Whether a stepper changes its argument, and whether its result is a new array, depends
  on which array objects the code writes to. This second model keeps the arrays in a
  store: an address is an index into the store, \<open>new Array\<close>, \<open>fill\<close> after it, \<open>map\<close> and
  the spread \<open>[...u]\<close> allocate at the next free address, an assignment \<open>a[i] = v\<close>
  updates the array at the address \<open>a\<close>. A cell holds a number or, in the outer array
  of a two-dimensional field, the address of a row. Each function below follows its
  source statement by statement and returns the address of the array that the source
  returns, with the store.
\<close>

datatype cell = Num real | Ref nat

type_synonym store = "cell list list"

fun num_of :: "cell \<Rightarrow> real" where
  "num_of (Num v) = v"
| "num_of (Ref p) = 0"

fun ref_of :: "cell \<Rightarrow> nat" where
  "ref_of (Ref p) = p"
| "ref_of (Num v) = 0"

definition alloc :: "cell list \<Rightarrow> store \<Rightarrow> nat \<times> store" where
  "alloc v s = (length s, s @ [v])"

definition wr :: "nat \<Rightarrow> nat \<Rightarrow> cell \<Rightarrow> store \<Rightarrow> store" where
  "wr p i v s = s[p := (s ! p)[i := v]]"

definition rd :: "store \<Rightarrow> nat \<Rightarrow> nat \<Rightarrow> real" where
  "rd s p i = num_of (s ! p ! i)"

definition rowAt :: "store \<Rightarrow> nat \<Rightarrow> nat \<Rightarrow> nat" where
  "rowAt s p i = ref_of (s ! p ! i)"

text \<open>\<open>forwardEuler(u, r)\<close>.\<close>

definition forwardEuler_st :: "nat \<Rightarrow> real \<Rightarrow> store \<Rightarrow> nat \<times> store" where
  "forwardEuler_st u r s =
     (let n = length (s ! u) in
      case alloc (replicate n (Num 0)) s of (uNew, s) \<Rightarrow>
        (let s = wr uNew 0 (Num 0) s;
             s = wr uNew (n - 1) (Num 0) s;
             s = fold (\<lambda>i s.
                   wr uNew i
                     (Num (rd s u i + r * (rd s u (i + 1) - 2 * rd s u i + rd s u (i - 1)))) s)
                   [1..<n - 1] s
         in (uNew, s)))"

text \<open>
  \<open>thomasAlgorithm(a, b, c, d)\<close>: the early returns hand back the address \<open>d\<close> itself.
  The forward sweep returns whether it ran to completion, with the store it has reached.
\<close>

function forwardSweep_st ::
  "nat \<Rightarrow> nat \<Rightarrow> nat \<Rightarrow> nat \<Rightarrow> nat \<Rightarrow> nat \<Rightarrow> nat \<Rightarrow> nat \<Rightarrow> store \<Rightarrow> bool \<times> store" where
  "forwardSweep_st a b c d cp dp n i s =
     (if i < n then
        (let denom = rd s b i - rd s a i * rd s cp (i - 1) in
         if \<bar>denom\<bar> < pivot_eps then (False, s)
         else
           (let s = wr cp i (Num (rd s c i / denom)) s;
                s = wr dp i (Num ((rd s d i - rd s a i * rd s dp (i - 1)) / denom)) s
            in forwardSweep_st a b c d cp dp n (i + 1) s))
      else (True, s))"
  by pat_completeness auto
termination
  by (relation "measure (\<lambda>(a, b, c, d, cp, dp, n, i, s). n - i)") auto

declare forwardSweep_st.simps [simp del]

primrec backSubst_st :: "nat \<Rightarrow> nat \<Rightarrow> nat \<Rightarrow> nat \<Rightarrow> store \<Rightarrow> store" where
  "backSubst_st cp dp x 0 s = s"
| "backSubst_st cp dp x (Suc i) s =
     backSubst_st cp dp x i (wr x i (Num (rd s dp i - rd s cp i * rd s x (i + 1))) s)"

definition thomasAlgorithm_st :: "nat \<Rightarrow> nat \<Rightarrow> nat \<Rightarrow> nat \<Rightarrow> store \<Rightarrow> nat \<times> store" where
  "thomasAlgorithm_st a b c d s =
     (let n = length (s ! d) in
      case alloc (replicate n (Num 0)) s of (cp, s) \<Rightarrow>
      case alloc (replicate n (Num 0)) s of (dp, s) \<Rightarrow>
      case alloc (replicate n (Num 0)) s of (x, s) \<Rightarrow>
        if \<bar>rd s b 0\<bar> < pivot_eps then (d, s)
        else
          (let s = wr cp 0 (Num (rd s c 0 / rd s b 0)) s;
               s = wr dp 0 (Num (rd s d 0 / rd s b 0)) s
           in case forwardSweep_st a b c d cp dp n 1 s of
                (False, s) \<Rightarrow> (d, s)
              | (True, s) \<Rightarrow>
                  (let s = wr x (n - 1) (Num (rd s dp (n - 1))) s
                   in (x, backSubst_st cp dp x (n - 1) s))))"

text \<open>The six assignments of the boundary rows, on the arrays at \<open>a\<close>, \<open>b\<close>, \<open>c\<close>, \<open>d\<close>.\<close>

definition dirichletRows_st :: "nat \<Rightarrow> nat \<Rightarrow> nat \<Rightarrow> nat \<Rightarrow> nat \<Rightarrow> store \<Rightarrow> store" where
  "dirichletRows_st n a b c d s =
     (let s = wr b 0 (Num 1) s;
          s = wr c 0 (Num 0) s;
          s = wr d 0 (Num 0) s;
          s = wr a (n - 1) (Num 0) s;
          s = wr b (n - 1) (Num 1) s
      in wr d (n - 1) (Num 0) s)"

text \<open>\<open>backwardEuler(u, r)\<close>; the spread \<open>[...u]\<close> allocates a copy of \<open>u\<close>.\<close>

definition backwardEuler_st :: "nat \<Rightarrow> real \<Rightarrow> store \<Rightarrow> nat \<times> store" where
  "backwardEuler_st u r s =
     (let n = length (s ! u) in
      case alloc (replicate n (Num (- r))) s of (a, s) \<Rightarrow>
      case alloc (replicate n (Num (1 + 2 * r))) s of (b, s) \<Rightarrow>
      case alloc (replicate n (Num (- r))) s of (c, s) \<Rightarrow>
      case alloc (s ! u) s of (d, s) \<Rightarrow>
        thomasAlgorithm_st a b c d (dirichletRows_st n a b c d s))"

text \<open>\<open>crankNicolson(u, r)\<close>.\<close>

definition crankNicolson_st :: "nat \<Rightarrow> real \<Rightarrow> store \<Rightarrow> nat \<times> store" where
  "crankNicolson_st u r s =
     (let n = length (s ! u); r2 = r / 2 in
      case alloc (replicate n (Num (- r2))) s of (a, s) \<Rightarrow>
      case alloc (replicate n (Num (1 + r))) s of (b, s) \<Rightarrow>
      case alloc (replicate n (Num (- r2))) s of (c, s) \<Rightarrow>
      case alloc (replicate n (Num 0)) s of (d, s) \<Rightarrow>
        (let s = fold (\<lambda>i s.
                   wr d i (Num ((1 - r) * rd s u i + r2 * (rd s u (i + 1) + rd s u (i - 1)))) s)
                   [1..<n - 1] s
         in thomasAlgorithm_st a b c d (dirichletRows_st n a b c d s)))"

text \<open>
  \<open>new Array(Nx).fill(0).map(() => new Array(Ny).fill(0))\<close>: the array that \<open>fill\<close>
  fills, the array that \<open>map\<close> returns, and one new row for each of its cells.
\<close>

definition allocGrid :: "nat \<Rightarrow> nat \<Rightarrow> store \<Rightarrow> nat \<times> store" where
  "allocGrid Nx Ny s =
     (case alloc (replicate Nx (Num 0)) s of (filled, s) \<Rightarrow>
      case alloc (replicate Nx (Num 0)) s of (g, s) \<Rightarrow>
        (g, fold (\<lambda>i s. case alloc (replicate Ny (Num 0)) s of (row, s) \<Rightarrow> wr g i (Ref row) s)
              [0..<Nx] s))"

text \<open>\<open>u[i][j]\<close> on the store.\<close>

definition rd2 :: "store \<Rightarrow> nat \<Rightarrow> nat \<Rightarrow> nat \<Rightarrow> real" where
  "rd2 s u i j = rd s (rowAt s u i) j"

text \<open>\<open>forwardEuler2D(u, rx, ry)\<close>.\<close>

definition forwardEuler2D_st :: "nat \<Rightarrow> real \<Rightarrow> real \<Rightarrow> store \<Rightarrow> error + nat \<times> store" where
  "forwardEuler2D_st u rx ry s =
     (if s ! u = [] then Inl TypeError
      else
        (let Nx = length (s ! u); Ny = length (s ! rowAt s u 0) in
         case allocGrid Nx Ny s of (uNew, s) \<Rightarrow>
           Inr (uNew,
             fold (\<lambda>i s.
               fold (\<lambda>j s.
                 wr (rowAt s uNew i) j
                   (Num (rd2 s u i j
                      + rx * (rd2 s u (i + 1) j - 2 * rd2 s u i j + rd2 s u (i - 1) j)
                      + ry * (rd2 s u i (j + 1) - 2 * rd2 s u i j + rd2 s u i (j - 1)))) s)
                 [1..<Ny - 1] s)
               [1..<Nx - 1] s)))"

text \<open>
  What every sweep does with one line of the grid: it allocates \<open>a\<close>, \<open>b\<close>, \<open>c\<close> filled
  with the coefficients and \<open>d\<close>, assigns \<open>d[i]\<close> for the indices \<open>idx\<close>, writes the
  boundary rows and calls the solver.
\<close>

definition solveLine_st ::
  "nat \<Rightarrow> real \<Rightarrow> real \<Rightarrow> nat list \<Rightarrow> (nat \<Rightarrow> store \<Rightarrow> real) \<Rightarrow> store \<Rightarrow> nat \<times> store" where
  "solveLine_st n off dg idx val s =
     (case alloc (replicate n (Num off)) s of (a, s) \<Rightarrow>
      case alloc (replicate n (Num dg)) s of (b, s) \<Rightarrow>
      case alloc (replicate n (Num off)) s of (c, s) \<Rightarrow>
      case alloc (replicate n (Num 0)) s of (d, s) \<Rightarrow>
        (let s = fold (\<lambda>i s. wr d i (Num (val i s)) s) idx s
         in thomasAlgorithm_st a b c d (dirichletRows_st n a b c d s)))"

text \<open>The loops \<open>uStar[i][j] = res[i]\<close> over \<open>i\<close> and \<open>uNew[i][j] = res[j]\<close> over \<open>j\<close>.\<close>

definition writeColumn_st :: "nat \<Rightarrow> nat \<Rightarrow> nat \<Rightarrow> nat \<Rightarrow> store \<Rightarrow> store" where
  "writeColumn_st g Nx j res s =
     fold (\<lambda>i s. wr (rowAt s g i) j (Num (rd s res i)) s) [0..<Nx] s"

definition writeRow_st :: "nat \<Rightarrow> nat \<Rightarrow> nat \<Rightarrow> nat \<Rightarrow> store \<Rightarrow> store" where
  "writeRow_st g Ny i res s =
     fold (\<lambda>j s. wr (rowAt s g i) j (Num (rd s res j)) s) [0..<Ny] s"

text \<open>\<open>backwardEulerADI(u, rx, ry)\<close> of the two-dimensional application.\<close>

definition backwardEulerADI_st :: "nat \<Rightarrow> real \<Rightarrow> real \<Rightarrow> store \<Rightarrow> error + nat \<times> store" where
  "backwardEulerADI_st u rx ry s =
     (if s ! u = [] then Inl TypeError
      else
        (let Nx = length (s ! u); Ny = length (s ! rowAt s u 0) in
         case allocGrid Nx Ny s of (uStar, s) \<Rightarrow>
           (let s = fold (\<lambda>j s.
                      case solveLine_st Nx (- rx) (1 + 2 * rx) [0..<Nx] (\<lambda>i s. rd2 s u i j) s of
                        (res, s) \<Rightarrow> writeColumn_st uStar Nx j res s)
                      [1..<Ny - 1] s
            in case allocGrid Nx Ny s of (uNew, s) \<Rightarrow>
                 Inr (uNew,
                   fold (\<lambda>i s.
                     case solveLine_st Ny (- ry) (1 + 2 * ry) [0..<Ny]
                            (\<lambda>j s. rd2 s uStar i j) s of
                       (res, s) \<Rightarrow> writeRow_st uNew Ny i res s)
                     [1..<Nx - 1] s))))"

text \<open>\<open>crankNicolsonADI(u, rx, ry)\<close> of the two-dimensional application.\<close>

definition crankNicolsonADI_st :: "nat \<Rightarrow> real \<Rightarrow> real \<Rightarrow> store \<Rightarrow> error + nat \<times> store" where
  "crankNicolsonADI_st u rx ry s =
     (if s ! u = [] then Inl TypeError
      else
        (let Nx = length (s ! u); Ny = length (s ! rowAt s u 0) in
         case allocGrid Nx Ny s of (uStar, s) \<Rightarrow>
         case allocGrid Nx Ny s of (uNew, s) \<Rightarrow>
           (let rx2 = rx / 2;
                ry2 = ry / 2;
                s = fold (\<lambda>j s.
                      case solveLine_st Nx (- rx2) (1 + rx) [1..<Nx - 1]
                             (\<lambda>i s. rd2 s u i j
                                + ry2 * (rd2 s u i (j + 1) - 2 * rd2 s u i j + rd2 s u i (j - 1)))
                             s of
                        (res, s) \<Rightarrow> writeColumn_st uStar Nx j res s)
                      [1..<Ny - 1] s
            in Inr (uNew,
                 fold (\<lambda>i s.
                   case solveLine_st Ny (- ry2) (1 + ry) [1..<Ny - 1]
                          (\<lambda>j s. rd2 s uStar i j
                             + rx2 * (rd2 s uStar (i + 1) j - 2 * rd2 s uStar i j
                                        + rd2 s uStar (i - 1) j))
                          s of
                     (res, s) \<Rightarrow> writeRow_st uNew Ny i res s)
                   [1..<Nx - 1] s))))"

text \<open>\<open>backwardEuler2D_ADI(u, rx, ry)\<close> of the unified application.\<close>

definition backwardEuler2D_ADI_st :: "nat \<Rightarrow> real \<Rightarrow> real \<Rightarrow> store \<Rightarrow> error + nat \<times> store" where
  "backwardEuler2D_ADI_st u rx ry s =
     (if s ! u = [] then Inl TypeError
      else
        (let Nx = length (s ! u); Ny = length (s ! rowAt s u 0) in
         case allocGrid Nx Ny s of (uHalf, s) \<Rightarrow>
         case allocGrid Nx Ny s of (uNew, s) \<Rightarrow>
           (let s = fold (\<lambda>j s.
                      case solveLine_st Nx (- rx) (1 + 2 * rx) [1..<Nx - 1]
                             (\<lambda>i s. rd2 s u i j) s of
                        (sol, s) \<Rightarrow> writeColumn_st uHalf Nx j sol s)
                      [0..<Ny] s
            in Inr (uNew,
                 fold (\<lambda>i s.
                   case solveLine_st Ny (- ry) (1 + 2 * ry) [1..<Ny - 1]
                          (\<lambda>j s. rd2 s uHalf i j) s of
                     (sol, s) \<Rightarrow> writeRow_st uNew Ny i sol s)
                   [0..<Nx] s))))"

text \<open>\<open>crankNicolson2D_ADI(u, rx, ry)\<close> of the unified application.\<close>

definition crankNicolson2D_ADI_st :: "nat \<Rightarrow> real \<Rightarrow> real \<Rightarrow> store \<Rightarrow> error + nat \<times> store" where
  "crankNicolson2D_ADI_st u rx ry s =
     (if s ! u = [] then Inl TypeError
      else
        (let Nx = length (s ! u); Ny = length (s ! rowAt s u 0) in
         case allocGrid Nx Ny s of (uHalf, s) \<Rightarrow>
         case allocGrid Nx Ny s of (uNew, s) \<Rightarrow>
           (let rx2 = rx / 2;
                ry2 = ry / 2;
                s = fold (\<lambda>j s.
                      case solveLine_st Nx (- rx2) (1 + rx) [1..<Nx - 1]
                             (\<lambda>i s. (1 - rx) * rd2 s u i j
                                + rx2 * (rd2 s u (i + 1) j + rd2 s u (i - 1) j))
                             s of
                        (sol, s) \<Rightarrow> writeColumn_st uHalf Nx j sol s)
                      [0..<Ny] s
            in Inr (uNew,
                 fold (\<lambda>i s.
                   case solveLine_st Ny (- ry2) (1 + ry) [1..<Ny - 1]
                          (\<lambda>j s. (1 - ry) * rd2 s uHalf i j
                             + ry2 * (rd2 s uHalf i (j + 1) + rd2 s uHalf i (j - 1)))
                          s of
                     (sol, s) \<Rightarrow> writeRow_st uNew Ny i sol s)
                   [0..<Nx] s))))"

text \<open>
  A later store extends an earlier one when every array of the earlier store is still
  there with the same contents. A grid lies in a range of addresses when its outer
  array and the rows that its cells refer to were allocated in that range; it is fresh
  with respect to an earlier store when it lies between the end of that store and the
  end of the present one.
\<close>

definition extends :: "store \<Rightarrow> store \<Rightarrow> bool" where
  "extends s0 s = (length s0 \<le> length s \<and> (\<forall>p < length s0. s ! p = s0 ! p))"

definition grid_in :: "nat \<Rightarrow> nat \<Rightarrow> store \<Rightarrow> nat \<Rightarrow> nat \<Rightarrow> nat \<Rightarrow> bool" where
  "grid_in lo hi s g Nx Ny =
     (lo \<le> g \<and> g < hi \<and> hi \<le> length s \<and> length (s ! g) = Nx
      \<and> (\<forall>i < Nx. \<exists>q. s ! g ! i = Ref q \<and> lo \<le> q \<and> q < hi \<and> q \<noteq> g
                      \<and> length (s ! q) = Ny))"

definition fresh_grid :: "store \<Rightarrow> store \<Rightarrow> nat \<Rightarrow> nat \<Rightarrow> nat \<Rightarrow> bool" where
  "fresh_grid s0 s g Nx Ny = grid_in (length s0) (length s) s g Nx Ny"

text \<open>
  From one store to a later one, only the rows of the grid \<open>g\<close> that lies in the range
  from \<open>lo\<close> to \<open>hi\<close> have changed, and no array has changed its length.
\<close>

definition changes_only :: "nat \<Rightarrow> nat \<Rightarrow> nat \<Rightarrow> store \<Rightarrow> store \<Rightarrow> bool" where
  "changes_only lo hi g s s' =
     (length s \<le> length s'
      \<and> (\<forall>p < length s. length (s' ! p) = length (s ! p)
            \<and> ((p < lo \<or> hi \<le> p \<or> p = g) \<longrightarrow> s' ! p = s ! p)))"

text \<open>A store with one one-dimensional field at address 0, and a store with a 3 by 3
  field whose outer array is at address 3.\<close>

definition store_1d :: store where
  "store_1d = [[Num 0, Num 1, Num 2, Num 0]]"

definition store_2d :: store where
  "store_2d =
     [[Num 0, Num 0, Num 0], [Num 0, Num 1, Num 0], [Num 0, Num 0, Num 0],
      [Ref 0, Ref 1, Ref 2]]"

text \<open>
  The numbers held by the array at an address, and the field held by an outer array
  with its rows: what the first model takes as a \<open>vec\<close> and as a \<open>grid\<close>.
\<close>

definition vecAt :: "store \<Rightarrow> nat \<Rightarrow> vec" where
  "vecAt s p = map num_of (s ! p)"

definition gridAt :: "store \<Rightarrow> nat \<Rightarrow> grid" where
  "gridAt s g = map (\<lambda>c. vecAt s (ref_of c)) (s ! g)"

text \<open>
  The outer array at \<open>g\<close> holds the addresses \<open>rows\<close>, all allocated, and the rows hold
  the field \<open>G\<close>. A grid that the code writes to is moreover made of separate arrays:
  no two cells of the outer array refer to the same row, and none to the outer array.
\<close>

definition holds :: "store \<Rightarrow> nat \<Rightarrow> nat list \<Rightarrow> grid \<Rightarrow> bool" where
  "holds s g rows G =
     (g < length s \<and> s ! g = map Ref rows \<and> (\<forall>q \<in> set rows. q < length s)
      \<and> G = map (vecAt s) rows)"

definition rep :: "store \<Rightarrow> nat \<Rightarrow> nat list \<Rightarrow> grid \<Rightarrow> bool" where
  "rep s g rows G = (holds s g rows G \<and> distinct rows \<and> g \<notin> set rows)"

text \<open>
  From the store \<open>s\<close> to the later store \<open>t\<close>, the arrays of \<open>s\<close> whose addresses are not
  in \<open>R\<close> have kept their contents.
\<close>

definition keeps :: "nat set \<Rightarrow> store \<Rightarrow> store \<Rightarrow> bool" where
  "keeps R s t = (length s \<le> length t \<and> (\<forall>p < length s. p \<notin> R \<longrightarrow> t ! p = s ! p))"

section \<open>JavaScript numbers with their special values\<close>

text \<open>
  A JavaScript number is a finite value, \<open>Infinity\<close>, \<open>-Infinity\<close> or \<open>NaN\<close>. This second model
  of the numbers keeps the three special values and their arithmetic (IEEE 754) and
  leaves rounding out: a finite value is a real, an operation on finite values is exact,
  and the only operation that takes finite values to a special one is a division by zero.
  Zero has no sign: a quotient by zero takes its sign from the dividend, as it does in
  the program for the zero \<open>+0\<close>.
\<close>

datatype number = Fin real | PInf | NInf | NaN

fun isFinite :: "number \<Rightarrow> bool" where
  "isFinite (Fin a) = True"
| "isFinite PInf = False"
| "isFinite NInf = False"
| "isFinite NaN = False"

instantiation number :: "{zero, one, plus, uminus, minus, times, inverse, abs, ord}"
begin

definition zero_number :: number where
  "zero_number = Fin 0"

definition one_number :: number where
  "one_number = Fin 1"

fun plus_number :: "number \<Rightarrow> number \<Rightarrow> number" where
  "Fin a + Fin b = Fin (a + b)"
| "Fin a + PInf = PInf"
| "Fin a + NInf = NInf"
| "PInf + Fin b = PInf"
| "PInf + PInf = PInf"
| "PInf + NInf = NaN"
| "NInf + Fin b = NInf"
| "NInf + NInf = NInf"
| "NInf + PInf = NaN"
| "NaN + y = NaN"
| "Fin a + NaN = NaN"
| "PInf + NaN = NaN"
| "NInf + NaN = NaN"

fun uminus_number :: "number \<Rightarrow> number" where
  "- Fin a = Fin (- a)"
| "- PInf = NInf"
| "- NInf = PInf"
| "- NaN = NaN"

definition minus_number :: "number \<Rightarrow> number \<Rightarrow> number" where
  "minus_number x y = x + (- y)"

fun times_number :: "number \<Rightarrow> number \<Rightarrow> number" where
  "Fin a * Fin b = Fin (a * b)"
| "Fin a * PInf = (if a = 0 then NaN else if 0 < a then PInf else NInf)"
| "Fin a * NInf = (if a = 0 then NaN else if 0 < a then NInf else PInf)"
| "PInf * Fin b = (if b = 0 then NaN else if 0 < b then PInf else NInf)"
| "NInf * Fin b = (if b = 0 then NaN else if 0 < b then NInf else PInf)"
| "PInf * PInf = PInf"
| "PInf * NInf = NInf"
| "NInf * PInf = NInf"
| "NInf * NInf = PInf"
| "NaN * y = NaN"
| "Fin a * NaN = NaN"
| "PInf * NaN = NaN"
| "NInf * NaN = NaN"

fun divide_number :: "number \<Rightarrow> number \<Rightarrow> number" where
  "Fin a div Fin b =
     (if b = 0 then (if a = 0 then NaN else if 0 < a then PInf else NInf) else Fin (a / b))"
| "Fin a div PInf = Fin 0"
| "Fin a div NInf = Fin 0"
| "PInf div Fin b = (if 0 \<le> b then PInf else NInf)"
| "NInf div Fin b = (if 0 \<le> b then NInf else PInf)"
| "PInf div PInf = NaN"
| "PInf div NInf = NaN"
| "NInf div PInf = NaN"
| "NInf div NInf = NaN"
| "NaN div y = NaN"
| "Fin a div NaN = NaN"
| "PInf div NaN = NaN"
| "NInf div NaN = NaN"

definition inverse_number :: "number \<Rightarrow> number" where
  "inverse_number x = Fin 1 div x"

fun abs_number :: "number \<Rightarrow> number" where
  "\<bar>Fin a\<bar> = Fin \<bar>a\<bar>"
| "\<bar>PInf\<bar> = PInf"
| "\<bar>NInf\<bar> = PInf"
| "\<bar>NaN\<bar> = NaN"

fun less_number :: "number \<Rightarrow> number \<Rightarrow> bool" where
  "Fin a < Fin b = (a < b)"
| "Fin a < PInf = True"
| "Fin a < NInf = False"
| "PInf < y = False"
| "NInf < Fin b = True"
| "NInf < PInf = True"
| "NInf < NInf = False"
| "NaN < y = False"
| "Fin a < NaN = False"
| "NInf < NaN = False"

definition less_eq_number :: "number \<Rightarrow> number \<Rightarrow> bool" where
  "less_eq_number x y = (x < y \<or> (x = y \<and> x \<noteq> NaN))"

instance ..

end

instance number :: numeral
proof
  fix a b c :: number
  show "a + b + c = a + (b + c)"
    by (cases a; cases b; cases c) simp_all
qed

text \<open>\<open>Math.sqrt\<close>.\<close>

fun Math_sqrt :: "number \<Rightarrow> number" where
  "Math_sqrt (Fin a) = (if a < 0 then NaN else Fin (sqrt a))"
| "Math_sqrt PInf = PInf"
| "Math_sqrt NInf = NaN"
| "Math_sqrt NaN = NaN"

text \<open>The finite value of a number, and \<open>0\<close> for the special values.\<close>

fun fin :: "number \<Rightarrow> real" where
  "fin (Fin a) = a"
| "fin PInf = 0"
| "fin NInf = 0"
| "fin NaN = 0"

type_synonym nvec = "number list"

type_synonym ngrid = "number list list"

section \<open>Error metrics of the two-dimensional status display\<close>

text \<open>
  The text that \<open>updateStatus\<close> writes into an output element: \<open>DIVERGED!\<close>, or a number
  (its formatting by \<open>toExponential\<close> or \<open>toFixed\<close> and the per cent sign are left out).
\<close>

datatype display = Diverged | Shows number

record status =
  l2Error :: number
  maxError :: number
  maxRelError :: number
  errorDisplay :: display
  maxErrorDisplay :: display
  maxRelErrorDisplay :: display

text \<open>
  The loops of \<open>updateStatus()\<close> in the two-dimensional application, over \<open>config.Nx\<close> rows
  and columns of \<open>state.u\<close> and \<open>state.uExact\<close>: an error that is not finite is left out
  of \<open>sumSqError\<close> and \<open>maxError\<close>, an exact value that is not finite is left out of
  \<open>maxUExact\<close>, and every cell is counted.
\<close>

definition updateStatus_loop :: "nat \<Rightarrow> ngrid \<Rightarrow> ngrid \<Rightarrow> number \<times> number \<times> number \<times> nat" where
  "updateStatus_loop N u uExact =
     fold (\<lambda>i acc.
       fold (\<lambda>j (sumSqError, maxError, maxUExact, count).
         (let err = \<bar>u ! i ! j - uExact ! i ! j\<bar>;
              sumSqError = (if isFinite err then sumSqError + err * err else sumSqError);
              maxError = (if isFinite err \<and> err > maxError then err else maxError);
              maxUExact = (if isFinite (uExact ! i ! j) \<and> \<bar>uExact ! i ! j\<bar> > maxUExact
                           then \<bar>uExact ! i ! j\<bar> else maxUExact)
          in (sumSqError, maxError, maxUExact, count + 1)))
         [0..<N] acc)
       [0..<N] (0, 0, 0, 0)"

text \<open>
  The rest of \<open>updateStatus()\<close>: the \<open>L2\<close> error, the maximum relative error with its
  guard \<open>1e-9\<close>, and the three output elements, which show \<open>DIVERGED!\<close> when the \<open>L2\<close>
  error exceeds \<open>10\<close> or is not finite.
\<close>

definition updateStatus_2d :: "nat \<Rightarrow> ngrid \<Rightarrow> ngrid \<Rightarrow> status" where
  "updateStatus_2d N u uExact =
     (case updateStatus_loop N u uExact of
        (sumSqError, maxErr, maxUExact, count) \<Rightarrow>
          (let l2 = Math_sqrt (sumSqError / Fin (real count));
               maxRel = (if maxUExact > Fin (1 / 10 ^ 9) then (maxErr / maxUExact) * 100 else 0)
           in if l2 > 10 \<or> \<not> isFinite l2 then
                \<lparr> l2Error = l2, maxError = maxErr, maxRelError = maxRel,
                  errorDisplay = Diverged, maxErrorDisplay = Diverged,
                  maxRelErrorDisplay = Diverged \<rparr>
              else
                \<lparr> l2Error = l2, maxError = maxErr, maxRelError = maxRel,
                  errorDisplay = Shows l2, maxErrorDisplay = Shows maxErr,
                  maxRelErrorDisplay = Shows maxRel \<rparr>))"

text \<open>
  \<open>updateStatus2D()\<close> of the unified application loops over the shape of \<open>u\<close>, leaves a
  cell out altogether when its error is not finite, and keeps a maximum of pointwise
  relative errors over the cells where \<open>|uExact|\<close> exceeds \<open>1e-10\<close>. It has no \<open>DIVERGED!\<close>
  branch; \<open>u[0].length\<close> in the last division raises a \<open>TypeError\<close> when \<open>u\<close> is empty.
\<close>

definition updateStatus2D_loop :: "ngrid \<Rightarrow> ngrid \<Rightarrow> number \<times> number \<times> number" where
  "updateStatus2D_loop u uExact =
     fold (\<lambda>i acc.
       fold (\<lambda>j (sumSq, maxErr, maxRelErr).
         (let diff = \<bar>u ! i ! j - uExact ! i ! j\<bar>
          in if isFinite diff then
               (let sumSq = sumSq + diff * diff;
                    maxErr = (if diff > maxErr then diff else maxErr);
                    maxRelErr =
                      (if \<bar>uExact ! i ! j\<bar> > Fin (1 / 10 ^ 10) then
                         (let relErr = 100 * diff / \<bar>uExact ! i ! j\<bar>
                          in if relErr > maxRelErr then relErr else maxRelErr)
                       else maxRelErr)
                in (sumSq, maxErr, maxRelErr))
             else (sumSq, maxErr, maxRelErr)))
         [0..<length (u ! 0)] acc)
       [0..<length u] (0, 0, 0)"

definition updateStatus2D :: "ngrid \<Rightarrow> ngrid \<Rightarrow> error + status" where
  "updateStatus2D u uExact =
     (case updateStatus2D_loop u uExact of
        (sumSq, maxErr, maxRelErr) \<Rightarrow>
          if u = [] then Inl TypeError
          else
            (let l2 = Math_sqrt (sumSq / Fin (real (length u * length (u ! 0))))
             in Inr \<lparr> l2Error = l2, maxError = maxErr, maxRelError = maxRelErr,
                      errorDisplay = Shows l2, maxErrorDisplay = Shows maxErr,
                      maxRelErrorDisplay = Shows maxRelErr \<rparr>))"

text \<open>
  The quantities of the display in mathematical terms. The maximum over the \<open>N\<close> by \<open>N\<close>
  grid of the values of \<open>f\<close> that are finite, and \<open>0\<close> when none is or none is positive;
  the sum of the squares of the finite errors; the maximum relative error as the
  two-dimensional application computes it when it does not show \<open>DIVERGED!\<close>.
\<close>

definition finite_max :: "nat \<Rightarrow> (nat \<Rightarrow> nat \<Rightarrow> number) \<Rightarrow> real" where
  "finite_max N f =
     Max (insert 0 ((\<lambda>p. fin (f (fst p) (snd p)))
                      ` {p \<in> {0..<N} \<times> {0..<N}. isFinite (f (fst p) (snd p))}))"

definition finite_sumSq :: "nat \<Rightarrow> ngrid \<Rightarrow> ngrid \<Rightarrow> real" where
  "finite_sumSq N u uExact =
     sum_list (map (\<lambda>p. fin \<bar>u ! fst p ! snd p - uExact ! fst p ! snd p\<bar>
                          * fin \<bar>u ! fst p ! snd p - uExact ! fst p ! snd p\<bar>)
                 (List.product [0..<N] [0..<N]))"

definition finite_maxRelError :: "nat \<Rightarrow> ngrid \<Rightarrow> ngrid \<Rightarrow> real" where
  "finite_maxRelError N u uExact =
     (let maxAbs = finite_max N (\<lambda>i j. \<bar>uExact ! i ! j\<bar>);
          maxErr = finite_max N (\<lambda>i j. \<bar>u ! i ! j - uExact ! i ! j\<bar>)
      in if maxAbs \<le> 1 / 10 ^ 9 then 0 else 100 * (maxErr / maxAbs))"

text \<open>
  The maximum that \<open>updateStatus2D\<close> of the unified application keeps: of the pointwise
  relative errors, in percent, over the points where the error is finite and \<open>|uExact|\<close>
  exceeds \<open>1e-10\<close>, and \<open>0\<close> when there is no such point.
\<close>

definition pointwise_maxRelErr :: "nat \<Rightarrow> nat \<Rightarrow> ngrid \<Rightarrow> ngrid \<Rightarrow> real" where
  "pointwise_maxRelErr Nx Ny u uExact =
     Max (insert 0
       ((\<lambda>p. 100 * fin \<bar>u ! fst p ! snd p - uExact ! fst p ! snd p\<bar>
                 / fin \<bar>uExact ! fst p ! snd p\<bar>)
          ` {p \<in> {0..<Nx} \<times> {0..<Ny}.
               isFinite \<bar>u ! fst p ! snd p - uExact ! fst p ! snd p\<bar>
               \<and> \<bar>uExact ! fst p ! snd p\<bar> > Fin (1 / 10 ^ 10)}))"

text \<open>
  Pairs of fields on the 2 by 2 grid. In the first the numerical field is off by
  \<open>1 / 2\<close> at the point where the exact field is \<open>1 / 2\<close>; in the second the exact field
  is zero everywhere; in the third the numerical field has grown to \<open>100\<close>; the fourth is
  the first with \<open>Infinity\<close> in one cell of the numerical field.
\<close>

definition skewed_u :: grid where
  "skewed_u = [[1, 1], [0, 0]]"

definition skewed_uExact :: grid where
  "skewed_uExact = [[1, 1 / 2], [0, 0]]"

definition flat_u :: grid where
  "flat_u = [[1, 1], [1, 1]]"

definition flat_uExact :: grid where
  "flat_uExact = [[0, 0], [0, 0]]"

definition diverged_u :: grid where
  "diverged_u = [[100, 100], [100, 100]]"

definition diverged_uExact :: grid where
  "diverged_uExact = [[1, 1], [1, 1]]"

definition partial_u :: ngrid where
  "partial_u = [[Fin 1, Fin 1], [Fin 0, PInf]]"

definition partial_uExact :: ngrid where
  "partial_uExact = [[Fin 1, Fin (1 / 2)], [Fin 0, Fin 0]]"

text \<open>
  One iteration of the inner loop of \<open>updateStatus\<close> in the two-dimensional application,
  for the proofs: \<open>e p\<close> is the error at the cell \<open>p\<close> and \<open>x p\<close> the exact value there.
\<close>

definition status_step ::
  "('p \<Rightarrow> number) \<Rightarrow> ('p \<Rightarrow> number) \<Rightarrow> 'p \<Rightarrow> number \<times> number \<times> number \<times> nat
     \<Rightarrow> number \<times> number \<times> number \<times> nat" where
  "status_step e x p acc =
     (case acc of (s, m, mu, c) \<Rightarrow>
        ((if isFinite (e p) then s + e p * e p else s),
         (if isFinite (e p) \<and> e p > m then e p else m),
         (if isFinite (x p) \<and> \<bar>x p\<bar> > mu then \<bar>x p\<bar> else mu),
         c + 1))"

text \<open>
  One iteration of the inner loop of \<open>updateStatus2D\<close> in the unified application, for
  the proofs, with the threshold \<open>t\<close> in place of \<open>1e-10\<close>.
\<close>

definition status2D_step ::
  "('p \<Rightarrow> number) \<Rightarrow> ('p \<Rightarrow> number) \<Rightarrow> real \<Rightarrow> 'p \<Rightarrow> number \<times> number \<times> number
     \<Rightarrow> number \<times> number \<times> number" where
  "status2D_step e x t p acc =
     (case acc of (s, m, r) \<Rightarrow>
        if isFinite (e p) then
          (s + e p * e p,
           (if e p > m then e p else m),
           (if \<bar>x p\<bar> > Fin t then
              (if 100 * e p / \<bar>x p\<bar> > r then 100 * e p / \<bar>x p\<bar> else r)
            else r))
        else (s, m, r))"

section \<open>The steppers on numbers with special values\<close>

text \<open>
  The tridiagonal solver and the eight steppers once more, statement by statement as
  above, on numbers that can be \<open>Infinity\<close> or \<open>NaN\<close>. A comparison with \<open>NaN\<close> is false,
  so that the test of a pivot lets a \<open>NaN\<close> pivot pass. The arrays are made and
  written by \<open>newArray\<close>, \<open>zeros\<close> and \<open>set2\<close> as above.
\<close>





text \<open>\<open>forwardEuler(u, r)\<close>, \<open>backwardEuler(u, r)\<close> and \<open>crankNicolson(u, r)\<close>.\<close>

definition forwardEuler_num :: "nvec \<Rightarrow> number \<Rightarrow> nvec" where
  "forwardEuler_num u r =
     (let n = length u;
          uNew = newArray n;
          uNew = uNew[0 := 0];
          uNew = uNew[n - 1 := 0]
      in fold (\<lambda>i uNew. uNew[i := u ! i + r * (u ! (i + 1) - 2 * u ! i + u ! (i - 1))])
           [1..<n - 1] uNew)"

























section \<open>Properties of the solver\<close>

text \<open>
  If some pivot from row \<open>i\<close> on is degenerate and \<open>cp\<close> holds the normalised coefficient
  of row \<open>i - 1\<close>, the forward sweep returns early.
\<close>

lemma forwardSweep_degenerate:
  assumes "\<exists>k. i \<le> k \<and> k < n \<and> \<bar>pivot a b c k\<bar> < pivot_eps"
    and "1 \<le> i" and "length cp = n"
    and "cp ! (i - 1) = cprime a b c (i - 1)"
  shows "forwardSweep a b c d n i cp dp = None"
  using assms
proof (induction a b c d n i cp dp rule: forwardSweep.induct)
  case (1 a b c d n i cp dp)
  from "1.prems" obtain k where k: "i \<le> k" "k < n" "\<bar>pivot a b c k\<bar> < pivot_eps"
    by blast
  then have lt: "i < n" by simp
  from \<open>1 \<le> i\<close> obtain j where j: "i = Suc j" by (cases i) auto
  define denom where "denom = b ! i - a ! i * cp ! (i - 1)"
  have piv: "denom = pivot a b c i"
    using "1.prems"(4) by (simp add: denom_def j)
  show ?case
  proof (cases "\<bar>denom\<bar> < pivot_eps")
    case True
    then show ?thesis
      using lt by (subst forwardSweep.simps) (simp add: denom_def Let_def)
  next
    case False
    with k piv have "i \<noteq> k" by auto
    with k have ex: "\<exists>k. i + 1 \<le> k \<and> k < n \<and> \<bar>pivot a b c k\<bar> < pivot_eps"
      by (intro exI[of _ k]) simp
    have cpn: "(cp[i := c ! i / denom]) ! (i + 1 - 1) = cprime a b c (i + 1 - 1)"
      using lt "1.prems"(3) piv by (simp add: j)
    have "forwardSweep a b c d n (i + 1) (cp[i := c ! i / denom])
            (dp[i := (d ! i - a ! i * dp ! (i - 1)) / denom]) = None"
      using "1.IH"[OF lt denom_def False ex] cpn "1.prems"(3) by simp
    then show ?thesis
      using lt False by (subst forwardSweep.simps) (simp add: denom_def Let_def)
  qed
qed

text \<open>
  If no pivot from row \<open>i\<close> on is degenerate, the sweep completes and leaves the
  normalised coefficients of every row in \<open>cp\<close> and \<open>dp\<close>.
\<close>

lemma forwardSweep_complete:
  assumes "\<forall>k. i \<le> k \<and> k < n \<longrightarrow> \<not> \<bar>pivot a b c k\<bar> < pivot_eps"
    and "1 \<le> i" and "i \<le> n" and "length cp = n" and "length dp = n"
    and "\<forall>k<i. cp ! k = cprime a b c k \<and> dp ! k = dprime a b c d k"
  shows "\<exists>cp' dp'. forwardSweep a b c d n i cp dp = Some (cp', dp')
           \<and> length cp' = n \<and> length dp' = n
           \<and> (\<forall>k<n. cp' ! k = cprime a b c k \<and> dp' ! k = dprime a b c d k)"
  using assms
proof (induction a b c d n i cp dp rule: forwardSweep.induct)
  case (1 a b c d n i cp dp)
  show ?case
  proof (cases "i < n")
    case False
    with "1.prems" have "i = n" by simp
    then show ?thesis
      using "1.prems" by (subst forwardSweep.simps) simp
  next
    case lt: True
    from \<open>1 \<le> i\<close> obtain j where j: "i = Suc j" by (cases i) auto
    define denom where "denom = b ! i - a ! i * cp ! (i - 1)"
    have piv: "denom = pivot a b c i"
      using "1.prems"(6) by (simp add: denom_def j)
    have nd: "\<not> \<bar>denom\<bar> < pivot_eps"
      using "1.prems"(1) lt piv by simp
    let ?cp = "cp[i := c ! i / denom]"
    let ?dp = "dp[i := (d ! i - a ! i * dp ! (i - 1)) / denom]"
    have inv: "\<forall>k<i + 1. ?cp ! k = cprime a b c k \<and> ?dp ! k = dprime a b c d k"
    proof (intro allI impI)
      fix k assume "k < i + 1"
      then consider "k < i" | "k = i" by linarith
      then show "?cp ! k = cprime a b c k \<and> ?dp ! k = dprime a b c d k"
      proof cases
        case 1
        then show ?thesis using "1.prems"(6) by simp
      next
        case 2
        have "cp ! j = cprime a b c j" "dp ! j = dprime a b c d j"
          using "1.prems"(6) j by simp_all
        then show ?thesis
          using 2 lt "1.prems"(4,5) by (simp add: j denom_def)
      qed
    qed
    have "\<exists>cp' dp'. forwardSweep a b c d n (i + 1) ?cp ?dp = Some (cp', dp')
           \<and> length cp' = n \<and> length dp' = n
           \<and> (\<forall>k<n. cp' ! k = cprime a b c k \<and> dp' ! k = dprime a b c d k)"
      using "1.IH"[OF lt denom_def nd] "1.prems"(1,4,5) lt inv by simp
    then show ?thesis
      using lt nd by (subst forwardSweep.simps) (simp add: denom_def Let_def)
  qed
qed

lemma backSubst_length: "length (backSubst cp dp x k) = length x"
  by (induction k arbitrary: x) simp_all

lemma backSubst_above: "k \<le> m \<Longrightarrow> backSubst cp dp x k ! m = x ! m"
  by (induction k arbitrary: x) simp_all

lemma backSubst_step:
  "i < k \<Longrightarrow> k < length x \<Longrightarrow>
     backSubst cp dp x k ! i = dp ! i - cp ! i * backSubst cp dp x k ! (i + 1)"
proof (induction k arbitrary: x)
  case 0
  then show ?case by simp
next
  case (Suc k)
  show ?case
  proof (cases "i = k")
    case True
    then show ?thesis
      using Suc.prems by (simp add: backSubst_above)
  next
    case False
    then show ?thesis
      using Suc by simp
  qed
qed

text \<open>
  The two outcomes of the solver on arrays of one length \<open>n > 0\<close>: some pivot is
  degenerate and the right-hand side comes back, or none is and the result obeys the
  recurrence of the back substitution.
\<close>

lemma thomasAlgorithm_cases:
  assumes "length d = n" and "0 < n"
  shows "((\<exists>i<n. \<bar>pivot a b c i\<bar> < pivot_eps) \<and> thomasAlgorithm a b c d = d)
       \<or> ((\<forall>i<n. \<not> \<bar>pivot a b c i\<bar> < pivot_eps)
           \<and> length (thomasAlgorithm a b c d) = n
           \<and> thomasAlgorithm a b c d ! (n - 1) = dprime a b c d (n - 1)
           \<and> (\<forall>i. i + 1 < n \<longrightarrow>
                 thomasAlgorithm a b c d ! i
                   = dprime a b c d i - cprime a b c i * thomasAlgorithm a b c d ! (i + 1)))"
proof (cases "\<exists>i<n. \<bar>pivot a b c i\<bar> < pivot_eps")
  case True
  then obtain i where i: "i < n" "\<bar>pivot a b c i\<bar> < pivot_eps" by blast
  have "thomasAlgorithm a b c d = d"
  proof (cases "\<bar>b ! 0\<bar> < pivot_eps")
    case True
    then show ?thesis by (simp add: thomasAlgorithm_def)
  next
    case False
    with i have "1 \<le> i" by (cases i) auto
    with i have ex: "\<exists>k. 1 \<le> k \<and> k < n \<and> \<bar>pivot a b c k\<bar> < pivot_eps"
      by blast
    have "forwardSweep a b c d n 1 ((newArray n)[0 := c ! 0 / b ! 0])
            ((newArray n)[0 := d ! 0 / b ! 0]) = None"
      using assms(2) by (intro forwardSweep_degenerate[OF ex]) (simp_all add: newArray_def)
    then show ?thesis using assms(1) by (simp add: thomasAlgorithm_def Let_def)
  qed
  with True show ?thesis by blast
next
  case False
  then have ok: "\<forall>i<n. \<not> \<bar>pivot a b c i\<bar> < pivot_eps" by blast
  with assms(2) have b0: "\<not> \<bar>b ! 0\<bar> < pivot_eps" by (auto dest: spec[of _ 0])
  have "\<exists>cp' dp'. forwardSweep a b c d n 1 ((newArray n)[0 := c ! 0 / b ! 0])
            ((newArray n)[0 := d ! 0 / b ! 0]) = Some (cp', dp')
           \<and> length cp' = n \<and> length dp' = n
           \<and> (\<forall>k<n. cp' ! k = cprime a b c k \<and> dp' ! k = dprime a b c d k)"
    using ok assms(2) by (intro forwardSweep_complete) (auto simp: newArray_def)
  then obtain cp' dp' where
    fs: "forwardSweep a b c d n 1 ((newArray n)[0 := c ! 0 / b ! 0])
            ((newArray n)[0 := d ! 0 / b ! 0]) = Some (cp', dp')"
    and len: "length cp' = n" "length dp' = n"
    and val: "\<forall>k<n. cp' ! k = cprime a b c k \<and> dp' ! k = dprime a b c d k"
    by blast
  define x where "x = backSubst cp' dp' ((newArray n)[n - 1 := dp' ! (n - 1)]) (n - 1)"
  have tx: "thomasAlgorithm a b c d = x"
    using b0 fs assms(1) by (simp add: thomasAlgorithm_def Let_def x_def)
  have lx: "length x = n"
    by (simp add: x_def backSubst_length newArray_def)
  have last: "x ! (n - 1) = dprime a b c d (n - 1)"
    using assms(2) val by (simp add: x_def backSubst_above newArray_def)
  have step: "x ! i = dprime a b c d i - cprime a b c i * x ! (i + 1)" if "i + 1 < n" for i
  proof -
    have "x ! i = dp' ! i - cp' ! i * x ! (i + 1)"
      unfolding x_def using that by (intro backSubst_step) (simp_all add: newArray_def)
    then show ?thesis using val that by simp
  qed
  from ok lx last step show ?thesis unfolding tx by blast
qed

lemma thomasAlgorithm_length:
  assumes "d \<noteq> []"
  shows "length (thomasAlgorithm a b c d) = length d"
  using thomasAlgorithm_cases[of d "length d" a b c] assms by auto

text \<open>
  With the boundary rows of the steppers, the first and the last entry of the solver's
  result are zero, whether the sweep completes or not.
\<close>

lemma thomasAlgorithm_boundary:
  assumes "length a = n" "length b = n" "length c = n" "length d = n" "0 < n"
    and "dirichletRows n (a, b, c, d) = (a', b', c', d')"
  shows "thomasAlgorithm a' b' c' d' ! 0 = 0 \<and> thomasAlgorithm a' b' c' d' ! (n - 1) = 0"
proof -
  have eqs: "a' = a[n - 1 := 0]" "b' = b[0 := 1, n - 1 := 1]" "c' = c[0 := 0]"
    "d' = d[0 := 0, n - 1 := 0]"
    using assms(6) by (simp_all add: dirichletRows_def)
  have d0: "d' ! 0 = 0" and dn: "d' ! (n - 1) = 0" and b0: "b' ! 0 = 1" and c0: "c' ! 0 = 0"
    and an: "a' ! (n - 1) = 0" and bn: "b' ! (n - 1) = 1" and ld: "length d' = n"
    using assms(1-5) by (simp_all add: eqs nth_list_update)
  have dp_last: "dprime a' b' c' d' (n - 1) = 0"
  proof (cases "n - 1")
    case 0
    then show ?thesis using d0 by simp
  next
    case (Suc m)
    then show ?thesis using dn an by simp
  qed
  have cp0: "cprime a' b' c' 0 = 0" using c0 by simp
  have dp0: "dprime a' b' c' d' 0 = 0" using d0 by simp
  from thomasAlgorithm_cases[OF ld assms(5), of a' b' c'] show ?thesis
  proof
    assume "(\<exists>i<n. \<bar>pivot a' b' c' i\<bar> < pivot_eps) \<and> thomasAlgorithm a' b' c' d' = d'"
    then show ?thesis using d0 dn by simp
  next
    assume r: "(\<forall>i<n. \<not> \<bar>pivot a' b' c' i\<bar> < pivot_eps)
           \<and> length (thomasAlgorithm a' b' c' d') = n
           \<and> thomasAlgorithm a' b' c' d' ! (n - 1) = dprime a' b' c' d' (n - 1)
           \<and> (\<forall>i. i + 1 < n \<longrightarrow>
                 thomasAlgorithm a' b' c' d' ! i
                   = dprime a' b' c' d' i - cprime a' b' c' i * thomasAlgorithm a' b' c' d' ! (i + 1))"
    then have last: "thomasAlgorithm a' b' c' d' ! (n - 1) = 0"
      using dp_last by simp
    have "thomasAlgorithm a' b' c' d' ! 0 = 0"
    proof (cases "n = 1")
      case True
      then show ?thesis using last by simp
    next
      case False
      with assms(5) have "0 + 1 < n" by simp
      with r have "thomasAlgorithm a' b' c' d' ! 0
          = dprime a' b' c' d' 0 - cprime a' b' c' 0 * thomasAlgorithm a' b' c' d' ! (0 + 1)"
        by blast
      then show ?thesis unfolding cp0 dp0 by simp
    qed
    with last show ?thesis by simp
  qed
qed

text \<open>A zero right-hand side gives the zero vector.\<close>

lemma dprime_zero:
  assumes "\<forall>k\<le>i. d ! k = 0"
  shows "dprime a b c d i = 0"
  using assms by (induction i) simp_all

lemma thomasAlgorithm_zero_rhs:
  assumes "length d = n" "0 < n" "\<forall>k<n. d ! k = 0" "i < n"
  shows "thomasAlgorithm a b c d ! i = 0"
proof -
  from thomasAlgorithm_cases[OF assms(1,2), of a b c] show ?thesis
  proof
    assume "(\<exists>i<n. \<bar>pivot a b c i\<bar> < pivot_eps) \<and> thomasAlgorithm a b c d = d"
    then show ?thesis using assms by simp
  next
    assume r: "(\<forall>i<n. \<not> \<bar>pivot a b c i\<bar> < pivot_eps)
           \<and> length (thomasAlgorithm a b c d) = n
           \<and> thomasAlgorithm a b c d ! (n - 1) = dprime a b c d (n - 1)
           \<and> (\<forall>i. i + 1 < n \<longrightarrow>
                 thomasAlgorithm a b c d ! i
                   = dprime a b c d i - cprime a b c i * thomasAlgorithm a b c d ! (i + 1))"
    have dz: "dprime a b c d k = 0" if "k < n" for k
      using that assms(3) by (intro dprime_zero) simp
    have "thomasAlgorithm a b c d ! (n - 1 - m) = 0" for m
    proof (induction m)
      case 0
      then show ?case using r dz[of "n - 1"] assms(2) by simp
    next
      case (Suc m)
      show ?case
      proof (cases "Suc m \<le> n - 1")
        case True
        define k where "k = n - 1 - Suc m"
        from True have lt: "k + 1 < n" and eq: "k + 1 = n - 1 - m"
          by (simp_all add: k_def)
        from r lt have "thomasAlgorithm a b c d ! k
            = dprime a b c d k - cprime a b c k * thomasAlgorithm a b c d ! (k + 1)"
          by blast
        moreover have "thomasAlgorithm a b c d ! (k + 1) = 0"
          unfolding eq by (rule Suc.IH)
        moreover have "dprime a b c d k = 0"
          using lt by (intro dz) simp
        ultimately have "thomasAlgorithm a b c d ! k = 0" by simp
        then show ?thesis by (simp add: k_def)
      next
        case False
        then have "n - 1 - Suc m = n - 1 - m" by simp
        then show ?thesis using Suc.IH by simp
      qed
    qed
    from this[of "n - 1 - i"] assms(4) show ?thesis by simp
  qed
qed

section \<open>Claims about the solver\<close>

text \<open>
  C3. For arrays \<open>a\<close>, \<open>b\<close>, \<open>c\<close>, \<open>d\<close> of one length \<open>n \<ge> 1\<close>: if \<open>|b\<^sub>0|\<close> or any effective pivot
  \<open>|b\<^sub>i - a\<^sub>i cp\<^sub>i\<^sub>-\<^sub>1|\<close> is below \<open>1e-15\<close>, \<open>thomasAlgorithm\<close> returns the right-hand side \<open>d\<close>
  unchanged; in particular it returns \<open>d\<close> when \<open>b\<^sub>0 = 0\<close>. The test precedes each division,
  so the model never divides by the degenerate pivot.
\<close>

theorem thomasAlgorithm_degenerate_returns_rhs:
  assumes "length a = length d" and "length b = length d" and "length c = length d"
    and "d \<noteq> []"
  shows "((\<exists>i<length d. \<bar>pivot a b c i\<bar> < pivot_eps) \<longrightarrow> thomasAlgorithm a b c d = d)
       \<and> (b ! 0 = 0 \<longrightarrow> thomasAlgorithm a b c d = d)"
proof -
  have n: "0 < length d" using assms(4) by simp
  have first: "(\<exists>i<length d. \<bar>pivot a b c i\<bar> < pivot_eps) \<longrightarrow> thomasAlgorithm a b c d = d"
    using thomasAlgorithm_cases[OF refl n, of a b c] by blast
  have "b ! 0 = 0 \<longrightarrow> thomasAlgorithm a b c d = d"
    by (simp add: thomasAlgorithm_def pivot_eps_def)
  with first show ?thesis by blast
qed

theorem thomasAlgorithm_degenerate_returns_rhs_witness:
  "length [0, 1 :: real] = length [5, 7 :: real]
   \<and> length [1, 1 :: real] = length [5, 7 :: real]
   \<and> length [1, 0 :: real] = length [5, 7 :: real]
   \<and> [5, 7 :: real] \<noteq> []
   \<and> (\<exists>i<length [5, 7 :: real]. \<bar>pivot [0, 1] [1, 1] [1, 0] i\<bar> < pivot_eps)
   \<and> thomasAlgorithm [0, 1] [1, 1] [1, 0] [5, 7] = [5, 7]
   \<and> thomasAlgorithm [0, 1] [0, 1] [1, 0] [5, 7] = [5, 7]"
proof -
  have ex: "\<exists>i<length [5, 7 :: real]. \<bar>pivot [0, 1] [1, 1] [1, 0] i\<bar> < pivot_eps"
    by (intro exI[of _ 1]) (simp add: pivot_eps_def)
  have "thomasAlgorithm [0, 1] [1, 1] [1, 0] [5, 7] = [5, 7]"
    using thomasAlgorithm_degenerate_returns_rhs[of "[0, 1]" "[5, 7]" "[1, 1]" "[1, 0]"] ex
    by simp
  moreover have "thomasAlgorithm [0, 1] [0, 1] [1, 0] [5, 7] = [5, 7]"
    using thomasAlgorithm_degenerate_returns_rhs[of "[0, 1]" "[5, 7]" "[0, 1]" "[1, 0]"]
    by simp
  ultimately show ?thesis using ex by simp
qed

lemma thomas_completes_iff:
  assumes "length d = n" and "0 < n"
  shows "thomas_completes a b c d \<longleftrightarrow> (\<forall>i<n. \<not> \<bar>pivot a b c i\<bar> < pivot_eps)"
proof
  assume tc: "thomas_completes a b c d"
  show "\<forall>i<n. \<not> \<bar>pivot a b c i\<bar> < pivot_eps"
  proof (intro allI impI notI)
    fix i assume i: "i < n" "\<bar>pivot a b c i\<bar> < pivot_eps"
    from tc have b0: "\<not> \<bar>b ! 0\<bar> < pivot_eps" by (simp add: thomas_completes_def Let_def)
    with i have "1 \<le> i" by (cases i) auto
    with i have ex: "\<exists>k. 1 \<le> k \<and> k < n \<and> \<bar>pivot a b c k\<bar> < pivot_eps" by blast
    have "forwardSweep a b c d n 1 ((newArray n)[0 := c ! 0 / b ! 0])
            ((newArray n)[0 := d ! 0 / b ! 0]) = None"
      using assms(2) by (intro forwardSweep_degenerate[OF ex]) (simp_all add: newArray_def)
    with tc assms(1) show False by (simp add: thomas_completes_def Let_def)
  qed
next
  assume ok: "\<forall>i<n. \<not> \<bar>pivot a b c i\<bar> < pivot_eps"
  with assms(2) have b0: "\<not> \<bar>b ! 0\<bar> < pivot_eps" by (auto dest: spec[of _ 0])
  have "\<exists>cp' dp'. forwardSweep a b c d n 1 ((newArray n)[0 := c ! 0 / b ! 0])
            ((newArray n)[0 := d ! 0 / b ! 0]) = Some (cp', dp')
           \<and> length cp' = n \<and> length dp' = n
           \<and> (\<forall>k<n. cp' ! k = cprime a b c k \<and> dp' ! k = dprime a b c d k)"
    using ok assms(2) by (intro forwardSweep_complete) (auto simp: newArray_def)
  with b0 assms(1) show "thomas_completes a b c d"
    by (auto simp: thomas_completes_def Let_def)
qed

lemma thomasAlgorithm_fallback:
  assumes "\<not> thomas_completes a b c d"
  shows "thomasAlgorithm a b c d = d"
  using assms by (auto simp: thomas_completes_def thomasAlgorithm_def Let_def split: option.splits)

text \<open>Loops that assign one cell per iteration, with a value that does not depend on
  the array being filled.\<close>

lemma fold_update_length:
  "length (fold (\<lambda>i v. v[i := f i]) xs v) = length v"
  by (induction xs arbitrary: v) simp_all

lemma fold_update_nth:
  "k < length v \<Longrightarrow>
     fold (\<lambda>i v. v[i := f i]) xs v ! k = (if k \<in> set xs then f k else v ! k)"
proof (induction xs arbitrary: v)
  case Nil
  then show ?case by simp
next
  case (Cons x xs)
  then show ?case by (auto simp: nth_list_update)
qed

text \<open>The entries of a system with constant coefficients after the boundary rows
  have been written.\<close>

lemma dirichletRows_entries:
  assumes "length d = n" and "0 < n"
    and "dirichletRows n (replicate n off, replicate n dg, replicate n off', d) = (a', b', c', d')"
  shows "length a' = n" "length b' = n" "length c' = n" "length d' = n"
    and "b' ! 0 = 1" "c' ! 0 = 0" "d' ! 0 = 0"
    and "a' ! (n - 1) = 0" "b' ! (n - 1) = 1" "d' ! (n - 1) = 0"
    and "\<And>i. 0 < i \<Longrightarrow> i < n - 1 \<Longrightarrow> a' ! i = off \<and> b' ! i = dg \<and> c' ! i = off' \<and> d' ! i = d ! i"
  using assms by (auto simp: dirichletRows_def nth_list_update)

text \<open>
  Diagonal dominance: with off-diagonal entries \<open>- q\<close>, \<open>q \<ge> 0\<close>, diagonal entries at
  least \<open>1 + 2 q\<close> and identity boundary rows, every pivot is at least 1.
\<close>

lemma dominant_pivots:
  assumes "0 \<le> q" and "1 + 2 * q \<le> dg" and "0 < n"
    and "b ! 0 = 1" "c ! 0 = 0" "a ! (n - 1) = 0" "b ! (n - 1) = 1"
    and "\<And>i. 0 < i \<Longrightarrow> i < n - 1 \<Longrightarrow> a ! i = - q \<and> b ! i = dg \<and> c ! i = - q"
  shows "i < n \<Longrightarrow> 1 \<le> pivot a b c i \<and> (i < n - 1 \<longrightarrow> - 1 \<le> cprime a b c i \<and> cprime a b c i \<le> 0)"
proof (induction i)
  case 0
  then show ?case using assms(4,5) by simp
next
  case (Suc i)
  then have ih: "- 1 \<le> cprime a b c i" "cprime a b c i \<le> 0" by simp_all
  show ?case
  proof (cases "Suc i = n - 1")
    case True
    have "pivot a b c (Suc i) = b ! Suc i - a ! Suc i * cprime a b c i" by simp
    also have "\<dots> = 1" using assms(6,7) unfolding True by simp
    finally show ?thesis using True by simp
  next
    case False
    with Suc.prems have int: "0 < Suc i" "Suc i < n - 1" by simp_all
    from assms(8)[OF int] have e: "a ! Suc i = - q" "b ! Suc i = dg" "c ! Suc i = - q"
      by simp_all
    have "q * cprime a b c i \<ge> - q"
      using ih assms(1) by (metis mult.right_neutral mult_left_mono mult_minus_right)
    then have p: "1 + q \<le> dg + q * cprime a b c i" using assms(2) by linarith
    then have p1: "1 \<le> pivot a b c (Suc i)" using assms(1) by (simp add: e)
    have pv: "pivot a b c (Suc i) = dg + q * cprime a b c i" by (simp add: e)
    have pos: "0 < dg + q * cprime a b c i" using p assms(1) by linarith
    have "cprime a b c (Suc i) = - q / (dg + q * cprime a b c i)"
      by (simp add: e)
    moreover have "- q / (dg + q * cprime a b c i) \<le> 0"
      using pos assms(1) by (simp add: divide_nonpos_pos)
    moreover have "- 1 \<le> - q / (dg + q * cprime a b c i)"
    proof -
      have "q \<le> dg + q * cprime a b c i" using p by linarith
      then have "q / (dg + q * cprime a b c i) \<le> 1" using pos by (simp add: divide_le_eq)
      then show ?thesis by simp
    qed
    ultimately show ?thesis using p1 by simp
  qed
qed

section \<open>The one-dimensional steppers\<close>

lemma pivot_eps_less_one: "pivot_eps < 1"
  by (simp add: pivot_eps_def)

lemma backwardEuler_system_eq:
  "backwardEuler_system u r =
     dirichletRows (length u)
       (replicate (length u) (- r), replicate (length u) (1 + 2 * r), replicate (length u) (- r), u)"
  by (simp add: backwardEuler_system_def Let_def)

lemma crankNicolson_system_eq:
  "crankNicolson_system u r =
     dirichletRows (length u)
       (replicate (length u) (- (r / 2)), replicate (length u) (1 + r),
        replicate (length u) (- (r / 2)), cn_rhs u r)"
  by (simp add: crankNicolson_system_def cn_rhs_def Let_def)

lemma cn_rhs_length: "length (cn_rhs u r) = length u"
  by (simp add: cn_rhs_def fold_update_length newArray_def)

lemma cn_rhs_nth:
  "0 < i \<Longrightarrow> i < length u - 1 \<Longrightarrow>
     cn_rhs u r ! i = (1 - r) * u ! i + r / 2 * (u ! (i + 1) + u ! (i - 1))"
  by (simp add: cn_rhs_def fold_update_nth newArray_def)

lemma implicit_system_dominant:
  assumes "0 \<le> q" and "1 + 2 * q \<le> dg" and "length d = n" and "0 < n"
    and "dirichletRows n (replicate n (- q), replicate n dg, replicate n (- q), d) = (a', b', c', d')"
  shows "(\<forall>i<n. 1 \<le> \<bar>pivot a' b' c' i\<bar>) \<and> thomas_completes a' b' c' d'"
proof -
  note e = dirichletRows_entries[OF assms(3,4,5)]
  have piv: "1 \<le> pivot a' b' c' i" if "i < n" for i
  proof -
    have "1 \<le> pivot a' b' c' i
          \<and> (i < n - 1 \<longrightarrow> - 1 \<le> cprime a' b' c' i \<and> cprime a' b' c' i \<le> 0)"
      using e(11) by (intro dominant_pivots[OF assms(1,2,4) e(5,6,8,9) _ that]) blast
    then show ?thesis by simp
  qed
  then have all: "\<forall>i<n. 1 \<le> \<bar>pivot a' b' c' i\<bar>" by fastforce
  then have "\<forall>i<n. \<not> \<bar>pivot a' b' c' i\<bar> < pivot_eps"
    using pivot_eps_less_one by fastforce
  then have "thomas_completes a' b' c' d'"
    using thomas_completes_iff[OF e(4) assms(4)] by blast
  with all show ?thesis by blast
qed

text \<open>
  C9. For a diffusion number \<open>r \<ge> 0\<close> and a non-empty field, the systems that the
  one-dimensional implicit steppers assemble (backward Euler: \<open>a = c = - r\<close>,
  \<open>b = 1 + 2 r\<close>; Crank-Nicolson: \<open>a = c = - r / 2\<close>, \<open>b = 1 + r\<close>; identity boundary rows
  with \<open>b = 1\<close>) have \<open>|b\<^sub>0|\<close> and every effective pivot at least 1, so neither early return
  of the solver is taken and the solve runs to completion.
\<close>

theorem implicit_1d_pivots_at_least_one:
  assumes "0 \<le> r" and "u \<noteq> []"
  shows "(case backwardEuler_system u r of (a, b, c, d) \<Rightarrow>
            (\<forall>i. 0 < i \<and> i < length u - 1 \<longrightarrow> a ! i = - r \<and> b ! i = 1 + 2 * r \<and> c ! i = - r)
            \<and> b ! 0 = 1 \<and> b ! (length u - 1) = 1
            \<and> (\<forall>i<length u. 1 \<le> \<bar>pivot a b c i\<bar>)
            \<and> thomas_completes a b c d)
       \<and> (case crankNicolson_system u r of (a, b, c, d) \<Rightarrow>
            (\<forall>i. 0 < i \<and> i < length u - 1 \<longrightarrow> a ! i = - (r / 2) \<and> b ! i = 1 + r \<and> c ! i = - (r / 2))
            \<and> b ! 0 = 1 \<and> b ! (length u - 1) = 1
            \<and> (\<forall>i<length u. 1 \<le> \<bar>pivot a b c i\<bar>)
            \<and> thomas_completes a b c d)"
proof -
  have n: "0 < length u" using assms(2) by simp
  obtain a b c d where be: "backwardEuler_system u r = (a, b, c, d)"
    by (cases "backwardEuler_system u r") auto
  then have bed: "dirichletRows (length u)
       (replicate (length u) (- r), replicate (length u) (1 + 2 * r), replicate (length u) (- r), u)
       = (a, b, c, d)"
    by (simp add: backwardEuler_system_eq)
  note e1 = dirichletRows_entries[OF refl n bed]
  have p1: "(\<forall>i<length u. 1 \<le> \<bar>pivot a b c i\<bar>) \<and> thomas_completes a b c d"
    using assms(1) by (intro implicit_system_dominant[OF _ _ refl n bed]) simp_all
  obtain a2 b2 c2 d2 where cn: "crankNicolson_system u r = (a2, b2, c2, d2)"
    by (cases "crankNicolson_system u r") auto
  then have cnd: "dirichletRows (length u)
       (replicate (length u) (- (r / 2)), replicate (length u) (1 + r),
        replicate (length u) (- (r / 2)), cn_rhs u r) = (a2, b2, c2, d2)"
    by (simp add: crankNicolson_system_eq)
  note e2 = dirichletRows_entries[OF cn_rhs_length n cnd]
  have p2: "(\<forall>i<length u. 1 \<le> \<bar>pivot a2 b2 c2 i\<bar>) \<and> thomas_completes a2 b2 c2 d2"
    using assms(1) by (intro implicit_system_dominant[OF _ _ cn_rhs_length n cnd]) simp_all
  show ?thesis
    unfolding be cn using e1(5,9,11) e2(5,9,11) p1 p2 by simp
qed

theorem implicit_1d_pivots_at_least_one_witness:
  "(0 :: real) \<le> 2 \<and> [0, 1, 3, 0 :: real] \<noteq> []
   \<and> (case backwardEuler_system [0, 1, 3, 0] 2 of (a, b, c, d) \<Rightarrow>
         (\<forall>i<4. 1 \<le> \<bar>pivot a b c i\<bar>) \<and> thomas_completes a b c d)
   \<and> (case crankNicolson_system [0, 1, 3, 0] 2 of (a, b, c, d) \<Rightarrow>
         (\<forall>i<4. 1 \<le> \<bar>pivot a b c i\<bar>) \<and> thomas_completes a b c d)"
  using implicit_1d_pivots_at_least_one[of 2 "[0, 1, 3, 0]"]
  by (auto split: prod.splits)

lemma forwardEuler_boundary:
  assumes "u \<noteq> []"
  shows "length (forwardEuler u r) = length u \<and> forwardEuler u r ! 0 = 0
         \<and> forwardEuler u r ! (length u - 1) = 0"
  using assms
  by (auto simp: forwardEuler_def Let_def fold_update_length fold_update_nth newArray_def
        nth_list_update)

lemma dirichlet_solve_boundary:
  assumes "length d = n" and "0 < n"
    and "dirichletRows n (replicate n off, replicate n dg, replicate n off', d) = (a', b', c', d')"
  shows "length (thomasAlgorithm a' b' c' d') = n \<and> thomasAlgorithm a' b' c' d' ! 0 = 0
         \<and> thomasAlgorithm a' b' c' d' ! (n - 1) = 0"
proof -
  note e = dirichletRows_entries[OF assms]
  have "d' \<noteq> []" using e(4) assms(2) by auto
  then have "length (thomasAlgorithm a' b' c' d') = n"
    using e(4) by (simp add: thomasAlgorithm_length)
  moreover have "thomasAlgorithm a' b' c' d' ! 0 = 0 \<and> thomasAlgorithm a' b' c' d' ! (n - 1) = 0"
    using assms by (intro thomasAlgorithm_boundary[of "replicate n off" n "replicate n dg" "replicate n off'" d]) simp_all
  ultimately show ?thesis by simp
qed



text \<open>
  C2, as the code has it. When the solver meets a degenerate pivot during a
  one-dimensional implicit step, the step returns the right-hand side it assembled:
  for backward Euler the prior field with its two boundary entries set to 0 (the prior
  field itself when they were 0), for Crank-Nicolson the explicit half
  \<open>(1 - r) u\<^sub>i + (r / 2) (u\<^sub>i\<^sub>+\<^sub>1 + u\<^sub>i\<^sub>-\<^sub>1)\<close> with zero boundary entries.
\<close>

theorem implicit_1d_fallback_returns_rhs:
  assumes "u \<noteq> []"
  shows "(\<not> (case backwardEuler_system u r of (a, b, c, d) \<Rightarrow> thomas_completes a b c d) \<longrightarrow>
            backwardEuler u r = u[0 := 0, length u - 1 := 0]
            \<and> (u ! 0 = 0 \<and> u ! (length u - 1) = 0 \<longrightarrow> backwardEuler u r = u))
       \<and> (\<not> (case crankNicolson_system u r of (a, b, c, d) \<Rightarrow> thomas_completes a b c d) \<longrightarrow>
            crankNicolson u r =
              map (\<lambda>i. if i = 0 \<or> i = length u - 1 then 0
                        else (1 - r) * u ! i + r / 2 * (u ! (i + 1) + u ! (i - 1)))
                [0..<length u])"
proof -
  have n: "0 < length u" using assms by simp
  obtain a b c d where be: "backwardEuler_system u r = (a, b, c, d)"
    by (cases "backwardEuler_system u r") auto
  then have d: "d = u[0 := 0, length u - 1 := 0]"
    by (simp add: backwardEuler_system_eq dirichletRows_def)
  have part1: "backwardEuler u r = u[0 := 0, length u - 1 := 0]
               \<and> (u ! 0 = 0 \<and> u ! (length u - 1) = 0 \<longrightarrow> backwardEuler u r = u)"
    if "\<not> thomas_completes a b c d"
  proof -
    have "backwardEuler u r = d"
      using thomasAlgorithm_fallback[OF that] by (simp add: backwardEuler_def be)
    moreover have "u[0 := 0, length u - 1 := 0] = u" if "u ! 0 = 0" "u ! (length u - 1) = 0"
      using that by (metis list_update_id)
    ultimately show ?thesis unfolding d by simp
  qed
  obtain a2 b2 c2 d2 where cn: "crankNicolson_system u r = (a2, b2, c2, d2)"
    by (cases "crankNicolson_system u r") auto
  then have cnd: "dirichletRows (length u)
       (replicate (length u) (- (r / 2)), replicate (length u) (1 + r),
        replicate (length u) (- (r / 2)), cn_rhs u r) = (a2, b2, c2, d2)"
    by (simp add: crankNicolson_system_eq)
  note e2 = dirichletRows_entries[OF cn_rhs_length n cnd]
  have d2: "d2 = map (\<lambda>i. if i = 0 \<or> i = length u - 1 then 0
                        else (1 - r) * u ! i + r / 2 * (u ! (i + 1) + u ! (i - 1)))
                [0..<length u]"
  proof (rule nth_equalityI)
    show "length d2 = length (map (\<lambda>i. if i = 0 \<or> i = length u - 1 then 0
                        else (1 - r) * u ! i + r / 2 * (u ! (i + 1) + u ! (i - 1)))
                [0..<length u])"
      using e2(4) by simp
  next
    fix i assume "i < length d2"
    then have i: "i < length u" using e2(4) by simp
    consider "i = 0" | "i = length u - 1" | "0 < i" "i < length u - 1"
      using i by linarith
    then show "d2 ! i = map (\<lambda>i. if i = 0 \<or> i = length u - 1 then 0
                        else (1 - r) * u ! i + r / 2 * (u ! (i + 1) + u ! (i - 1)))
                [0..<length u] ! i"
    proof cases
      case 1
      then show ?thesis using e2(7) i by simp
    next
      case 2
      then show ?thesis using e2(10) i by simp
    next
      case 3
      then show ?thesis using e2(11)[OF 3] i by (simp add: cn_rhs_nth)
    qed
  qed
  have part2: "crankNicolson u r = d2" if "\<not> thomas_completes a2 b2 c2 d2"
    using thomasAlgorithm_fallback[OF that] by (simp add: crankNicolson_def cn)
  have "\<not> thomas_completes a b c d \<longrightarrow>
            backwardEuler u r = u[0 := 0, length u - 1 := 0]
            \<and> (u ! 0 = 0 \<and> u ! (length u - 1) = 0 \<longrightarrow> backwardEuler u r = u)"
    using part1 by blast
  moreover have "\<not> thomas_completes a2 b2 c2 d2 \<longrightarrow> crankNicolson u r = d2"
    using part2 by blast
  ultimately show ?thesis
    unfolding be cn prod.case d2[symmetric] by (rule conjI)
qed

lemma bad_cn_system:
  "crankNicolson_system [0, 1, 0] (- 1) = ([1/2, 1/2, 0], [1, 0, 1], [0, 1/2, 1/2], [0, 2, 0])"
  by (simp add: crankNicolson_system_def dirichletRows_def newArray_def Let_def)

lemma bad_cn_fails: "\<not> thomas_completes [1/2, 1/2, 0] [1, 0, 1] [0, 1/2, 1/2] [0, 2, 0 :: real]"
  by (simp add: thomas_completes_def Let_def newArray_def forwardSweep.simps pivot_eps_def)

lemma bad_be_system:
  "backwardEuler_system [0, 1, 0] (- (1 / 2)) = ([1/2, 1/2, 0], [1, 0, 1], [0, 1/2, 1/2], [0, 1, 0])"
  by (simp add: backwardEuler_system_def dirichletRows_def Let_def)

theorem implicit_1d_fallback_returns_rhs_witness:
  "[0, 1, 0 :: real] \<noteq> []
   \<and> \<not> (case backwardEuler_system [0, 1, 0] (- (1 / 2)) of (a, b, c, d) \<Rightarrow> thomas_completes a b c d)
   \<and> [0, 1, 0 :: real] ! 0 = 0 \<and> [0, 1, 0 :: real] ! (length [0, 1, 0 :: real] - 1) = 0
   \<and> backwardEuler [0, 1, 0] (- (1 / 2)) = [0, 1, 0]
   \<and> \<not> (case crankNicolson_system [0, 1, 0] (- 1) of (a, b, c, d) \<Rightarrow> thomas_completes a b c d)
   \<and> crankNicolson [0, 1, 0] (- 1) = [0, 2, 0]"
proof -
  have f1: "\<not> (case backwardEuler_system [0, 1, 0] (- (1 / 2)) of (a, b, c, d) \<Rightarrow> thomas_completes a b c d)"
    unfolding bad_be_system
    by (simp add: thomas_completes_def Let_def newArray_def forwardSweep.simps pivot_eps_def)
  have f2: "\<not> (case crankNicolson_system [0, 1, 0] (- 1) of (a, b, c, d) \<Rightarrow> thomas_completes a b c d)"
    unfolding bad_cn_system using bad_cn_fails by simp
  have "backwardEuler [0, 1, 0] (- (1 / 2)) = [0, 1, 0]"
    using implicit_1d_fallback_returns_rhs[of "[0, 1, 0]" "- (1 / 2)"] f1 by simp
  moreover have "crankNicolson [0, 1, 0] (- 1) = [0, 2, 0]"
    using implicit_1d_fallback_returns_rhs[of "[0, 1, 0]" "- 1"] f2 by (simp add: upt_rec)
  ultimately show ?thesis using f1 f2 by simp
qed

text \<open>
  C2 as stated fails for Crank-Nicolson: on the field \<open>[0, 1, 0]\<close> with \<open>r = - 1\<close> the
  pivot of row 1 is \<open>0\<close>, the solver returns early, and the step returns \<open>[0, 2, 0]\<close>,
  not the prior field.
\<close>

theorem crankNicolson_fallback_counterexample:
  "\<not> (case crankNicolson_system [0, 1, 0] (- 1) of (a, b, c, d) \<Rightarrow> thomas_completes a b c d)
   \<and> crankNicolson [0, 1, 0] (- 1) = [0, 2, 0]
   \<and> crankNicolson [0, 1, 0] (- 1) \<noteq> [0, 1, 0]"
proof -
  have f2: "\<not> thomas_completes [1/2, 1/2, 0] [1, 0, 1] [0, 1/2, 1/2] [0, 2, 0 :: real]"
    by (rule bad_cn_fails)
  have "crankNicolson [0, 1, 0] (- 1) = [0, 2, 0]"
    using thomasAlgorithm_fallback[OF f2] by (simp add: crankNicolson_def bad_cn_system)
  then show ?thesis using f2 by (simp add: bad_cn_system)
qed

section \<open>Reset and configuration\<close>

lemma analytical_at_zero: "getAnalyticalSolution cfg x 0 = getSineIC cfg x"
  by (simp add: getAnalyticalSolution_def getSineIC_def Let_def)

lemma analytical2D_at_zero: "getAnalyticalSolution2D cfg x y 0 = getSineIC2D x y"
  by (simp add: getAnalyticalSolution2D_def getSineIC2D_def Let_def)

text \<open>
  C6. Immediately after a reset with valid parameters the numerical field, the analytical
  field and the initial condition on the grid are equal, in the one-dimensional
  application, the two-dimensional application (\<open>initSimulation\<close> and \<open>reset\<close>) and the
  unified application; the analytical solution at \<open>t = 0\<close> is the initial condition
  because its decay factor is \<open>exp 0 = 1\<close>.
\<close>

theorem reset_fields_equal:
  assumes "valid_config cfg"
  shows "st_u (reset cfg s) = st_uExact (reset cfg s)
       \<and> st_u (reset cfg s) =
           map (\<lambda>i. sin (3 * pi * (real i * (cfg_L cfg / (of_int (cfg_Nx cfg) - 1))) / cfg_L cfg))
             [0..<nat (cfg_Nx cfg)]
       \<and> st_t (reset cfg s) = 0
       \<and> st2_u (initSimulation_2d cfg) = st2_uExact (initSimulation_2d cfg)
       \<and> st2_u (initSimulation_2d cfg) =
           map (\<lambda>i. map (\<lambda>j.
                  sin (2 * pi * (real i * (cfg_L cfg / (of_int (cfg_Nx cfg) - 1))))
                  * sin (pi * (real j * (cfg_L cfg / (of_int (cfg_Nx cfg) - 1)))))
                [0..<nat (cfg_Nx cfg)]) [0..<nat (cfg_Nx cfg)]
       \<and> st2_u (reset_2d cfg s2) = st2_uExact (reset_2d cfg s2)
       \<and> st2_u (reset_2d cfg s2) = getSineIC2D (st2_x s2) (st2_y s2)
       \<and> st2_u (initSimulation2D cfg) = st2_uExact (initSimulation2D cfg)
       \<and> st2_u (initSimulation2D cfg) = st2_u (initSimulation_2d cfg)
       \<and> exp (- cfg_alpha cfg * (3 * pi) ^ 2 * 0 / (cfg_L cfg * cfg_L cfg)) = 1"
  by (simp add: reset_def initSimulation_def initSimulation_2d_def reset_2d_def
      initSimulation2D_def analytical_at_zero analytical2D_at_zero Let_def
      getSineIC_def getSineIC2D_def)

theorem reset_fields_equal_witness:
  "valid_config default_config
   \<and> st_u (reset default_config (initSimulation invalid_config)) = st_uExact (reset default_config (initSimulation invalid_config))
   \<and> st2_u (initSimulation_2d default_config) = st2_uExact (initSimulation_2d default_config)
   \<and> st2_u (initSimulation2D default_config) = st2_uExact (initSimulation2D default_config)"
proof -
  have v: "valid_config default_config"
    by (simp add: valid_config_def default_config_def)
  from reset_fields_equal[OF v] show ?thesis using v by simp
qed

section \<open>Loops over the cells of a grid\<close>

lemma set2_length [simp]: "length (set2 g i j v) = length g"
  by (simp add: set2_def)

lemma set2_row_length [simp]: "length (set2 g i j v ! k) = length (g ! k)"
proof (cases "k = i")
  case True
  then show ?thesis
    by (cases "i < length g") (simp_all add: set2_def list_update_beyond)
next
  case False
  then show ?thesis by (simp add: set2_def)
qed

lemma set2_nth:
  "i' < length g \<Longrightarrow> j' < length (g ! i') \<Longrightarrow>
     set2 g i j v ! i' ! j' = (if i' = i \<and> j' = j then v else g ! i' ! j')"
  by (cases "i' = i") (auto simp: set2_def nth_list_update)

text \<open>
  A loop that assigns the cells of a list, each with a value that depends on the cell
  only, leaves the shape of the grid and puts the value in each listed cell.
\<close>

lemma fold_cells_shape:
  "length (fold (\<lambda>p g. set2 g (fst p) (snd p) (f p)) cells g) = length g
   \<and> length (fold (\<lambda>p g. set2 g (fst p) (snd p) (f p)) cells g ! k) = length (g ! k)"
  by (induction cells arbitrary: g) simp_all

lemma fold_cells_nth:
  "i < length g \<Longrightarrow> j < length (g ! i) \<Longrightarrow>
     fold (\<lambda>p g. set2 g (fst p) (snd p) (f p)) cells g ! i ! j
       = (if (i, j) \<in> set cells then f (i, j) else g ! i ! j)"
proof (induction cells arbitrary: g)
  case Nil
  then show ?case by simp
next
  case (Cons p cells)
  have "fold (\<lambda>p g. set2 g (fst p) (snd p) (f p)) (p # cells) g ! i ! j
        = fold (\<lambda>p g. set2 g (fst p) (snd p) (f p)) cells (set2 g (fst p) (snd p) (f p)) ! i ! j"
    by simp
  also have "\<dots> = (if (i, j) \<in> set cells then f (i, j)
                     else set2 g (fst p) (snd p) (f p) ! i ! j)"
    using Cons.prems by (intro Cons.IH) simp_all
  also have "\<dots> = (if (i, j) \<in> set (p # cells) then f (i, j) else g ! i ! j)"
    using Cons.prems by (cases p) (auto simp: set2_nth)
  finally show ?case .
qed

text \<open>Two nested loops visit the product of their index lists.\<close>

lemma fold_nested_product:
  "fold (\<lambda>i acc. fold (\<lambda>j acc. h i j acc) js acc) is acc
     = fold (\<lambda>p acc. h (fst p) (snd p) acc) (List.product is js) acc"
proof (induction "is" arbitrary: acc)
  case Nil
  then show ?case by simp
next
  case (Cons i "is")
  have "fold (\<lambda>j acc. h i j acc) js acc
        = fold (\<lambda>p acc. h (fst p) (snd p) acc) (map (Pair i) js) acc" for acc
    by (induction js arbitrary: acc) simp_all
  then show ?case using Cons by simp
qed

lemma writeCells_nth:
  assumes "i < length g" and "j < length (g ! i)"
  shows "fold (\<lambda>i g. fold (\<lambda>j g. set2 g i j (f i j)) js g) is g ! i ! j
           = (if i \<in> set is \<and> j \<in> set js then f i j else g ! i ! j)"
proof -
  have "fold (\<lambda>i g. fold (\<lambda>j g. set2 g i j (f i j)) js g) is g
        = fold (\<lambda>p g. set2 g (fst p) (snd p) (case p of (i, j) \<Rightarrow> f i j)) (List.product is js) g"
    by (simp add: fold_nested_product[of "\<lambda>i j g. set2 g i j (f i j)"] case_prod_beta)
  then show ?thesis
    using fold_cells_nth[OF assms, of "\<lambda>p. case p of (i, j) \<Rightarrow> f i j" "List.product is js"]
    by simp
qed

lemma writeCells_shape:
  "length (fold (\<lambda>i g. fold (\<lambda>j g. set2 g i j (f i j)) js g) is g) = length g
   \<and> length (fold (\<lambda>i g. fold (\<lambda>j g. set2 g i j (f i j)) js g) is g ! k) = length (g ! k)"
proof -
  have "fold (\<lambda>i g. fold (\<lambda>j g. set2 g i j (f i j)) js g) is g
        = fold (\<lambda>p g. set2 g (fst p) (snd p) (case p of (i, j) \<Rightarrow> f i j)) (List.product is js) g"
    by (simp add: fold_nested_product[of "\<lambda>i j g. set2 g i j (f i j)"] case_prod_beta)
  then show ?thesis
    using fold_cells_shape[of "\<lambda>p. case p of (i, j) \<Rightarrow> f i j" "List.product is js" g k]
    by simp
qed

text \<open>The same for a loop over columns with the rows inside.\<close>

lemma writeColumns_nth:
  assumes "i < length g" and "j < length (g ! i)"
  shows "fold (\<lambda>j g. fold (\<lambda>i g. set2 g i j (f i j)) is g) js g ! i ! j
           = (if i \<in> set is \<and> j \<in> set js then f i j else g ! i ! j)"
proof -
  have "fold (\<lambda>j g. fold (\<lambda>i g. set2 g i j (f i j)) is g) js g
        = fold (\<lambda>p g. set2 g (fst p) (snd p) (case p of (i, j) \<Rightarrow> f i j))
            (map (\<lambda>(j, i). (i, j)) (List.product js is)) g"
    by (simp add: fold_nested_product[of "\<lambda>j i g. set2 g i j (f i j)"] fold_map comp_def
        case_prod_beta)
  then show ?thesis
    using fold_cells_nth[OF assms, of "\<lambda>p. case p of (i, j) \<Rightarrow> f i j"
        "map (\<lambda>(j, i). (i, j)) (List.product js is)"]
    by (auto simp: image_iff)
qed

lemma writeColumns_shape:
  "length (fold (\<lambda>j g. fold (\<lambda>i g. set2 g i j (f i j)) is g) js g) = length g
   \<and> length (fold (\<lambda>j g. fold (\<lambda>i g. set2 g i j (f i j)) is g) js g ! k) = length (g ! k)"
proof -
  have "fold (\<lambda>j g. fold (\<lambda>i g. set2 g i j (f i j)) is g) js g
        = fold (\<lambda>p g. set2 g (fst p) (snd p) (case p of (i, j) \<Rightarrow> f i j))
            (map (\<lambda>(j, i). (i, j)) (List.product js is)) g"
    by (simp add: fold_nested_product[of "\<lambda>j i g. set2 g i j (f i j)"] fold_map comp_def
        case_prod_beta)
  then show ?thesis
    using fold_cells_shape[of "\<lambda>p. case p of (i, j) \<Rightarrow> f i j"
        "map (\<lambda>(j, i). (i, j)) (List.product js is)" g k]
    by simp
qed

lemma zeros_shape [simp]:
  "length (zeros Nx Ny) = Nx" "i < Nx \<Longrightarrow> length (zeros Nx Ny ! i) = Ny"
  "i < Nx \<Longrightarrow> j < Ny \<Longrightarrow> zeros Nx Ny ! i ! j = 0"
  by (simp_all add: zeros_def)

section \<open>The sweeps of the two-dimensional steppers\<close>

lemma solveLine_boundary:
  assumes "length d = n" and "0 < n"
  shows "length (solveLine n off dg d) = n" "solveLine n off dg d ! 0 = 0"
    "solveLine n off dg d ! (n - 1) = 0"
proof -
  obtain a' b' c' d' where
    e: "dirichletRows n (replicate n off, replicate n dg, replicate n off, d) = (a', b', c', d')"
    by (cases "dirichletRows n (replicate n off, replicate n dg, replicate n off, d)") auto
  from dirichlet_solve_boundary[OF assms e]
  show "length (solveLine n off dg d) = n" "solveLine n off dg d ! 0 = 0"
    "solveLine n off dg d ! (n - 1) = 0"
    by (simp_all add: solveLine_def e)
qed

lemma solveLine_zero:
  assumes "length d = n" and "\<And>k. 0 < k \<Longrightarrow> k < n - 1 \<Longrightarrow> d ! k = 0" and "i < n"
  shows "solveLine n off dg d ! i = 0"
proof -
  have n: "0 < n" using assms(3) by simp
  obtain a' b' c' d' where
    e: "dirichletRows n (replicate n off, replicate n dg, replicate n off, d) = (a', b', c', d')"
    by (cases "dirichletRows n (replicate n off, replicate n dg, replicate n off, d)") auto
  note en = dirichletRows_entries[OF assms(1) n e]
  have z: "\<forall>k<n. d' ! k = 0"
  proof (intro allI impI)
    fix k assume k: "k < n"
    consider "k = 0" | "k = n - 1" | "0 < k" "k < n - 1" using k by linarith
    then show "d' ! k = 0"
    proof cases
      case 1 then show ?thesis using en(7) by simp
    next
      case 2 then show ?thesis using en(10) by simp
    next
      case 3 then show ?thesis using en(11)[OF 3] assms(2)[OF 3] by simp
    qed
  qed
  from thomasAlgorithm_zero_rhs[OF en(4) n z assms(3)] show ?thesis
    by (simp add: solveLine_def e)
qed

text \<open>The sweeps in terms of \<open>solveLine\<close>.\<close>

lemma backwardEulerADI_step1_eq:
  "backwardEulerADI_step1 Nx Ny u rx =
     fold (\<lambda>j g. fold (\<lambda>i g. set2 g i j
         (solveLine Nx (- rx) (1 + 2 * rx)
            (fold (\<lambda>i d. d[i := u ! i ! j]) [0..<Nx] (newArray Nx)) ! i)) [0..<Nx] g)
       [1..<Ny - 1] (zeros Nx Ny)"
  by (simp add: backwardEulerADI_step1_def solveLine_def dirichletRows_def Let_def)

lemma backwardEulerADI_step2_eq:
  "backwardEulerADI_step2 Nx Ny uStar ry =
     fold (\<lambda>i g. fold (\<lambda>j g. set2 g i j
         (solveLine Ny (- ry) (1 + 2 * ry)
            (fold (\<lambda>j d. d[j := uStar ! i ! j]) [0..<Ny] (newArray Ny)) ! j)) [0..<Ny] g)
       [1..<Nx - 1] (zeros Nx Ny)"
  by (simp add: backwardEulerADI_step2_def solveLine_def dirichletRows_def Let_def)

lemma crankNicolsonADI_step1_eq:
  "crankNicolsonADI_step1 Nx Ny u rx ry =
     fold (\<lambda>j g. fold (\<lambda>i g. set2 g i j
         (solveLine Nx (- (rx / 2)) (1 + rx)
            (fold (\<lambda>i d. d[i := u ! i ! j
                     + ry / 2 * (u ! i ! (j + 1) - 2 * u ! i ! j + u ! i ! (j - 1))])
               [1..<Nx - 1] (newArray Nx)) ! i)) [0..<Nx] g)
       [1..<Ny - 1] (zeros Nx Ny)"
  by (simp add: crankNicolsonADI_step1_def solveLine_def dirichletRows_def Let_def)

lemma crankNicolsonADI_step2_eq:
  "crankNicolsonADI_step2 Nx Ny uStar rx ry =
     fold (\<lambda>i g. fold (\<lambda>j g. set2 g i j
         (solveLine Ny (- (ry / 2)) (1 + ry)
            (fold (\<lambda>j d. d[j := uStar ! i ! j
                     + rx / 2 * (uStar ! (i + 1) ! j - 2 * uStar ! i ! j + uStar ! (i - 1) ! j)])
               [1..<Ny - 1] (newArray Ny)) ! j)) [0..<Ny] g)
       [1..<Nx - 1] (zeros Nx Ny)"
  by (simp add: crankNicolsonADI_step2_def solveLine_def dirichletRows_def Let_def)

lemma backwardEuler2D_ADI_xsweep_eq:
  "backwardEuler2D_ADI_xsweep Nx Ny u rx =
     fold (\<lambda>j g. fold (\<lambda>i g. set2 g i j
         (solveLine Nx (- rx) (1 + 2 * rx)
            (fold (\<lambda>i d. d[i := u ! i ! j]) [1..<Nx - 1] (newArray Nx)) ! i)) [0..<Nx] g)
       [0..<Ny] (zeros Nx Ny)"
  by (simp add: backwardEuler2D_ADI_xsweep_def solveLine_def dirichletRows_def Let_def)

lemma backwardEuler2D_ADI_ysweep_eq:
  "backwardEuler2D_ADI_ysweep Nx Ny uHalf ry =
     fold (\<lambda>i g. fold (\<lambda>j g. set2 g i j
         (solveLine Ny (- ry) (1 + 2 * ry)
            (fold (\<lambda>j d. d[j := uHalf ! i ! j]) [1..<Ny - 1] (newArray Ny)) ! j)) [0..<Ny] g)
       [0..<Nx] (zeros Nx Ny)"
  by (simp add: backwardEuler2D_ADI_ysweep_def solveLine_def dirichletRows_def Let_def)

lemma crankNicolson2D_ADI_xsweep_eq:
  "crankNicolson2D_ADI_xsweep Nx Ny u rx =
     fold (\<lambda>j g. fold (\<lambda>i g. set2 g i j
         (solveLine Nx (- (rx / 2)) (1 + rx)
            (fold (\<lambda>i d. d[i := (1 - rx) * u ! i ! j
                     + rx / 2 * (u ! (i + 1) ! j + u ! (i - 1) ! j)])
               [1..<Nx - 1] (newArray Nx)) ! i)) [0..<Nx] g)
       [0..<Ny] (zeros Nx Ny)"
  by (simp add: crankNicolson2D_ADI_xsweep_def solveLine_def dirichletRows_def Let_def)

lemma crankNicolson2D_ADI_ysweep_eq:
  "crankNicolson2D_ADI_ysweep Nx Ny uHalf ry =
     fold (\<lambda>i g. fold (\<lambda>j g. set2 g i j
         (solveLine Ny (- (ry / 2)) (1 + ry)
            (fold (\<lambda>j d. d[j := (1 - ry) * uHalf ! i ! j
                     + ry / 2 * (uHalf ! i ! (j + 1) + uHalf ! i ! (j - 1))])
               [1..<Ny - 1] (newArray Ny)) ! j)) [0..<Ny] g)
       [0..<Nx] (zeros Nx Ny)"
  by (simp add: crankNicolson2D_ADI_ysweep_def solveLine_def dirichletRows_def Let_def)

lemma rowSweep_nth:
  assumes "i < Nx" and "j < Ny"
  shows "fold (\<lambda>i g. fold (\<lambda>j g. set2 g i j (F i ! j)) [0..<Ny] g) is (zeros Nx Ny) ! i ! j
           = (if i \<in> set is then F i ! j else 0)"
  using writeCells_nth[of i "zeros Nx Ny" j "\<lambda>i j. F i ! j" "[0..<Ny]" "is"] assms
  by simp

lemma colSweep_nth:
  assumes "i < Nx" and "j < Ny"
  shows "fold (\<lambda>j g. fold (\<lambda>i g. set2 g i j (F j ! i)) [0..<Nx] g) js (zeros Nx Ny) ! i ! j
           = (if j \<in> set js then F j ! i else 0)"
  using writeColumns_nth[of i "zeros Nx Ny" j "\<lambda>i j. F j ! i" "[0..<Nx]" js] assms
  by simp

lemma rowSweep_shape:
  "length (fold (\<lambda>i g. fold (\<lambda>j g. set2 g i j (F i ! j)) [0..<Ny] g) is (zeros Nx Ny)) = Nx"
  "i < Nx \<Longrightarrow>
     length (fold (\<lambda>i g. fold (\<lambda>j g. set2 g i j (F i ! j)) [0..<Ny] g) is (zeros Nx Ny) ! i) = Ny"
  using writeCells_shape[of "\<lambda>i j. F i ! j" "[0..<Ny]" "is" "zeros Nx Ny" i]
  by simp_all

lemma colSweep_shape:
  "length (fold (\<lambda>j g. fold (\<lambda>i g. set2 g i j (F j ! i)) [0..<Nx] g) js (zeros Nx Ny)) = Nx"
  "i < Nx \<Longrightarrow>
     length (fold (\<lambda>j g. fold (\<lambda>i g. set2 g i j (F j ! i)) [0..<Nx] g) js (zeros Nx Ny) ! i) = Ny"
  using writeColumns_shape[of "\<lambda>i j. F j ! i" "[0..<Nx]" js "zeros Nx Ny" i]
  by simp_all

text \<open>A grid of \<open>Nx\<close> rows of length \<open>Ny\<close> has a zero border when its cells on the four
  edges are zero.\<close>

lemma border_zeroI:
  assumes "length g = Nx" and "\<And>i. i < Nx \<Longrightarrow> length (g ! i) = Ny"
    and "\<And>i j. i < Nx \<Longrightarrow> j < Ny \<Longrightarrow> i = 0 \<or> i = Nx - 1 \<or> j = 0 \<or> j = Ny - 1 \<Longrightarrow> g ! i ! j = 0"
  shows "border_zero g"
  unfolding border_zero_def using assms by auto

text \<open>
  A sweep along \<open>y\<close> over the interior rows leaves a zero border: the rows \<open>0\<close> and
  \<open>Nx - 1\<close> are not written, and each solved line starts and ends with zero.
\<close>

lemma interior_rowSweep_border:
  assumes "\<And>i. length (D i) = Ny"
  shows "border_zero
     (fold (\<lambda>i g. fold (\<lambda>j g. set2 g i j (solveLine Ny off dg (D i) ! j)) [0..<Ny] g)
        [1..<Nx - 1] (zeros Nx Ny))"
proof (rule border_zeroI[where Nx = Nx and Ny = Ny])
  show "length (fold (\<lambda>i g. fold (\<lambda>j g. set2 g i j (solveLine Ny off dg (D i) ! j)) [0..<Ny] g)
        [1..<Nx - 1] (zeros Nx Ny)) = Nx"
    by (rule rowSweep_shape)
next
  fix i assume "i < Nx"
  then show "length (fold (\<lambda>i g. fold (\<lambda>j g. set2 g i j (solveLine Ny off dg (D i) ! j)) [0..<Ny] g)
        [1..<Nx - 1] (zeros Nx Ny) ! i) = Ny"
    by (rule rowSweep_shape)
next
  fix i j assume i: "i < Nx" and j: "j < Ny"
    and edge: "i = 0 \<or> i = Nx - 1 \<or> j = 0 \<or> j = Ny - 1"
  have Ny: "0 < Ny" using j by simp
  have v: "fold (\<lambda>i g. fold (\<lambda>j g. set2 g i j (solveLine Ny off dg (D i) ! j)) [0..<Ny] g)
        [1..<Nx - 1] (zeros Nx Ny) ! i ! j
        = (if i \<in> set [1..<Nx - 1] then solveLine Ny off dg (D i) ! j else 0)"
    by (rule rowSweep_nth[OF i j])
  from edge show "fold (\<lambda>i g. fold (\<lambda>j g. set2 g i j (solveLine Ny off dg (D i) ! j)) [0..<Ny] g)
        [1..<Nx - 1] (zeros Nx Ny) ! i ! j = 0"
    unfolding v
    using solveLine_boundary(2,3)[OF assms Ny] by auto
qed

text \<open>
  A sweep along \<open>y\<close> over all rows leaves a zero border when the right-hand sides of the
  rows \<open>0\<close> and \<open>Nx - 1\<close> are zero.
\<close>

lemma full_rowSweep_border:
  assumes "\<And>i. length (D i) = Ny"
    and "\<And>k. 0 < k \<Longrightarrow> k < Ny - 1 \<Longrightarrow> D 0 ! k = 0 \<and> D (Nx - 1) ! k = 0"
  shows "border_zero
     (fold (\<lambda>i g. fold (\<lambda>j g. set2 g i j (solveLine Ny off dg (D i) ! j)) [0..<Ny] g)
        [0..<Nx] (zeros Nx Ny))"
proof (rule border_zeroI[where Nx = Nx and Ny = Ny])
  show "length (fold (\<lambda>i g. fold (\<lambda>j g. set2 g i j (solveLine Ny off dg (D i) ! j)) [0..<Ny] g)
        [0..<Nx] (zeros Nx Ny)) = Nx"
    by (rule rowSweep_shape)
next
  fix i assume "i < Nx"
  then show "length (fold (\<lambda>i g. fold (\<lambda>j g. set2 g i j (solveLine Ny off dg (D i) ! j)) [0..<Ny] g)
        [0..<Nx] (zeros Nx Ny) ! i) = Ny"
    by (rule rowSweep_shape)
next
  fix i j assume i: "i < Nx" and j: "j < Ny"
    and edge: "i = 0 \<or> i = Nx - 1 \<or> j = 0 \<or> j = Ny - 1"
  have Ny: "0 < Ny" using j by simp
  have v: "fold (\<lambda>i g. fold (\<lambda>j g. set2 g i j (solveLine Ny off dg (D i) ! j)) [0..<Ny] g)
        [0..<Nx] (zeros Nx Ny) ! i ! j = solveLine Ny off dg (D i) ! j"
    using rowSweep_nth[OF i j, of "\<lambda>i. solveLine Ny off dg (D i)" "[0..<Nx]"] i by simp
  have z0: "solveLine Ny off dg (D 0) ! j = 0"
    using assms(2) by (intro solveLine_zero[OF assms(1) _ j]) simp
  have zn: "solveLine Ny off dg (D (Nx - 1)) ! j = 0"
    using assms(2) by (intro solveLine_zero[OF assms(1) _ j]) simp
  from edge show "fold (\<lambda>i g. fold (\<lambda>j g. set2 g i j (solveLine Ny off dg (D i) ! j)) [0..<Ny] g)
        [0..<Nx] (zeros Nx Ny) ! i ! j = 0"
    unfolding v
    using solveLine_boundary(2,3)[OF assms(1) Ny] z0 zn by auto
qed

text \<open>A sweep along \<open>x\<close> over all columns leaves zero in the rows \<open>0\<close> and \<open>Nx - 1\<close>.\<close>

lemma full_colSweep_edge_rows:
  assumes "\<And>j. length (D j) = Nx" and "0 < Nx" and "j < Ny"
  shows "fold (\<lambda>j g. fold (\<lambda>i g. set2 g i j (solveLine Nx off dg (D j) ! i)) [0..<Nx] g)
           [0..<Ny] (zeros Nx Ny) ! 0 ! j = 0"
    and "fold (\<lambda>j g. fold (\<lambda>i g. set2 g i j (solveLine Nx off dg (D j) ! i)) [0..<Nx] g)
           [0..<Ny] (zeros Nx Ny) ! (Nx - 1) ! j = 0"
proof -
  have l: "Nx - 1 < Nx" using assms(2) by simp
  show "fold (\<lambda>j g. fold (\<lambda>i g. set2 g i j (solveLine Nx off dg (D j) ! i)) [0..<Nx] g)
           [0..<Ny] (zeros Nx Ny) ! 0 ! j = 0"
    using colSweep_nth[OF assms(2,3), of "\<lambda>j. solveLine Nx off dg (D j)" "[0..<Ny]"]
      solveLine_boundary(2)[OF assms(1,2)] assms(3) by simp
  show "fold (\<lambda>j g. fold (\<lambda>i g. set2 g i j (solveLine Nx off dg (D j) ! i)) [0..<Nx] g)
           [0..<Ny] (zeros Nx Ny) ! (Nx - 1) ! j = 0"
    using colSweep_nth[OF l assms(3), of "\<lambda>j. solveLine Nx off dg (D j)" "[0..<Ny]"]
      solveLine_boundary(3)[OF assms(1,2)] assms(3) by simp
qed

lemma rhs_fold_length [simp]:
  "length (fold (\<lambda>i d. d[i := f i]) xs (newArray n)) = n"
  by (simp add: fold_update_length newArray_def)

lemma rhs_fold_nth:
  "k < n \<Longrightarrow> fold (\<lambda>i d. d[i := f i]) xs (newArray n) ! k = (if k \<in> set xs then f k else 0)"
  by (simp add: fold_update_nth newArray_def)

lemma forwardEuler2D_border:
  assumes "u \<noteq> []"
  shows "\<exists>w. forwardEuler2D u rx ry = Inr w \<and> length w = length u
           \<and> (\<forall>i<length u. length (w ! i) = length (u ! 0)) \<and> border_zero w"
proof -
  define f where "f = (\<lambda>i j. u ! i ! j
                          + rx * (u ! (i + 1) ! j - 2 * u ! i ! j + u ! (i - 1) ! j)
                          + ry * (u ! i ! (j + 1) - 2 * u ! i ! j + u ! i ! (j - 1)))"
  define Nx where "Nx = length u"
  define Ny where "Ny = length (u ! 0)"
  define w where "w = fold (\<lambda>i g. fold (\<lambda>j g. set2 g i j (f i j)) [1..<Ny - 1] g)
                        [1..<Nx - 1] (zeros Nx Ny)"
  have eq: "forwardEuler2D u rx ry = Inr w"
    using assms by (simp add: forwardEuler2D_def Let_def w_def f_def Nx_def Ny_def)
  have sh: "length w = Nx" "\<And>i. i < Nx \<Longrightarrow> length (w ! i) = Ny"
    unfolding w_def
    using writeCells_shape[of f "[1..<Ny - 1]" "[1..<Nx - 1]" "zeros Nx Ny"] by simp_all
  have "border_zero w"
  proof (rule border_zeroI[where Nx = Nx and Ny = Ny])
    fix i j assume i: "i < Nx" and j: "j < Ny"
      and edge: "i = 0 \<or> i = Nx - 1 \<or> j = 0 \<or> j = Ny - 1"
    have "w ! i ! j = (if i \<in> set [1..<Nx - 1] \<and> j \<in> set [1..<Ny - 1] then f i j else 0)"
      unfolding w_def
      using writeCells_nth[of i "zeros Nx Ny" j f "[1..<Ny - 1]" "[1..<Nx - 1]"] i j by simp
    with edge show "w ! i ! j = 0" by auto
  qed (use sh in auto)
  with eq sh show ?thesis by (auto simp: Nx_def Ny_def)
qed

lemma backwardEulerADI_border:
  assumes "u \<noteq> []"
  shows "\<exists>w. backwardEulerADI u rx ry = Inr w \<and> length w = length u
           \<and> (\<forall>i<length u. length (w ! i) = length (u ! 0)) \<and> border_zero w"
proof -
  define Nx where "Nx = length u"
  define Ny where "Ny = length (u ! 0)"
  define w where "w = backwardEulerADI_step2 Nx Ny (backwardEulerADI_step1 Nx Ny u rx) ry"
  have eq: "backwardEulerADI u rx ry = Inr w"
    using assms by (simp add: backwardEulerADI_def Let_def w_def Nx_def Ny_def)
  have sh: "length w = Nx" "\<And>i. i < Nx \<Longrightarrow> length (w ! i) = Ny"
    unfolding w_def backwardEulerADI_step2_eq by (rule rowSweep_shape)+
  have "border_zero w"
    unfolding w_def backwardEulerADI_step2_eq
    by (rule interior_rowSweep_border) simp
  with eq sh show ?thesis by (auto simp: Nx_def Ny_def)
qed

lemma crankNicolsonADI_border:
  assumes "u \<noteq> []"
  shows "\<exists>w. crankNicolsonADI u rx ry = Inr w \<and> length w = length u
           \<and> (\<forall>i<length u. length (w ! i) = length (u ! 0)) \<and> border_zero w"
proof -
  define Nx where "Nx = length u"
  define Ny where "Ny = length (u ! 0)"
  define w where "w = crankNicolsonADI_step2 Nx Ny (crankNicolsonADI_step1 Nx Ny u rx ry) rx ry"
  have eq: "crankNicolsonADI u rx ry = Inr w"
    using assms by (simp add: crankNicolsonADI_def Let_def w_def Nx_def Ny_def)
  have sh: "length w = Nx" "\<And>i. i < Nx \<Longrightarrow> length (w ! i) = Ny"
    unfolding w_def crankNicolsonADI_step2_eq by (rule rowSweep_shape)+
  have "border_zero w"
    unfolding w_def crankNicolsonADI_step2_eq
    by (rule interior_rowSweep_border) simp
  with eq sh show ?thesis by (auto simp: Nx_def Ny_def)
qed

lemma backwardEuler2D_ADI_border:
  assumes "u \<noteq> []"
  shows "\<exists>w. backwardEuler2D_ADI u rx ry = Inr w \<and> length w = length u
           \<and> (\<forall>i<length u. length (w ! i) = length (u ! 0)) \<and> border_zero w"
proof -
  define Nx where "Nx = length u"
  define Ny where "Ny = length (u ! 0)"
  define h where "h = backwardEuler2D_ADI_xsweep Nx Ny u rx"
  define w where "w = backwardEuler2D_ADI_ysweep Nx Ny h ry"
  have Nx: "0 < Nx" using assms by (simp add: Nx_def)
  have eq: "backwardEuler2D_ADI u rx ry = Inr w"
    using assms by (simp add: backwardEuler2D_ADI_def Let_def w_def h_def Nx_def Ny_def)
  have sh: "length w = Nx" "\<And>i. i < Nx \<Longrightarrow> length (w ! i) = Ny"
    unfolding w_def backwardEuler2D_ADI_ysweep_eq by (rule rowSweep_shape)+
  have edge: "h ! 0 ! k = 0" "h ! (Nx - 1) ! k = 0" if "k < Ny" for k
    unfolding h_def backwardEuler2D_ADI_xsweep_eq
    by (rule full_colSweep_edge_rows[OF _ Nx that], simp)+
  have "border_zero w"
    unfolding w_def backwardEuler2D_ADI_ysweep_eq
  proof (rule full_rowSweep_border)
    fix k assume k: "0 < k" "k < Ny - 1"
    then have "k < Ny" by simp
    with k edge[of k]
    show "fold (\<lambda>j d. d[j := h ! 0 ! j]) [1..<Ny - 1] (newArray Ny) ! k = 0
        \<and> fold (\<lambda>j d. d[j := h ! (Nx - 1) ! j]) [1..<Ny - 1] (newArray Ny) ! k = 0"
      by (simp add: rhs_fold_nth)
  qed simp
  with eq sh show ?thesis by (auto simp: Nx_def Ny_def)
qed

lemma crankNicolson2D_ADI_border:
  assumes "u \<noteq> []"
  shows "\<exists>w. crankNicolson2D_ADI u rx ry = Inr w \<and> length w = length u
           \<and> (\<forall>i<length u. length (w ! i) = length (u ! 0)) \<and> border_zero w"
proof -
  define Nx where "Nx = length u"
  define Ny where "Ny = length (u ! 0)"
  define h where "h = crankNicolson2D_ADI_xsweep Nx Ny u rx"
  define w where "w = crankNicolson2D_ADI_ysweep Nx Ny h ry"
  have Nx: "0 < Nx" using assms by (simp add: Nx_def)
  have eq: "crankNicolson2D_ADI u rx ry = Inr w"
    using assms by (simp add: crankNicolson2D_ADI_def Let_def w_def h_def Nx_def Ny_def)
  have sh: "length w = Nx" "\<And>i. i < Nx \<Longrightarrow> length (w ! i) = Ny"
    unfolding w_def crankNicolson2D_ADI_ysweep_eq by (rule rowSweep_shape)+
  have edge: "h ! 0 ! k = 0" "h ! (Nx - 1) ! k = 0" if "k < Ny" for k
    unfolding h_def crankNicolson2D_ADI_xsweep_eq
    by (rule full_colSweep_edge_rows[OF _ Nx that], simp)+
  have "border_zero w"
    unfolding w_def crankNicolson2D_ADI_ysweep_eq
  proof (rule full_rowSweep_border)
    fix k assume k: "0 < k" "k < Ny - 1"
    then have "k < Ny" "k + 1 < Ny" "k - 1 < Ny" by simp_all
    with k edge[of k] edge[of "k + 1"] edge[of "k - 1"]
    show "fold (\<lambda>j d. d[j := (1 - ry) * h ! 0 ! j + ry / 2 * (h ! 0 ! (j + 1) + h ! 0 ! (j - 1))])
            [1..<Ny - 1] (newArray Ny) ! k = 0
        \<and> fold (\<lambda>j d. d[j := (1 - ry) * h ! (Nx - 1) ! j
                           + ry / 2 * (h ! (Nx - 1) ! (j + 1) + h ! (Nx - 1) ! (j - 1))])
            [1..<Ny - 1] (newArray Ny) ! k = 0"
      by (simp add: rhs_fold_nth)
  qed simp
  with eq sh show ?thesis by (auto simp: Nx_def Ny_def)
qed

section \<open>Operation cost\<close>

lemma timeStep_flops:
  assumes "known_method (cfg_method cfg)"
  shows "st_flops (timeStep cfg s) = st_flops s + cost_1d (cfg_method cfg) (cfg_Nx cfg)"
  using assms
  by (auto simp: timeStep_def stepNumerical_def known_method_def cost_1d_def Let_def)

lemma timeSteps_flops:
  assumes "known_method (cfg_method cfg)"
  shows "st_flops (timeSteps cfg k s) = st_flops s + int k * cost_1d (cfg_method cfg) (cfg_Nx cfg)"
proof (induction k arbitrary: s)
  case 0
  then show ?case by simp
next
  case (Suc k)
  then show ?case
    by (simp add: timeStep_flops[OF assms] algebra_simps)
qed

lemma timeStep_2d_flops:
  assumes "known_method (cfg_method cfg)" and "st2_u s \<noteq> []"
  shows "\<exists>s'. timeStep_2d cfg s = Inr s' \<and> st2_u s' \<noteq> []
           \<and> st2_flops s' = st2_flops s + cost_2d (cfg_method cfg) (cfg_Nx cfg)"
proof -
  obtain w1 where w1: "forwardEuler2D (st2_u s) (st2_rx s) (st2_ry s) = Inr w1"
    "length w1 = length (st2_u s)"
    using forwardEuler2D_border[OF assms(2)] by blast
  obtain w2 where w2: "backwardEulerADI (st2_u s) (st2_rx s) (st2_ry s) = Inr w2"
    "length w2 = length (st2_u s)"
    using backwardEulerADI_border[OF assms(2)] by blast
  obtain w3 where w3: "crankNicolsonADI (st2_u s) (st2_rx s) (st2_ry s) = Inr w3"
    "length w3 = length (st2_u s)"
    using crankNicolsonADI_border[OF assms(2)] by blast
  have ne: "w1 \<noteq> []" "w2 \<noteq> []" "w3 \<noteq> []"
    using w1(2) w2(2) w3(2) assms(2) by auto
  show ?thesis
    using assms(1) w1(1) w2(1) w3(1) ne
    by (auto simp: timeStep_2d_def stepNumerical_2d_def known_method_def cost_2d_def Let_def
        power2_eq_square)
qed

lemma timeSteps_2d_flops:
  assumes "known_method (cfg_method cfg)"
  shows "st2_u s \<noteq> [] \<Longrightarrow>
     \<exists>s'. timeSteps_2d cfg k s = Inr s' \<and> st2_u s' \<noteq> []
        \<and> st2_flops s' = st2_flops s + int k * cost_2d (cfg_method cfg) (cfg_Nx cfg)"
proof (induction k arbitrary: s)
  case 0
  then show ?case by simp
next
  case (Suc k)
  from timeStep_2d_flops[OF assms Suc.prems] obtain s1 where
    s1: "timeStep_2d cfg s = Inr s1" "st2_u s1 \<noteq> []"
      "st2_flops s1 = st2_flops s + cost_2d (cfg_method cfg) (cfg_Nx cfg)"
    by blast
  from Suc.IH[OF s1(2)] obtain s' where
    s': "timeSteps_2d cfg k s1 = Inr s'" "st2_u s' \<noteq> []"
      "st2_flops s' = st2_flops s1 + int k * cost_2d (cfg_method cfg) (cfg_Nx cfg)"
    by blast
  show ?case
    using s1 s' by (simp add: algebra_simps)
qed

lemma timeStep2D_flops:
  assumes "known_method (cfg_method cfg)" and "st2_u s \<noteq> []"
  shows "\<exists>s'. timeStep2D cfg s = Inr s' \<and> st2_u s' \<noteq> []
           \<and> st2_flops s' = st2_flops s + cost2D (cfg_method cfg) (cfg_Nx cfg)"
proof -
  obtain w1 where w1: "forwardEuler2D (st2_u s) (st2_rx s) (st2_ry s) = Inr w1"
    "length w1 = length (st2_u s)"
    using forwardEuler2D_border[OF assms(2)] by blast
  obtain w2 where w2: "backwardEuler2D_ADI (st2_u s) (st2_rx s) (st2_ry s) = Inr w2"
    "length w2 = length (st2_u s)"
    using backwardEuler2D_ADI_border[OF assms(2)] by blast
  obtain w3 where w3: "crankNicolson2D_ADI (st2_u s) (st2_rx s) (st2_ry s) = Inr w3"
    "length w3 = length (st2_u s)"
    using crankNicolson2D_ADI_border[OF assms(2)] by blast
  have ne: "w1 \<noteq> []" "w2 \<noteq> []" "w3 \<noteq> []"
    using w1(2) w2(2) w3(2) assms(2) by auto
  show ?thesis
    using assms(1) w1(1) w2(1) w3(1) ne
    by (auto simp: timeStep2D_def stepNumerical2D_def known_method_def cost2D_def Let_def
        power2_eq_square algebra_simps)
qed

lemma timeSteps2D_flops:
  assumes "known_method (cfg_method cfg)"
  shows "st2_u s \<noteq> [] \<Longrightarrow>
     \<exists>s'. timeSteps2D cfg k s = Inr s' \<and> st2_u s' \<noteq> []
        \<and> st2_flops s' = st2_flops s + int k * cost2D (cfg_method cfg) (cfg_Nx cfg)"
proof (induction k arbitrary: s)
  case 0
  then show ?case by simp
next
  case (Suc k)
  from timeStep2D_flops[OF assms Suc.prems] obtain s1 where
    s1: "timeStep2D cfg s = Inr s1" "st2_u s1 \<noteq> []"
      "st2_flops s1 = st2_flops s + cost2D (cfg_method cfg) (cfg_Nx cfg)"
    by blast
  from Suc.IH[OF s1(2)] obtain s' where
    s': "timeSteps2D cfg k s1 = Inr s'" "st2_u s' \<noteq> []"
      "st2_flops s' = st2_flops s1 + int k * cost2D (cfg_method cfg) (cfg_Nx cfg)"
    by blast
  show ?case
    using s1 s' by (simp add: algebra_simps)
qed

lemma costs_positive:
  assumes "3 \<le> N"
  shows "0 < cost_1d m N" "0 < cost_2d m N" "0 < cost2D m N"
proof -
  show "0 < cost_1d m N" using assms by (simp add: cost_1d_def)
  have sq: "0 < N ^ 2" using assms by simp
  then show "0 < cost_2d m N" by (simp add: cost_2d_def)
  have "9 * N ^ 2 - 36 * N + 36 = 9 * (N - 2) ^ 2" by (simp add: power2_eq_square algebra_simps)
  moreover have "0 < (N - 2) ^ 2" using assms by simp
  ultimately show "0 < cost2D m N" using sq by (simp add: cost2D_def)
qed

text \<open>
  C8. For each of the three methods and every point count \<open>Nx \<ge> 3\<close>, every step raises
  the operation count by the same positive amount, whatever the state: in one dimension
  by \<open>5 N - 10\<close>, \<open>8 N\<close> or \<open>12 N\<close>, a polynomial of degree one in the point count; in two
  dimensions by \<open>10 N\<^sup>2\<close> (\<open>9 N\<^sup>2 - 36 N + 36\<close> in the unified application), \<open>16 N\<^sup>2\<close> or
  \<open>24 N\<^sup>2\<close>, a polynomial of degree two. After \<open>k\<close> steps the count is the initial count
  plus \<open>k\<close> times the increment, and \<open>k + 1\<close> steps give strictly more than \<open>k\<close> steps.
\<close>

theorem operation_cost_increases:
  assumes "known_method (cfg_method cfg)" and "3 \<le> cfg_Nx cfg" and "st2_u s2 \<noteq> []"
  shows "st_flops (timeSteps cfg k s) = st_flops s + int k * cost_1d (cfg_method cfg) (cfg_Nx cfg)
       \<and> st_flops (timeSteps cfg k s) < st_flops (timeSteps cfg (Suc k) s)
       \<and> (\<exists>a b. timeSteps_2d cfg k s2 = Inr a \<and> timeSteps_2d cfg (Suc k) s2 = Inr b
             \<and> st2_flops a = st2_flops s2 + int k * cost_2d (cfg_method cfg) (cfg_Nx cfg)
             \<and> st2_flops a < st2_flops b)
       \<and> (\<exists>a b. timeSteps2D cfg k s2 = Inr a \<and> timeSteps2D cfg (Suc k) s2 = Inr b
             \<and> st2_flops a = st2_flops s2 + int k * cost2D (cfg_method cfg) (cfg_Nx cfg)
             \<and> st2_flops a < st2_flops b)
       \<and> 0 < cost_1d (cfg_method cfg) (cfg_Nx cfg)
       \<and> 0 < cost_2d (cfg_method cfg) (cfg_Nx cfg)
       \<and> 0 < cost2D (cfg_method cfg) (cfg_Nx cfg)"
proof -
  note pos = costs_positive[OF assms(2), of "cfg_method cfg"]
  have one: "st_flops (timeSteps cfg k s) = st_flops s + int k * cost_1d (cfg_method cfg) (cfg_Nx cfg)"
    by (rule timeSteps_flops[OF assms(1)])
  have "st_flops (timeSteps cfg (Suc k) s)
        = st_flops s + int (Suc k) * cost_1d (cfg_method cfg) (cfg_Nx cfg)"
    by (rule timeSteps_flops[OF assms(1)])
  with one pos(1) have lt1: "st_flops (timeSteps cfg k s) < st_flops (timeSteps cfg (Suc k) s)"
    by (simp add: algebra_simps)
  from timeSteps_2d_flops[OF assms(1,3), of k] obtain a where
    a: "timeSteps_2d cfg k s2 = Inr a"
       "st2_flops a = st2_flops s2 + int k * cost_2d (cfg_method cfg) (cfg_Nx cfg)"
    by blast
  from timeSteps_2d_flops[OF assms(1,3), of "Suc k"] obtain b where
    b: "timeSteps_2d cfg (Suc k) s2 = Inr b"
       "st2_flops b = st2_flops s2 + int (Suc k) * cost_2d (cfg_method cfg) (cfg_Nx cfg)"
    by blast
  have two: "\<exists>a b. timeSteps_2d cfg k s2 = Inr a \<and> timeSteps_2d cfg (Suc k) s2 = Inr b
             \<and> st2_flops a = st2_flops s2 + int k * cost_2d (cfg_method cfg) (cfg_Nx cfg)
             \<and> st2_flops a < st2_flops b"
    using a b pos(2) by (intro exI[of _ a] exI[of _ b]) (simp add: algebra_simps)
  from timeSteps2D_flops[OF assms(1,3), of k] obtain a' where
    a': "timeSteps2D cfg k s2 = Inr a'"
       "st2_flops a' = st2_flops s2 + int k * cost2D (cfg_method cfg) (cfg_Nx cfg)"
    by blast
  from timeSteps2D_flops[OF assms(1,3), of "Suc k"] obtain b' where
    b': "timeSteps2D cfg (Suc k) s2 = Inr b'"
       "st2_flops b' = st2_flops s2 + int (Suc k) * cost2D (cfg_method cfg) (cfg_Nx cfg)"
    by blast
  have three: "\<exists>a b. timeSteps2D cfg k s2 = Inr a \<and> timeSteps2D cfg (Suc k) s2 = Inr b
             \<and> st2_flops a = st2_flops s2 + int k * cost2D (cfg_method cfg) (cfg_Nx cfg)
             \<and> st2_flops a < st2_flops b"
    using a' b' pos(3) by (intro exI[of _ a'] exI[of _ b']) (simp add: algebra_simps)
  from one lt1 two three pos show ?thesis by blast
qed

theorem operation_cost_increases_witness:
  "known_method (cfg_method default_config) \<and> 3 \<le> cfg_Nx default_config
   \<and> st2_u (initSimulation_2d default_config) \<noteq> []
   \<and> st_flops (timeSteps default_config 2 (initSimulation default_config)) = 390
   \<and> (\<exists>a. timeSteps_2d default_config 2 (initSimulation_2d default_config) = Inr a
          \<and> st2_flops a = 33620)
   \<and> (\<exists>a. timeSteps2D default_config 2 (initSimulation_2d default_config) = Inr a
          \<and> st2_flops a = 27378)"
proof -
  have k: "known_method (cfg_method default_config)"
    by (simp add: known_method_def default_config_def)
  have n: "3 \<le> cfg_Nx default_config"
    by (simp add: default_config_def)
  have u: "st2_u (initSimulation_2d default_config) \<noteq> []"
    by (simp add: initSimulation_2d_def getSineIC2D_def default_config_def Let_def)
  have f0: "st_flops (initSimulation default_config) = 0"
    "st2_flops (initSimulation_2d default_config) = 0"
    by (simp_all add: initSimulation_def initSimulation_2d_def Let_def)
  have c: "cost_1d (cfg_method default_config) (cfg_Nx default_config) = 195"
    "cost_2d (cfg_method default_config) (cfg_Nx default_config) = 16810"
    "cost2D (cfg_method default_config) (cfg_Nx default_config) = 13689"
    by (simp_all add: cost_1d_def cost_2d_def cost2D_def default_config_def)
  from operation_cost_increases[OF k n u, of 2 "initSimulation default_config"]
  show ?thesis using k n u by (auto simp: f0 c)
qed

section \<open>The Peaceman-Rachford step\<close>

lemma dirichletRows_line_system:
  assumes "0 < n"
  shows "dirichletRows n (replicate n off, replicate n dg, replicate n off,
            fold (\<lambda>i d. d[i := f i]) [1..<n - 1] (newArray n))
         = line_system n off dg f"
proof -
  have a: "(replicate n off)[n - 1 := 0] = map (\<lambda>i. if i = n - 1 then 0 else off) [0..<n]"
    by (rule nth_equalityI) (auto simp: nth_list_update)
  have b: "(replicate n dg)[0 := 1, n - 1 := 1]
           = map (\<lambda>i. if i = 0 \<or> i = n - 1 then 1 else dg) [0..<n]"
    by (rule nth_equalityI) (auto simp: nth_list_update)
  have c: "(replicate n off)[0 := 0] = map (\<lambda>i. if i = 0 then 0 else off) [0..<n]"
    by (rule nth_equalityI) (auto simp: nth_list_update)
  have d: "(fold (\<lambda>i d. d[i := f i]) [1..<n - 1] (newArray n))[0 := 0, n - 1 := 0]
           = map (\<lambda>i. if i = 0 \<or> i = n - 1 then 0 else f i) [0..<n]"
    by (rule nth_equalityI) (auto simp: nth_list_update rhs_fold_nth)
  show ?thesis
    unfolding dirichletRows_def line_system_def prod.case a b c d by (rule refl)
qed

lemma solveLine_line_solve:
  assumes "0 < n"
  shows "solveLine n off dg (fold (\<lambda>i d. d[i := f i]) [1..<n - 1] (newArray n))
         = line_solve n off dg f"
  unfolding solveLine_def line_solve_def dirichletRows_line_system[OF assms] by (rule refl)

lemma crankNicolsonADI_step1_pr:
  assumes "0 < Nx"
  shows "crankNicolsonADI_step1 Nx Ny u rx ry = pr_half1 Nx Ny u rx ry"
proof (rule nth_equalityI)
  show len: "length (crankNicolsonADI_step1 Nx Ny u rx ry) = length (pr_half1 Nx Ny u rx ry)"
    unfolding crankNicolsonADI_step1_eq by (simp add: colSweep_shape pr_half1_def)
  fix i assume "i < length (crankNicolsonADI_step1 Nx Ny u rx ry)"
  then have i: "i < Nx" unfolding crankNicolsonADI_step1_eq by (simp add: colSweep_shape)
  show "crankNicolsonADI_step1 Nx Ny u rx ry ! i = pr_half1 Nx Ny u rx ry ! i"
  proof (rule nth_equalityI)
    show "length (crankNicolsonADI_step1 Nx Ny u rx ry ! i) = length (pr_half1 Nx Ny u rx ry ! i)"
      unfolding crankNicolsonADI_step1_eq using i by (simp add: colSweep_shape pr_half1_def)
    fix j assume "j < length (crankNicolsonADI_step1 Nx Ny u rx ry ! i)"
    then have j: "j < Ny"
      unfolding crankNicolsonADI_step1_eq using i by (simp add: colSweep_shape)
    show "crankNicolsonADI_step1 Nx Ny u rx ry ! i ! j = pr_half1 Nx Ny u rx ry ! i ! j"
      unfolding crankNicolsonADI_step1_eq colSweep_nth[OF i j] solveLine_line_solve[OF assms]
      using i j by (auto simp: pr_half1_def)
  qed
qed

lemma crankNicolsonADI_step2_pr:
  "crankNicolsonADI_step2 Nx Ny uStar rx ry = pr_half2 Nx Ny uStar rx ry"
proof (rule nth_equalityI)
  show len: "length (crankNicolsonADI_step2 Nx Ny uStar rx ry) = length (pr_half2 Nx Ny uStar rx ry)"
    unfolding crankNicolsonADI_step2_eq by (simp add: rowSweep_shape pr_half2_def)
  fix i assume "i < length (crankNicolsonADI_step2 Nx Ny uStar rx ry)"
  then have i: "i < Nx" unfolding crankNicolsonADI_step2_eq by (simp add: rowSweep_shape)
  show "crankNicolsonADI_step2 Nx Ny uStar rx ry ! i = pr_half2 Nx Ny uStar rx ry ! i"
  proof (rule nth_equalityI)
    show "length (crankNicolsonADI_step2 Nx Ny uStar rx ry ! i) = length (pr_half2 Nx Ny uStar rx ry ! i)"
      unfolding crankNicolsonADI_step2_eq using i by (simp add: rowSweep_shape pr_half2_def)
    fix j assume "j < length (crankNicolsonADI_step2 Nx Ny uStar rx ry ! i)"
    then have j: "j < Ny"
      unfolding crankNicolsonADI_step2_eq using i by (simp add: rowSweep_shape)
    then have Ny: "0 < Ny" by simp
    show "crankNicolsonADI_step2 Nx Ny uStar rx ry ! i ! j = pr_half2 Nx Ny uStar rx ry ! i ! j"
      unfolding crankNicolsonADI_step2_eq rowSweep_nth[OF i j] solveLine_line_solve[OF Ny]
      using i j by (auto simp: pr_half2_def)
  qed
qed

lemma unified_xsweep_nth:
  assumes "i < Nx" and "j < Ny"
  shows "crankNicolson2D_ADI_xsweep Nx Ny u rx ! i ! j =
           line_solve Nx (- (rx / 2)) (1 + 2 * (rx / 2))
             (\<lambda>i. (1 - rx) * u ! i ! j + rx / 2 * (u ! (i + 1) ! j + u ! (i - 1) ! j)) ! i"
proof -
  have Nx: "0 < Nx" using assms(1) by simp
  show ?thesis
    unfolding crankNicolson2D_ADI_xsweep_eq colSweep_nth[OF assms] solveLine_line_solve[OF Nx]
    using assms by simp
qed

lemma unified_ysweep_nth:
  assumes "i < Nx" and "j < Ny"
  shows "crankNicolson2D_ADI_ysweep Nx Ny h ry ! i ! j =
           line_solve Ny (- (ry / 2)) (1 + 2 * (ry / 2))
             (\<lambda>j. (1 - ry) * h ! i ! j + ry / 2 * (h ! i ! (j + 1) + h ! i ! (j - 1))) ! j"
proof -
  have Ny: "0 < Ny" using assms(2) by simp
  show ?thesis
    unfolding crankNicolson2D_ADI_ysweep_eq rowSweep_nth[OF assms] solveLine_line_solve[OF Ny]
    using assms by simp
qed

text \<open>
  C5, as the code has it. In the two-dimensional application \<open>crankNicolsonADI\<close> is the
  Peaceman-Rachford step: its first loop computes half-step 1 (implicit along \<open>x\<close> with
  coefficients from \<open>rx / 2\<close>, right-hand side the field plus its \<open>ry / 2\<close> central
  difference in \<open>y\<close>), its second loop half-step 2 (implicit along \<open>y\<close> with coefficients
  from \<open>ry / 2\<close>, right-hand side the half-step-1 field plus its \<open>rx / 2\<close> central
  difference in \<open>x\<close>), with the border left 0. In the unified application
  \<open>crankNicolson2D_ADI\<close> solves the same tridiagonal systems, but the right-hand side
  of each sweep is the one-dimensional Crank-Nicolson right-hand side along the
  direction of the sweep itself: \<open>(1 - rx) u\<^sub>i\<^sub>j + (rx / 2) (u\<^sub>i\<^sub>+\<^sub>1\<^sub>j + u\<^sub>i\<^sub>-\<^sub>1\<^sub>j)\<close> along \<open>x\<close>, then
  the same with \<open>ry\<close> along \<open>y\<close>.
\<close>

theorem crankNicolsonADI_is_peaceman_rachford:
  assumes "u \<noteq> []" and "rectangular u" and "i < length u" and "j < length (u ! 0)"
  shows "crankNicolsonADI_step1 (length u) (length (u ! 0)) u rx ry
           = pr_half1 (length u) (length (u ! 0)) u rx ry
       \<and> crankNicolsonADI_step2 (length u) (length (u ! 0)) uStar rx ry
           = pr_half2 (length u) (length (u ! 0)) uStar rx ry
       \<and> crankNicolsonADI u rx ry = Inr (pr_step u rx ry)
       \<and> crankNicolson2D_ADI_xsweep (length u) (length (u ! 0)) u rx ! i ! j
           = line_solve (length u) (- (rx / 2)) (1 + 2 * (rx / 2))
               (\<lambda>i. (1 - rx) * u ! i ! j + rx / 2 * (u ! (i + 1) ! j + u ! (i - 1) ! j)) ! i
       \<and> crankNicolson2D_ADI_ysweep (length u) (length (u ! 0)) uHalf ry ! i ! j
           = line_solve (length (u ! 0)) (- (ry / 2)) (1 + 2 * (ry / 2))
               (\<lambda>j. (1 - ry) * uHalf ! i ! j
                      + ry / 2 * (uHalf ! i ! (j + 1) + uHalf ! i ! (j - 1))) ! j"
proof -
  have Nx: "0 < length u" using assms(1) by simp
  have s1: "crankNicolsonADI_step1 (length u) (length (u ! 0)) u rx ry
           = pr_half1 (length u) (length (u ! 0)) u rx ry"
    by (rule crankNicolsonADI_step1_pr[OF Nx])
  have s2: "crankNicolsonADI_step2 (length u) (length (u ! 0)) w rx ry
           = pr_half2 (length u) (length (u ! 0)) w rx ry" for w
    by (rule crankNicolsonADI_step2_pr)
  have "crankNicolsonADI u rx ry = Inr (pr_step u rx ry)"
    using assms(1) by (simp add: crankNicolsonADI_def pr_step_def Let_def s1 s2)
  with s1 s2 unified_xsweep_nth[OF assms(3,4)] unified_ysweep_nth[OF assms(3,4)]
  show ?thesis by simp
qed

theorem crankNicolsonADI_is_peaceman_rachford_witness:
  "bump_field \<noteq> [] \<and> rectangular bump_field
   \<and> (1 :: nat) < length bump_field \<and> (1 :: nat) < length (bump_field ! 0)
   \<and> crankNicolsonADI bump_field 1 2 = Inr (pr_step bump_field 1 2)
   \<and> crankNicolsonADI_step1 (length bump_field) (length (bump_field ! 0)) bump_field 1 2
       = pr_half1 (length bump_field) (length (bump_field ! 0)) bump_field 1 2"
proof -
  have r: "rectangular bump_field"
    by (simp add: rectangular_def bump_field_def)
  have n: "bump_field \<noteq> []" "(1 :: nat) < length bump_field" "(1 :: nat) < length (bump_field ! 0)"
    by (simp_all add: bump_field_def)
  from crankNicolsonADI_is_peaceman_rachford[where rx = 1 and ry = 2, OF n(1) r n(2,3)]
  show ?thesis using r n by blast
qed

text \<open>
  C5 as stated fails for the unified application. On the field that is \<open>1\<close> at the one
  interior point of a 3 by 3 grid, with \<open>rx = 1\<close> and \<open>ry = 2\<close>, the first sweep of
  \<open>crankNicolson2D_ADI\<close> yields \<open>0\<close> at the interior point where half-step 1 of the
  Peaceman-Rachford scheme yields \<open>- 1 / 2\<close>; and on a field with a non-zero border
  entry the whole step differs from the Peaceman-Rachford step.
\<close>

theorem crankNicolson2D_ADI_counterexample:
  "crankNicolson2D_ADI_xsweep 3 3 bump_field 1 = [[0, 0, 0], [0, 0, 0], [0, 0, 0]]
   \<and> pr_half1 3 3 bump_field 1 2 = [[0, 0, 0], [0, - (1 / 2), 0], [0, 0, 0]]
   \<and> crankNicolson2D_ADI_xsweep 3 3 bump_field 1 \<noteq> pr_half1 3 3 bump_field 1 2
   \<and> crankNicolson2D_ADI edge_field 1 2 = Inr [[0, 0, 0], [0, - (1 / 12), 0], [0, 0, 0]]
   \<and> crankNicolson2D_ADI edge_field 1 2 \<noteq> Inr (pr_step edge_field 1 2)"
proof -
  have t1: "crankNicolson2D_ADI_xsweep 3 3 bump_field 1 = [[0, 0, 0], [0, 0, 0], [0, 0, 0]]"
    by code_simp
  have t2: "pr_half1 3 3 bump_field 1 2 = [[0, 0, 0], [0, - (1 / 2), 0], [0, 0, 0]]"
    by code_simp
  have t3: "crankNicolson2D_ADI edge_field 1 2 = Inr [[0, 0, 0], [0, - (1 / 12), 0], [0, 0, 0]]"
    by code_simp
  have t4: "pr_step edge_field 1 2 = [[0, 0, 0], [0, 0, 0], [0, 0, 0]]"
    by code_simp
  show ?thesis unfolding t1 t2 t3 t4 by simp
qed

section \<open>What the steppers write\<close>

lemma extends_refl [simp]: "extends s s"
  by (simp add: extends_def)

lemma extends_trans: "extends s t \<Longrightarrow> extends t r \<Longrightarrow> extends s r"
  by (auto simp: extends_def)

lemma extends_append [simp]: "extends s (s @ t)"
  by (simp add: extends_def nth_append)

lemma wr_length [simp]: "length (wr p i v s) = length s"
  by (simp add: wr_def)

lemma wr_row_length [simp]: "length (wr p i v s ! q) = length (s ! q)"
proof (cases "q = p")
  case True
  then show ?thesis
    by (cases "p < length s") (simp_all add: wr_def list_update_beyond)
next
  case False
  then show ?thesis by (simp add: wr_def)
qed

lemma wr_other: "q \<noteq> p \<Longrightarrow> wr p i v s ! q = s ! q"
  by (simp add: wr_def)

lemma extends_wr:
  "extends s0 s \<Longrightarrow> length s0 \<le> p \<Longrightarrow> extends s0 (wr p i v s)"
  by (auto simp: extends_def wr_other)

lemma fold_invariant:
  assumes "\<And>x s. x \<in> set xs \<Longrightarrow> P s \<Longrightarrow> P (f x s)" and "P s"
  shows "P (fold f xs s)"
  using assms by (induction xs arbitrary: s) simp_all

lemma fold_wr_extends:
  assumes "extends s0 s" and "length s0 \<le> p"
  shows "extends s0 (fold (\<lambda>i s. wr p i (v i s) s) xs s)"
    and "length (fold (\<lambda>i s. wr p i (v i s) s) xs s) = length s"
proof -
  have "extends s0 (fold (\<lambda>i s. wr p i (v i s) s) xs s)
        \<and> length (fold (\<lambda>i s. wr p i (v i s) s) xs s) = length s"
    using assms(1)
  proof (induction xs arbitrary: s)
    case Nil
    then show ?case by simp
  next
    case (Cons x xs)
    from Cons.IH[OF extends_wr[OF Cons.prems assms(2)], of x "v x s"] show ?case by simp
  qed
  then show "extends s0 (fold (\<lambda>i s. wr p i (v i s) s) xs s)"
    and "length (fold (\<lambda>i s. wr p i (v i s) s) xs s) = length s"
    by simp_all
qed

lemma fold_wr_length [simp]:
  "length (fold (\<lambda>i s. wr p i (v i s) s) xs s) = length s"
  by (induction xs arbitrary: s) simp_all

lemma alloc_eq: "alloc v s = (length s, s @ [v])"
  by (simp add: alloc_def)

text \<open>\<open>forwardEuler\<close> writes to the array it allocates, and to no other.\<close>

lemma forwardEuler_st_frame:
  "case forwardEuler_st u r s of (res, s') \<Rightarrow>
     extends s s' \<and> res = length s \<and> res < length s'"
proof -
  have e: "extends s (s @ [replicate (length (s ! u)) (Num 0)])" by simp
  show ?thesis
    unfolding forwardEuler_st_def alloc_def Let_def prod.case
    by (intro conjI fold_wr_extends(1) extends_wr e) simp_all
qed

text \<open>The solver writes to \<open>cp\<close>, \<open>dp\<close> and \<open>x\<close>, which it allocates.\<close>

lemma forwardSweep_st_frame:
  assumes "extends s0 s" and "length s0 \<le> cp" and "length s0 \<le> dp"
  shows "extends s0 (snd (forwardSweep_st a b c d cp dp n i s))
       \<and> length (snd (forwardSweep_st a b c d cp dp n i s)) = length s"
  using assms
proof (induction a b c d cp dp n i s rule: forwardSweep_st.induct)
  case (1 a b c d cp dp n i s)
  show ?case
  proof (cases "i < n \<and> \<not> \<bar>rd s b i - rd s a i * rd s cp (i - 1)\<bar> < pivot_eps")
    case True
    define denom where "denom = rd s b i - rd s a i * rd s cp (i - 1)"
    define s1 where "s1 = wr cp i (Num (rd s c i / denom)) s"
    define s2 where "s2 = wr dp i (Num ((rd s1 d i - rd s1 a i * rd s1 dp (i - 1)) / denom)) s1"
    have e2: "extends s0 s2"
      unfolding s2_def s1_def by (intro extends_wr "1.prems")
    have "extends s0 (snd (forwardSweep_st a b c d cp dp n (i + 1) s2))
          \<and> length (snd (forwardSweep_st a b c d cp dp n (i + 1) s2)) = length s2"
      using True by (intro "1.IH"[OF _ denom_def _ s1_def s2_def e2 "1.prems"(2,3)]) (simp_all add: denom_def)
    moreover have "forwardSweep_st a b c d cp dp n i s = forwardSweep_st a b c d cp dp n (i + 1) s2"
      using True
      by (subst forwardSweep_st.simps) (simp add: Let_def s2_def s1_def denom_def)
    ultimately show ?thesis by (simp add: s2_def s1_def)
  next
    case False
    then have "snd (forwardSweep_st a b c d cp dp n i s) = s"
      by (subst forwardSweep_st.simps) (auto simp: Let_def)
    then show ?thesis using "1.prems"(1) by simp
  qed
qed

lemma backSubst_st_frame:
  assumes "length s0 \<le> x"
  shows "extends s0 s \<Longrightarrow>
     extends s0 (backSubst_st cp dp x k s) \<and> length (backSubst_st cp dp x k s) = length s"
proof (induction k arbitrary: s)
  case 0
  then show ?case by simp
next
  case (Suc k)
  from Suc.IH[OF extends_wr[OF Suc.prems assms]] show ?case by simp
qed

lemma thomasAlgorithm_st_frame:
  "case thomasAlgorithm_st a b c d s of (res, s') \<Rightarrow>
     extends s s' \<and> length s' = length s + 3 \<and> (res = d \<or> res = length s + 2)"
proof -
  define n where "n = length (s ! d)"
  define cp dp x where "cp = length s" and "dp = length s + 1" and "x = length s + 2"
  define s1 where "s1 = s @ [replicate n (Num 0)]"
  define s2 where "s2 = s1 @ [replicate n (Num 0)]"
  define s3 where "s3 = s2 @ [replicate n (Num 0)]"
  have a1: "alloc (replicate n (Num 0)) s = (cp, s1)"
    and a2: "alloc (replicate n (Num 0)) s1 = (dp, s2)"
    and a3: "alloc (replicate n (Num 0)) s2 = (x, s3)"
    by (simp_all add: alloc_eq cp_def dp_def x_def s1_def s2_def s3_def)
  define s4 where "s4 = wr cp 0 (Num (rd s3 c 0 / rd s3 b 0)) s3"
  define s5 where "s5 = wr dp 0 (Num (rd s4 d 0 / rd s4 b 0)) s4"
  have l3: "length s3 = length s + 3" by (simp add: s3_def s2_def s1_def)
  have e3: "extends s s3" by (simp add: s3_def s2_def s1_def extends_def nth_append)
  have e5: "extends s s5"
    unfolding s5_def s4_def by (intro extends_wr e3) (simp_all add: cp_def dp_def)
  have l5: "length s5 = length s + 3" by (simp add: s5_def s4_def l3)
  obtain ok s6 where fs: "forwardSweep_st a b c d cp dp n 1 s5 = (ok, s6)"
    by (cases "forwardSweep_st a b c d cp dp n 1 s5") auto
  from forwardSweep_st_frame[OF e5, of cp dp a b c d n 1] fs
  have e6: "extends s s6" and l6: "length s6 = length s + 3"
    by (simp_all add: l5 cp_def dp_def)
  define s7 where "s7 = wr x (n - 1) (Num (rd s6 dp (n - 1))) s6"
  have e7: "extends s s7" unfolding s7_def by (intro extends_wr e6) (simp add: x_def)
  from backSubst_st_frame[OF _ e7, of x cp dp "n - 1"]
  have e8: "extends s (backSubst_st cp dp x (n - 1) s7)"
    and l8: "length (backSubst_st cp dp x (n - 1) s7) = length s + 3"
    by (simp_all add: s7_def l6 x_def)
  have unf: "thomasAlgorithm_st a b c d s =
      (if \<bar>rd s3 b 0\<bar> < pivot_eps then (d, s3)
       else if ok then (x, backSubst_st cp dp x (n - 1) s7)
       else (d, s6))"
    unfolding thomasAlgorithm_st_def Let_def n_def[symmetric] a1 a2 a3 prod.case
      s4_def[symmetric] s5_def[symmetric] fs s7_def[symmetric]
    by (cases ok) simp_all
  show ?thesis
    unfolding unf using e3 l3 e6 l6 e8 l8 by (auto simp: x_def)
qed

lemma dirichletRows_st_frame:
  assumes "extends s0 s" and "length s0 \<le> a" "length s0 \<le> b" "length s0 \<le> c" "length s0 \<le> d"
  shows "extends s0 (dirichletRows_st n a b c d s)"
    and "length (dirichletRows_st n a b c d s) = length s"
  unfolding dirichletRows_st_def Let_def
  by (intro extends_wr assms, simp)

text \<open>
  A call that allocates the four arrays of a system, fills the right-hand side, writes
  the boundary rows and calls the solver leaves every array of an earlier store as it
  was; its result is one of the arrays allocated during the call.
\<close>

lemma system_call_frame:
  assumes "\<And>d t. extends s0 t \<Longrightarrow> length s0 \<le> d \<Longrightarrow>
             extends s0 (fill d t) \<and> length (fill d t) = length t"
    and "extends s0 s"
  shows "case (case alloc va s of (a, s) \<Rightarrow>
               case alloc vb s of (b, s) \<Rightarrow>
               case alloc vc s of (c, s) \<Rightarrow>
               case alloc (vd s) s of (d, s) \<Rightarrow>
                 thomasAlgorithm_st a b c d (dirichletRows_st n a b c d (fill d s))) of
           (res, s') \<Rightarrow> extends s0 s' \<and> length s \<le> res \<and> res < length s'
                          \<and> length s \<le> length s'"
proof -
  define a b c d where "a = length s" and "b = length s + 1" and "c = length s + 2"
    and "d = length s + 3"
  define s3 where "s3 = (s @ [va]) @ [vb] @ [vc]"
  define s4 where "s4 = s3 @ [vd s3]"
  have l0: "length s0 \<le> length s" using assms(2) by (simp add: extends_def)
  have "extends s s4" by (simp add: s4_def s3_def extends_def nth_append)
  with assms(2) have e4: "extends s0 s4" by (rule extends_trans)
  have l4: "length s4 = length s + 4" by (simp add: s4_def s3_def)
  have ld: "length s0 \<le> d" using l0 by (simp add: d_def)
  from assms(1)[OF e4 ld] have e5: "extends s0 (fill d s4)"
    and l5: "length (fill d s4) = length s + 4"
    by (simp_all add: l4)
  have la: "length s0 \<le> a" and lb: "length s0 \<le> b" and lc: "length s0 \<le> c"
    using l0 by (simp_all add: a_def b_def c_def)
  have e6: "extends s0 (dirichletRows_st n a b c d (fill d s4))"
    by (rule dirichletRows_st_frame(1)[OF e5 la lb lc ld])
  have l6: "length (dirichletRows_st n a b c d (fill d s4)) = length s + 4"
    unfolding dirichletRows_st_frame(2)[OF e5 la lb lc ld] by (rule l5)
  obtain res s' where
    t: "thomasAlgorithm_st a b c d (dirichletRows_st n a b c d (fill d s4)) = (res, s')"
    by (cases "thomasAlgorithm_st a b c d (dirichletRows_st n a b c d (fill d s4))") auto
  from thomasAlgorithm_st_frame[where a = a and b = b and c = c and d = d
      and s = "dirichletRows_st n a b c d (fill d s4)"] t
  have e7: "extends (dirichletRows_st n a b c d (fill d s4)) s'"
    and l7: "length s' = length s + 7" and r: "res = d \<or> res = length s + 6"
    by (auto simp: l6)
  have "extends s0 s'" by (rule extends_trans[OF e6 e7])
  moreover have "length s \<le> res \<and> res < length s'" using r l7 by (auto simp: d_def)
  moreover have "(case alloc va s of (a, s) \<Rightarrow>
               case alloc vb s of (b, s) \<Rightarrow>
               case alloc vc s of (c, s) \<Rightarrow>
               case alloc (vd s) s of (d, s) \<Rightarrow>
                 thomasAlgorithm_st a b c d (dirichletRows_st n a b c d (fill d s))) = (res, s')"
    using t by (simp add: alloc_eq a_def b_def c_def d_def s4_def s3_def eval_nat_numeral)
  ultimately show ?thesis using l7 by simp
qed

lemma backwardEuler_st_frame:
  "case backwardEuler_st u r s of (res, s') \<Rightarrow>
     extends s s' \<and> length s \<le> res \<and> res < length s' \<and> length s \<le> length s'"
  unfolding backwardEuler_st_def Let_def
  by (rule system_call_frame[where vd = "\<lambda>t. t ! u" and fill = "\<lambda>d t. t"]) simp_all

lemma crankNicolson_st_frame:
  "case crankNicolson_st u r s of (res, s') \<Rightarrow>
     extends s s' \<and> length s \<le> res \<and> res < length s' \<and> length s \<le> length s'"
  unfolding crankNicolson_st_def Let_def
  by (rule system_call_frame[where vd = "\<lambda>t. replicate (length (s ! u)) (Num 0)"
        and fill = "\<lambda>d t. fold (\<lambda>i s. wr d i (Num (_ i s)) s) _ t"])
    (auto intro: fold_wr_extends)

lemma solveLine_st_frame:
  assumes "extends s0 s"
  shows "case solveLine_st n off dg idx val s of (res, s') \<Rightarrow>
     extends s0 s' \<and> length s \<le> res \<and> res < length s' \<and> length s \<le> length s'"
  unfolding solveLine_st_def Let_def
  by (rule system_call_frame[where vd = "\<lambda>t. replicate n (Num 0)"
        and fill = "\<lambda>d t. fold (\<lambda>i s. wr d i (Num (val i s)) s) idx t"])
    (auto intro: fold_wr_extends assms)

section \<open>Grids on the store\<close>

lemma changes_only_refl [simp]: "changes_only lo hi g s s"
  by (simp add: changes_only_def)

lemma changes_only_trans:
  "changes_only lo hi g s t \<Longrightarrow> changes_only lo hi g t r \<Longrightarrow> changes_only lo hi g s r"
  unfolding changes_only_def by (metis (no_types, lifting) le_trans less_le_trans)

lemma changes_only_extends: "extends s t \<Longrightarrow> changes_only lo hi g s t"
  by (simp add: changes_only_def extends_def)

lemma changes_only_wr:
  "lo \<le> q \<Longrightarrow> q < hi \<Longrightarrow> q \<noteq> g \<Longrightarrow> changes_only lo hi g s (wr q j v s)"
  by (auto simp: changes_only_def wr_other)

lemma changes_only_frame:
  "changes_only lo hi g s t \<Longrightarrow> extends s0 s \<Longrightarrow> length s0 \<le> lo \<Longrightarrow> extends s0 t"
  unfolding changes_only_def extends_def
  by (metis (no_types, lifting) le_trans less_le_trans)

lemma changes_only_grid:
  assumes "changes_only lo hi g s t" and "grid_in lo hi s g Nx Ny"
  shows "grid_in lo hi t g Nx Ny"
proof -
  from assms(2) have g: "lo \<le> g" "g < hi" "hi \<le> length s" "length (s ! g) = Nx"
    and rows: "\<forall>i<Nx. \<exists>q. s ! g ! i = Ref q \<and> lo \<le> q \<and> q < hi \<and> q \<noteq> g
                 \<and> length (s ! q) = Ny"
    by (simp_all add: grid_in_def)
  have gl: "g < length s" using g by simp
  from assms(1) have len: "length s \<le> length t"
    and same: "\<And>p. p < length s \<Longrightarrow> length (t ! p) = length (s ! p)"
    by (auto simp: changes_only_def)
  from assms(1) gl have keep: "t ! g = s ! g"
    unfolding changes_only_def by blast
  have "\<exists>q. t ! g ! i = Ref q \<and> lo \<le> q \<and> q < hi \<and> q \<noteq> g \<and> length (t ! q) = Ny"
    if "i < Nx" for i
  proof -
    from rows that obtain q where q: "s ! g ! i = Ref q" "lo \<le> q" "q < hi" "q \<noteq> g"
      "length (s ! q) = Ny" by blast
    then have "length (t ! q) = Ny" using same[of q] g(3) by simp
    with q show ?thesis unfolding keep by blast
  qed
  then show ?thesis
    using g len keep by (simp add: grid_in_def)
qed

lemma changes_only_other:
  assumes "changes_only lo hi g s t" and "grid_in lo' hi' s g' Nx Ny" and "hi \<le> lo'"
  shows "grid_in lo' hi' t g' Nx Ny"
proof -
  from assms(2) have g: "lo' \<le> g'" "g' < hi'" "hi' \<le> length s" "length (s ! g') = Nx"
    and rows: "\<forall>i<Nx. \<exists>q. s ! g' ! i = Ref q \<and> lo' \<le> q \<and> q < hi' \<and> q \<noteq> g'
                 \<and> length (s ! q) = Ny"
    by (simp_all add: grid_in_def)
  have gl: "g' < length s" "hi \<le> g'" using g assms(3) by simp_all
  from assms(1) have len: "length s \<le> length t"
    and same: "\<And>p. p < length s \<Longrightarrow> length (t ! p) = length (s ! p)"
    by (auto simp: changes_only_def)
  from assms(1) gl have keep: "t ! g' = s ! g'"
    unfolding changes_only_def by blast
  have "\<exists>q. t ! g' ! i = Ref q \<and> lo' \<le> q \<and> q < hi' \<and> q \<noteq> g' \<and> length (t ! q) = Ny"
    if "i < Nx" for i
  proof -
    from rows that obtain q where q: "s ! g' ! i = Ref q" "lo' \<le> q" "q < hi'" "q \<noteq> g'"
      "length (s ! q) = Ny" by blast
    then have "length (t ! q) = Ny" using same[of q] g(3) by simp
    with q show ?thesis unfolding keep by blast
  qed
  then show ?thesis
    using g len keep by (simp add: grid_in_def)
qed

lemma grid_in_row:
  assumes "grid_in lo hi s g Nx Ny" and "i < Nx"
  shows "lo \<le> rowAt s g i" "rowAt s g i < hi" "rowAt s g i \<noteq> g"
  using assms by (auto simp: grid_in_def rowAt_def)

lemma grid_in_widen:
  "grid_in lo hi s g Nx Ny \<Longrightarrow> lo' \<le> lo \<Longrightarrow> hi \<le> hi' \<Longrightarrow> hi' \<le> length s \<Longrightarrow>
     grid_in lo' hi' s g Nx Ny"
  unfolding grid_in_def by (meson le_trans less_le_trans)

text \<open>The loops that copy a solved line into a column or a row of a grid.\<close>

lemma writeColumn_st_changes:
  assumes "grid_in lo hi s g Nx Ny"
  shows "changes_only lo hi g s (writeColumn_st g Nx j res s)"
proof -
  have "changes_only lo hi g s (fold (\<lambda>i s. wr (rowAt s g i) j (Num (rd s res i)) s) xs s)"
    if "set xs \<subseteq> {0..<Nx}" for xs
    using that
  proof (induction xs rule: rev_induct)
    case Nil
    then show ?case by simp
  next
    case (snoc x xs)
    define t where "t = fold (\<lambda>i s. wr (rowAt s g i) j (Num (rd s res i)) s) xs s"
    have c: "changes_only lo hi g s t" unfolding t_def using snoc by simp
    then have gt: "grid_in lo hi t g Nx Ny" using assms by (rule changes_only_grid)
    have x: "x < Nx" using snoc.prems by simp
    have "changes_only lo hi g t (wr (rowAt t g x) j (Num (rd t res x)) t)"
      by (intro changes_only_wr grid_in_row[OF gt x])
    with c show ?case
      unfolding fold_append comp_def t_def[symmetric] by (simp add: changes_only_trans)
  qed
  then show ?thesis unfolding writeColumn_st_def by simp
qed

lemma writeRow_st_changes:
  assumes "grid_in lo hi s g Nx Ny" and "i < Nx"
  shows "changes_only lo hi g s (writeRow_st g Ny' i res s)"
proof -
  have "changes_only lo hi g s (fold (\<lambda>j s. wr (rowAt s g i) j (Num (rd s res j)) s) xs s)"
    for xs
  proof (induction xs rule: rev_induct)
    case Nil
    then show ?case by simp
  next
    case (snoc x xs)
    define t where "t = fold (\<lambda>j s. wr (rowAt s g i) j (Num (rd s res j)) s) xs s"
    have c: "changes_only lo hi g s t" unfolding t_def using snoc by simp
    then have gt: "grid_in lo hi t g Nx Ny" using assms(1) by (rule changes_only_grid)
    have "changes_only lo hi g t (wr (rowAt t g i) x (Num (rd t res x)) t)"
      by (intro changes_only_wr grid_in_row[OF gt assms(2)])
    with c show ?case
      unfolding fold_append comp_def t_def[symmetric] by (simp add: changes_only_trans)
  qed
  then show ?thesis unfolding writeRow_st_def by simp
qed

text \<open>One iteration of a sweep: solve a line, copy it into the grid.\<close>

lemma column_step_changes:
  assumes "grid_in lo hi s g Nx Ny"
  shows "changes_only lo hi g s
     (case solveLine_st n off dg idx val s of (res, s) \<Rightarrow> writeColumn_st g Nx j res s)"
proof -
  obtain res t where sl: "solveLine_st n off dg idx val s = (res, t)"
    by (cases "solveLine_st n off dg idx val s") auto
  from solveLine_st_frame[OF extends_refl, where n = n and off = off and dg = dg
      and idx = idx and val = val and s = s] sl
  have e: "extends s t" by simp
  then have c: "changes_only lo hi g s t" by (rule changes_only_extends)
  then have "grid_in lo hi t g Nx Ny" using assms by (rule changes_only_grid)
  then have "changes_only lo hi g t (writeColumn_st g Nx j res t)"
    by (rule writeColumn_st_changes)
  with c show ?thesis unfolding sl by (simp add: changes_only_trans)
qed

lemma row_step_changes:
  assumes "grid_in lo hi s g Nx Ny" and "i < Nx"
  shows "changes_only lo hi g s
     (case solveLine_st n off dg idx val s of (res, s) \<Rightarrow> writeRow_st g Ny' i res s)"
proof -
  obtain res t where sl: "solveLine_st n off dg idx val s = (res, t)"
    by (cases "solveLine_st n off dg idx val s") auto
  from solveLine_st_frame[OF extends_refl, where n = n and off = off and dg = dg
      and idx = idx and val = val and s = s] sl
  have e: "extends s t" by simp
  then have c: "changes_only lo hi g s t" by (rule changes_only_extends)
  then have "grid_in lo hi t g Nx Ny" using assms(1) by (rule changes_only_grid)
  then have "changes_only lo hi g t (writeRow_st g Ny' i res t)"
    using assms(2) by (rule writeRow_st_changes)
  with c show ?thesis unfolding sl by (simp add: changes_only_trans)
qed

text \<open>A loop whose every iteration changes only the rows of the grid does so as a
  whole.\<close>

lemma sweep_changes:
  assumes "grid_in lo hi s g Nx Ny"
    and "\<And>x t. x \<in> set xs \<Longrightarrow> grid_in lo hi t g Nx Ny \<Longrightarrow> changes_only lo hi g t (body x t)"
  shows "changes_only lo hi g s (fold body xs s)"
  using assms(2)
proof (induction xs rule: rev_induct)
  case Nil
  then show ?case by simp
next
  case (snoc x xs)
  have c: "changes_only lo hi g s (fold body xs s)"
    using snoc by simp
  then have "grid_in lo hi (fold body xs s) g Nx Ny" using assms(1) by (rule changes_only_grid)
  then have "changes_only lo hi g (fold body xs s) (body x (fold body xs s))"
    by (intro snoc.prems) simp
  with c show ?case by (simp add: changes_only_trans)
qed

lemma wr_same: "p < length s \<Longrightarrow> wr p i v s ! p = (s ! p)[i := v]"
  by (simp add: wr_def)

text \<open>Allocating a grid leaves the earlier store as it was and yields an outer array
  whose cells refer to new rows.\<close>

lemma allocGrid_rows:
  fixes s :: store and Ny :: nat
  defines "g \<equiv> length s + 1"
  defines "body \<equiv> (\<lambda>i t. case alloc (replicate Ny (Num 0)) t of (row, t) \<Rightarrow> wr g i (Ref row) t)"
  assumes "extends s t0" and "length t0 = length s + 2" and "length (t0 ! g) = Nx"
  shows "k \<le> Nx \<Longrightarrow>
     length (fold body [0..<k] t0) = length s + 2 + k
     \<and> extends s (fold body [0..<k] t0)
     \<and> length (fold body [0..<k] t0 ! g) = Nx
     \<and> (\<forall>i<k. fold body [0..<k] t0 ! g ! i = Ref (length s + 2 + i)
            \<and> length (fold body [0..<k] t0 ! (length s + 2 + i)) = Ny)"
proof (induction k)
  case 0
  then show ?case using assms(3,4,5) by simp
next
  case (Suc k)
  define t where "t = fold body [0..<k] t0"
  from Suc have ih: "length t = length s + 2 + k" "extends s t" "length (t ! g) = Nx"
    "\<forall>i<k. t ! g ! i = Ref (length s + 2 + i) \<and> length (t ! (length s + 2 + i)) = Ny"
    by (simp_all add: t_def)
  define t' where "t' = wr g k (Ref (length t)) (t @ [replicate Ny (Num 0)])"
  have step: "fold body [0..<Suc k] t0 = t'"
    by (simp add: t_def t'_def body_def alloc_eq)
  have gl: "g < length t" using ih(1) by (simp add: g_def)
  have k: "k < Nx" using Suc.prems by simp
  have row_g: "t' ! g = (t ! g)[k := Ref (length t)]"
    unfolding t'_def using gl by (simp add: wr_same nth_append)
  have other: "t' ! q = (t @ [replicate Ny (Num 0)]) ! q" if "q \<noteq> g" for q
    unfolding t'_def using that by (simp add: wr_other)
  have l: "length t' = length s + 2 + Suc k" by (simp add: t'_def ih(1))
  have e: "extends s t'"
    unfolding t'_def
    by (intro extends_wr extends_trans[OF ih(2) extends_append]) (simp add: g_def)
  have lg: "length (t' ! g) = Nx" by (simp add: row_g ih(3))
  have cells: "t' ! g ! i = Ref (length s + 2 + i) \<and> length (t' ! (length s + 2 + i)) = Ny"
    if "i < Suc k" for i
  proof (cases "i = k")
    case True
    have "t' ! g ! k = Ref (length t)" using k ih(3) by (simp add: row_g)
    moreover have "t' ! (length t) = replicate Ny (Num 0)"
      using gl by (simp add: other)
    ultimately show ?thesis using True ih(1) by simp
  next
    case False
    with that have i: "i < k" by simp
    then have "t' ! g ! i = Ref (length s + 2 + i)" using ih(4) by (simp add: row_g)
    moreover have "t' ! (length s + 2 + i) = t ! (length s + 2 + i)"
      using i ih(1) by (simp add: other g_def nth_append)
    ultimately show ?thesis using ih(4) i by simp
  qed
  show ?case unfolding step using l e lg cells by blast
qed

lemma allocGrid_frame:
  "case allocGrid Nx Ny s of (g, s') \<Rightarrow>
     extends s s' \<and> grid_in (length s) (length s') s' g Nx Ny"
proof -
  define t0 where "t0 = (s @ [replicate Nx (Num 0)]) @ [replicate Nx (Num 0)]"
  define g where "g = length s + 1"
  define body where
    "body = (\<lambda>i t. case alloc (replicate Ny (Num 0)) t of (row, t) \<Rightarrow> wr g i (Ref row) t)"
  have a: "allocGrid Nx Ny s = (g, fold body [0..<Nx] t0)"
    by (simp add: allocGrid_def alloc_eq t0_def g_def body_def)
  have e0: "extends s t0" by (simp add: t0_def extends_def nth_append)
  have l0: "length t0 = length s + 2" by (simp add: t0_def)
  have g0: "length (t0 ! (length s + 1)) = Nx" by (simp add: t0_def nth_append)
  from allocGrid_rows[OF e0 l0 g0, of Nx Ny]
  have r: "length (fold body [0..<Nx] t0) = length s + 2 + Nx"
    "extends s (fold body [0..<Nx] t0)"
    "length (fold body [0..<Nx] t0 ! g) = Nx"
    "\<forall>i<Nx. fold body [0..<Nx] t0 ! g ! i = Ref (length s + 2 + i)
            \<and> length (fold body [0..<Nx] t0 ! (length s + 2 + i)) = Ny"
    by (simp_all add: body_def g_def)
  have "grid_in (length s) (length (fold body [0..<Nx] t0)) (fold body [0..<Nx] t0) g Nx Ny"
    unfolding grid_in_def using r by (auto simp: g_def)
  with r(2) show ?thesis unfolding a by simp
qed

section \<open>The two-dimensional steppers on the store\<close>

lemma fresh_result:
  assumes "extends s0 s1" and "grid_in lo hi s1 g Nx Ny" and "length s0 \<le> lo"
    and "changes_only lo hi g s1 s2"
  shows "extends s0 s2 \<and> fresh_grid s0 s2 g Nx Ny"
proof -
  have e: "extends s0 s2" by (rule changes_only_frame[OF assms(4,1,3)])
  have g2: "grid_in lo hi s2 g Nx Ny" by (rule changes_only_grid[OF assms(4,2)])
  then have "hi \<le> length s2" by (simp add: grid_in_def)
  with g2 assms(3) have "grid_in (length s0) (length s2) s2 g Nx Ny"
    by (intro grid_in_widen[OF g2]) simp_all
  with e show ?thesis by (simp add: fresh_grid_def)
qed

lemma row_cells_changes:
  assumes "grid_in lo hi s g Nx Ny" and "i < Nx"
  shows "changes_only lo hi g s (fold (\<lambda>j s. wr (rowAt s g i) j (v j s) s) xs s)"
proof (induction xs rule: rev_induct)
  case Nil
  then show ?case by simp
next
  case (snoc x xs)
  define t where "t = fold (\<lambda>j s. wr (rowAt s g i) j (v j s) s) xs s"
  have c: "changes_only lo hi g s t" unfolding t_def using snoc by simp
  then have gt: "grid_in lo hi t g Nx Ny" using assms(1) by (rule changes_only_grid)
  have "changes_only lo hi g t (wr (rowAt t g i) x (v x t) t)"
    by (intro changes_only_wr grid_in_row[OF gt assms(2)])
  with c show ?case
    unfolding fold_append comp_def t_def[symmetric] by (simp add: changes_only_trans)
qed

lemma forwardEuler2D_st_frame:
  assumes "s ! u \<noteq> []"
  shows "\<exists>res s'. forwardEuler2D_st u rx ry s = Inr (res, s') \<and> extends s s'
           \<and> fresh_grid s s' res (length (s ! u)) (length (s ! rowAt s u 0))"
proof -
  define Nx Ny where "Nx = length (s ! u)" and "Ny = length (s ! rowAt s u 0)"
  obtain g s1 where ag: "allocGrid Nx Ny s = (g, s1)"
    by (cases "allocGrid Nx Ny s") auto
  from allocGrid_frame[where Nx = Nx and Ny = Ny and s = s] ag
  have e1: "extends s s1" and g1: "grid_in (length s) (length s1) s1 g Nx Ny" by simp_all
  define s2 where "s2 = fold (\<lambda>i s.
               fold (\<lambda>j s.
                 wr (rowAt s g i) j
                   (Num (rd2 s u i j
                      + rx * (rd2 s u (i + 1) j - 2 * rd2 s u i j + rd2 s u (i - 1) j)
                      + ry * (rd2 s u i (j + 1) - 2 * rd2 s u i j + rd2 s u i (j - 1)))) s)
                 [1..<Ny - 1] s)
               [1..<Nx - 1] s1"
  have c: "changes_only (length s) (length s1) g s1 s2"
    unfolding s2_def
    by (rule sweep_changes[OF g1], rule row_cells_changes) auto
  have "forwardEuler2D_st u rx ry s = Inr (g, s2)"
    unfolding forwardEuler2D_st_def Let_def Nx_def[symmetric] Ny_def[symmetric]
        ag prod.case s2_def[symmetric]
    using assms by simp
  with fresh_result[OF e1 g1 le_refl c] show ?thesis
    by (simp add: Nx_def Ny_def)
qed

lemma backwardEulerADI_st_frame:
  assumes "s ! u \<noteq> []"
  shows "\<exists>res s'. backwardEulerADI_st u rx ry s = Inr (res, s') \<and> extends s s'
           \<and> fresh_grid s s' res (length (s ! u)) (length (s ! rowAt s u 0))"
proof -
  define Nx Ny where "Nx = length (s ! u)" and "Ny = length (s ! rowAt s u 0)"
  obtain g1 s1 where ag1: "allocGrid Nx Ny s = (g1, s1)"
    by (cases "allocGrid Nx Ny s") auto
  from allocGrid_frame[where Nx = Nx and Ny = Ny and s = s] ag1
  have e1: "extends s s1" and gr1: "grid_in (length s) (length s1) s1 g1 Nx Ny" by simp_all
  define s2 where "s2 = fold (\<lambda>j s.
                      case solveLine_st Nx (- rx) (1 + 2 * rx) [0..<Nx] (\<lambda>i s. rd2 s u i j) s of
                        (res, s) \<Rightarrow> writeColumn_st g1 Nx j res s)
                      [1..<Ny - 1] s1"
  have c1: "changes_only (length s) (length s1) g1 s1 s2"
    unfolding s2_def by (rule sweep_changes[OF gr1], rule column_step_changes)
  have e2: "extends s s2" by (rule changes_only_frame[OF c1 e1 le_refl])
  obtain g2 s3 where ag2: "allocGrid Nx Ny s2 = (g2, s3)"
    by (cases "allocGrid Nx Ny s2") auto
  from allocGrid_frame[where Nx = Nx and Ny = Ny and s = s2] ag2
  have e3: "extends s2 s3" and gr2: "grid_in (length s2) (length s3) s3 g2 Nx Ny" by simp_all
  have e3': "extends s s3" by (rule extends_trans[OF e2 e3])
  have l2: "length s \<le> length s2" using e2 by (simp add: extends_def)
  define s4 where "s4 = fold (\<lambda>i s.
                     case solveLine_st Ny (- ry) (1 + 2 * ry) [0..<Ny]
                            (\<lambda>j s. rd2 s g1 i j) s of
                       (res, s) \<Rightarrow> writeRow_st g2 Ny i res s)
                     [1..<Nx - 1] s3"
  have c2: "changes_only (length s2) (length s3) g2 s3 s4"
    unfolding s4_def by (rule sweep_changes[OF gr2], rule row_step_changes) auto
  have "backwardEulerADI_st u rx ry s = Inr (g2, s4)"
    unfolding backwardEulerADI_st_def Let_def Nx_def[symmetric] Ny_def[symmetric]
        ag1 prod.case s2_def[symmetric] ag2 s4_def[symmetric]
    using assms by simp
  with fresh_result[OF e3' gr2 l2 c2] show ?thesis
    by (simp add: Nx_def Ny_def)
qed

text \<open>
  A stepper that allocates both grids first, sweeps along \<open>x\<close> into the first and then
  along \<open>y\<close> into the second: nothing of the caller's store changes, and the second
  grid is fresh.
\<close>

lemma two_grid_frame:
  assumes ag1: "allocGrid Nx Ny s = (g1, s1)" and ag2: "allocGrid Nx Ny s1 = (g2, s2)"
    and c1: "\<And>t. grid_in (length s) (length s1) t g1 Nx Ny \<Longrightarrow>
               changes_only (length s) (length s1) g1 t (sweep1 t)"
    and c2: "\<And>t. grid_in (length s1) (length s2) t g2 Nx Ny \<Longrightarrow>
               changes_only (length s1) (length s2) g2 t (sweep2 t)"
  shows "extends s (sweep2 (sweep1 s2)) \<and> fresh_grid s (sweep2 (sweep1 s2)) g2 Nx Ny"
proof -
  from allocGrid_frame[where Nx = Nx and Ny = Ny and s = s] ag1
  have e1: "extends s s1" and gr1: "grid_in (length s) (length s1) s1 g1 Nx Ny" by simp_all
  from allocGrid_frame[where Nx = Nx and Ny = Ny and s = s1] ag2
  have e2: "extends s1 s2" and gr2: "grid_in (length s1) (length s2) s2 g2 Nx Ny" by simp_all
  have gr1': "grid_in (length s) (length s1) s2 g1 Nx Ny"
    by (rule changes_only_grid[OF changes_only_extends[OF e2] gr1])
  have ch1: "changes_only (length s) (length s1) g1 s2 (sweep1 s2)"
    by (rule c1[OF gr1'])
  have e3: "extends s (sweep1 s2)"
    by (rule changes_only_frame[OF ch1 extends_trans[OF e1 e2] le_refl])
  have gr2': "grid_in (length s1) (length s2) (sweep1 s2) g2 Nx Ny"
    by (rule changes_only_other[OF ch1 gr2 le_refl])
  have l1: "length s \<le> length s1" using e1 by (simp add: extends_def)
  show ?thesis
    by (rule fresh_result[OF e3 gr2' l1 c2[OF gr2']])
qed

lemma crankNicolsonADI_st_frame:
  assumes "s ! u \<noteq> []"
  shows "\<exists>res s'. crankNicolsonADI_st u rx ry s = Inr (res, s') \<and> extends s s'
           \<and> fresh_grid s s' res (length (s ! u)) (length (s ! rowAt s u 0))"
proof -
  define Nx Ny where "Nx = length (s ! u)" and "Ny = length (s ! rowAt s u 0)"
  obtain g1 s1 where ag1: "allocGrid Nx Ny s = (g1, s1)"
    by (cases "allocGrid Nx Ny s") auto
  obtain g2 s2 where ag2: "allocGrid Nx Ny s1 = (g2, s2)"
    by (cases "allocGrid Nx Ny s1") auto
  define sweep1 where "sweep1 = fold (\<lambda>j s.
                      case solveLine_st Nx (- (rx / 2)) (1 + rx) [1..<Nx - 1]
                             (\<lambda>i s. rd2 s u i j
                                + ry / 2 * (rd2 s u i (j + 1) - 2 * rd2 s u i j + rd2 s u i (j - 1)))
                             s of
                        (res, s) \<Rightarrow> writeColumn_st g1 Nx j res s)
                      [1..<Ny - 1]"
  define sweep2 where "sweep2 = fold (\<lambda>i s.
                   case solveLine_st Ny (- (ry / 2)) (1 + ry) [1..<Ny - 1]
                          (\<lambda>j s. rd2 s g1 i j
                             + rx / 2 * (rd2 s g1 (i + 1) j - 2 * rd2 s g1 i j
                                        + rd2 s g1 (i - 1) j))
                          s of
                     (res, s) \<Rightarrow> writeRow_st g2 Ny i res s)
                   [1..<Nx - 1]"
  have c1: "changes_only (length s) (length s1) g1 t (sweep1 t)"
    if "grid_in (length s) (length s1) t g1 Nx Ny" for t
    unfolding sweep1_def by (rule sweep_changes[OF that], rule column_step_changes)
  have c2: "changes_only (length s1) (length s2) g2 t (sweep2 t)"
    if "grid_in (length s1) (length s2) t g2 Nx Ny" for t
    unfolding sweep2_def by (rule sweep_changes[OF that], rule row_step_changes) auto
  have "crankNicolsonADI_st u rx ry s = Inr (g2, sweep2 (sweep1 s2))"
    unfolding crankNicolsonADI_st_def Let_def Nx_def[symmetric] Ny_def[symmetric]
        ag1 prod.case ag2 sweep1_def sweep2_def
    using assms by simp
  with two_grid_frame[OF ag1 ag2 c1 c2] show ?thesis
    by (simp add: Nx_def Ny_def)
qed

lemma backwardEuler2D_ADI_st_frame:
  assumes "s ! u \<noteq> []"
  shows "\<exists>res s'. backwardEuler2D_ADI_st u rx ry s = Inr (res, s') \<and> extends s s'
           \<and> fresh_grid s s' res (length (s ! u)) (length (s ! rowAt s u 0))"
proof -
  define Nx Ny where "Nx = length (s ! u)" and "Ny = length (s ! rowAt s u 0)"
  obtain g1 s1 where ag1: "allocGrid Nx Ny s = (g1, s1)"
    by (cases "allocGrid Nx Ny s") auto
  obtain g2 s2 where ag2: "allocGrid Nx Ny s1 = (g2, s2)"
    by (cases "allocGrid Nx Ny s1") auto
  define sweep1 where "sweep1 = fold (\<lambda>j s.
                      case solveLine_st Nx (- rx) (1 + 2 * rx) [1..<Nx - 1]
                             (\<lambda>i s. rd2 s u i j) s of
                        (sol, s) \<Rightarrow> writeColumn_st g1 Nx j sol s)
                      [0..<Ny]"
  define sweep2 where "sweep2 = fold (\<lambda>i s.
                   case solveLine_st Ny (- ry) (1 + 2 * ry) [1..<Ny - 1]
                          (\<lambda>j s. rd2 s g1 i j) s of
                     (sol, s) \<Rightarrow> writeRow_st g2 Ny i sol s)
                   [0..<Nx]"
  have c1: "changes_only (length s) (length s1) g1 t (sweep1 t)"
    if "grid_in (length s) (length s1) t g1 Nx Ny" for t
    unfolding sweep1_def by (rule sweep_changes[OF that], rule column_step_changes)
  have c2: "changes_only (length s1) (length s2) g2 t (sweep2 t)"
    if "grid_in (length s1) (length s2) t g2 Nx Ny" for t
    unfolding sweep2_def by (rule sweep_changes[OF that], rule row_step_changes) auto
  have "backwardEuler2D_ADI_st u rx ry s = Inr (g2, sweep2 (sweep1 s2))"
    unfolding backwardEuler2D_ADI_st_def Let_def Nx_def[symmetric] Ny_def[symmetric]
        ag1 prod.case ag2 sweep1_def sweep2_def
    using assms by simp
  with two_grid_frame[OF ag1 ag2 c1 c2] show ?thesis
    by (simp add: Nx_def Ny_def)
qed

lemma crankNicolson2D_ADI_st_frame:
  assumes "s ! u \<noteq> []"
  shows "\<exists>res s'. crankNicolson2D_ADI_st u rx ry s = Inr (res, s') \<and> extends s s'
           \<and> fresh_grid s s' res (length (s ! u)) (length (s ! rowAt s u 0))"
proof -
  define Nx Ny where "Nx = length (s ! u)" and "Ny = length (s ! rowAt s u 0)"
  obtain g1 s1 where ag1: "allocGrid Nx Ny s = (g1, s1)"
    by (cases "allocGrid Nx Ny s") auto
  obtain g2 s2 where ag2: "allocGrid Nx Ny s1 = (g2, s2)"
    by (cases "allocGrid Nx Ny s1") auto
  define sweep1 where "sweep1 = fold (\<lambda>j s.
                      case solveLine_st Nx (- (rx / 2)) (1 + rx) [1..<Nx - 1]
                             (\<lambda>i s. (1 - rx) * rd2 s u i j
                                + rx / 2 * (rd2 s u (i + 1) j + rd2 s u (i - 1) j))
                             s of
                        (sol, s) \<Rightarrow> writeColumn_st g1 Nx j sol s)
                      [0..<Ny]"
  define sweep2 where "sweep2 = fold (\<lambda>i s.
                   case solveLine_st Ny (- (ry / 2)) (1 + ry) [1..<Ny - 1]
                          (\<lambda>j s. (1 - ry) * rd2 s g1 i j
                             + ry / 2 * (rd2 s g1 i (j + 1) + rd2 s g1 i (j - 1)))
                          s of
                     (sol, s) \<Rightarrow> writeRow_st g2 Ny i sol s)
                   [0..<Nx]"
  have c1: "changes_only (length s) (length s1) g1 t (sweep1 t)"
    if "grid_in (length s) (length s1) t g1 Nx Ny" for t
    unfolding sweep1_def by (rule sweep_changes[OF that], rule column_step_changes)
  have c2: "changes_only (length s1) (length s2) g2 t (sweep2 t)"
    if "grid_in (length s1) (length s2) t g2 Nx Ny" for t
    unfolding sweep2_def by (rule sweep_changes[OF that], rule row_step_changes) auto
  have "crankNicolson2D_ADI_st u rx ry s = Inr (g2, sweep2 (sweep1 s2))"
    unfolding crankNicolson2D_ADI_st_def Let_def Nx_def[symmetric] Ny_def[symmetric]
        ag1 prod.case ag2 sweep1_def sweep2_def
    using assms by simp
  with two_grid_frame[OF ag1 ag2 c1 c2] show ?thesis
    by (simp add: Nx_def Ny_def)
qed

section \<open>No stepper changes its argument\<close>

text \<open>
  C10. After a call of any stepper every array that existed before the call holds the
  values it held, in particular the argument \<open>u\<close> (and, in two dimensions, its rows), and
  the result is an array allocated during the call: different from \<open>u\<close>, and in two
  dimensions with rows allocated during the call as well. This holds for every
  diffusion number, so also when the solver returns early on a degenerate pivot: what
  it then returns is the right-hand side array that the stepper has allocated.
\<close>

theorem steppers_do_not_mutate_input:
  assumes "v < length t" and "u < length s" and "s ! u \<noteq> []"
  shows "(case forwardEuler_st v r t of (res, t') \<Rightarrow>
            extends t t' \<and> t' ! v = t ! v \<and> length t \<le> res \<and> res < length t' \<and> res \<noteq> v)
       \<and> (case backwardEuler_st v r t of (res, t') \<Rightarrow>
            extends t t' \<and> t' ! v = t ! v \<and> length t \<le> res \<and> res < length t' \<and> res \<noteq> v)
       \<and> (case crankNicolson_st v r t of (res, t') \<Rightarrow>
            extends t t' \<and> t' ! v = t ! v \<and> length t \<le> res \<and> res < length t' \<and> res \<noteq> v)
       \<and> (\<exists>res s'. forwardEuler2D_st u rx ry s = Inr (res, s') \<and> extends s s' \<and> s' ! u = s ! u
             \<and> res \<noteq> u \<and> fresh_grid s s' res (length (s ! u)) (length (s ! rowAt s u 0)))
       \<and> (\<exists>res s'. backwardEulerADI_st u rx ry s = Inr (res, s') \<and> extends s s' \<and> s' ! u = s ! u
             \<and> res \<noteq> u \<and> fresh_grid s s' res (length (s ! u)) (length (s ! rowAt s u 0)))
       \<and> (\<exists>res s'. crankNicolsonADI_st u rx ry s = Inr (res, s') \<and> extends s s' \<and> s' ! u = s ! u
             \<and> res \<noteq> u \<and> fresh_grid s s' res (length (s ! u)) (length (s ! rowAt s u 0)))
       \<and> (\<exists>res s'. backwardEuler2D_ADI_st u rx ry s = Inr (res, s') \<and> extends s s' \<and> s' ! u = s ! u
             \<and> res \<noteq> u \<and> fresh_grid s s' res (length (s ! u)) (length (s ! rowAt s u 0)))
       \<and> (\<exists>res s'. crankNicolson2D_ADI_st u rx ry s = Inr (res, s') \<and> extends s s' \<and> s' ! u = s ! u
             \<and> res \<noteq> u \<and> fresh_grid s s' res (length (s ! u)) (length (s ! rowAt s u 0)))"
proof -
  have one: "extends t t' \<and> t' ! v = t ! v \<and> length t \<le> res \<and> res < length t' \<and> res \<noteq> v"
    if "extends t t'" "length t \<le> res" "res < length t'" for res t'
    using that assms(1) by (auto simp: extends_def)
  have two: "\<exists>res s'. f = Inr (res, s') \<and> extends s s' \<and> s' ! u = s ! u
             \<and> res \<noteq> u \<and> fresh_grid s s' res (length (s ! u)) (length (s ! rowAt s u 0))"
    if "\<exists>res s'. f = Inr (res, s') \<and> extends s s'
           \<and> fresh_grid s s' res (length (s ! u)) (length (s ! rowAt s u 0))"
    for f :: "error + nat \<times> store"
  proof -
    from that obtain res s' where f: "f = Inr (res, s')" "extends s s'"
      "fresh_grid s s' res (length (s ! u)) (length (s ! rowAt s u 0))" by blast
    have "s' ! u = s ! u" using f(2) assms(2) by (simp add: extends_def)
    moreover have "res \<noteq> u" using f(3) assms(2) by (auto simp: fresh_grid_def grid_in_def)
    ultimately show ?thesis using f by blast
  qed
  have a: "case forwardEuler_st v r t of (res, t') \<Rightarrow>
            extends t t' \<and> t' ! v = t ! v \<and> length t \<le> res \<and> res < length t' \<and> res \<noteq> v"
    using forwardEuler_st_frame[where u = v and r = r and s = t] one by (auto split: prod.splits)
  have b: "case backwardEuler_st v r t of (res, t') \<Rightarrow>
            extends t t' \<and> t' ! v = t ! v \<and> length t \<le> res \<and> res < length t' \<and> res \<noteq> v"
    using backwardEuler_st_frame[where u = v and r = r and s = t] one by (auto split: prod.splits)
  have c: "case crankNicolson_st v r t of (res, t') \<Rightarrow>
            extends t t' \<and> t' ! v = t ! v \<and> length t \<le> res \<and> res < length t' \<and> res \<noteq> v"
    using crankNicolson_st_frame[where u = v and r = r and s = t] one by (auto split: prod.splits)
  show ?thesis
    using a b c two[OF forwardEuler2D_st_frame[OF assms(3)]]
      two[OF backwardEulerADI_st_frame[OF assms(3)]]
      two[OF crankNicolsonADI_st_frame[OF assms(3)]]
      two[OF backwardEuler2D_ADI_st_frame[OF assms(3)]]
      two[OF crankNicolson2D_ADI_st_frame[OF assms(3)]]
    by (intro conjI)
qed

theorem steppers_do_not_mutate_input_witness:
  "(0 :: nat) < length store_1d \<and> (3 :: nat) < length store_2d \<and> store_2d ! 3 \<noteq> []
   \<and> (case crankNicolson_st 0 (- 1) store_1d of (res, t') \<Rightarrow>
         t' ! 0 = store_1d ! 0 \<and> length store_1d \<le> res \<and> res \<noteq> 0)
   \<and> (\<exists>res s'. crankNicolsonADI_st 3 1 2 store_2d = Inr (res, s') \<and> s' ! 3 = store_2d ! 3
         \<and> res \<noteq> 3)"
proof -
  have h: "(0 :: nat) < length store_1d" "(3 :: nat) < length store_2d" "store_2d ! 3 \<noteq> []"
    by (simp_all add: store_1d_def store_2d_def)
  from steppers_do_not_mutate_input[OF h, where r = "- 1" and rx = 1 and ry = 2]
  show ?thesis using h by (auto split: prod.splits)
qed

section \<open>The two models compute the same values\<close>

lemma vecAt_length [simp]: "length (vecAt s p) = length (s ! p)"
  by (simp add: vecAt_def)

lemma rd_vecAt: "i < length (s ! p) \<Longrightarrow> rd s p i = vecAt s p ! i"
  by (simp add: rd_def vecAt_def)

lemma vecAt_wr_same:
  "p < length s \<Longrightarrow> vecAt (wr p i (Num v) s) p = (vecAt s p)[i := v]"
  by (simp add: vecAt_def wr_def map_update)

lemma vecAt_wr_other: "q \<noteq> p \<Longrightarrow> vecAt (wr p i v s) q = vecAt s q"
  by (simp add: vecAt_def wr_def)

lemma vecAt_alloc:
  "vecAt (s @ [v]) (length s) = map num_of v"
  "p < length s \<Longrightarrow> vecAt (s @ [v]) p = vecAt s p"
  by (simp_all add: vecAt_def nth_append)

lemma forwardEuler_st_fold:
  assumes "u < length s0" and "w < length s0" and "w \<noteq> u"
    and "\<forall>i \<in> set is. 0 < i \<and> i + 1 < length (s0 ! u)"
  shows "let s' = fold (\<lambda>i s.
                   wr w i
                     (Num (rd s u i + r * (rd s u (i + 1) - 2 * rd s u i + rd s u (i - 1)))) s)
                   is s0
         in length s' = length s0 \<and> s' ! u = s0 ! u
            \<and> vecAt s' w = fold (\<lambda>i uNew. uNew[i := vecAt s0 u ! i
                  + r * (vecAt s0 u ! (i + 1) - 2 * vecAt s0 u ! i + vecAt s0 u ! (i - 1))])
                 is (vecAt s0 w)"
  using assms(4)
proof (induction "is" rule: rev_induct)
  case Nil
  show ?case by simp
next
  case (snoc i "is")
  define s1 where "s1 = fold (\<lambda>i s.
                   wr w i
                     (Num (rd s u i + r * (rd s u (i + 1) - 2 * rd s u i + rd s u (i - 1)))) s)
                   is s0"
  have ih: "length s1 = length s0" "s1 ! u = s0 ! u"
    "vecAt s1 w = fold (\<lambda>i uNew. uNew[i := vecAt s0 u ! i
                  + r * (vecAt s0 u ! (i + 1) - 2 * vecAt s0 u ! i + vecAt s0 u ! (i - 1))])
                 is (vecAt s0 w)"
    using snoc unfolding s1_def Let_def by simp_all
  have i: "0 < i" "i + 1 < length (s0 ! u)" using snoc.prems by simp_all
  have v: "vecAt s1 u = vecAt s0 u" by (simp add: vecAt_def ih(2))
  have r: "rd s1 u i = vecAt s0 u ! i" "rd s1 u (i + 1) = vecAt s0 u ! (i + 1)"
    "rd s1 u (i - 1) = vecAt s0 u ! (i - 1)"
    using i by (simp_all add: rd_vecAt ih(2) v[symmetric])
  have w: "w < length s1" using assms(2) ih(1) by simp
  show ?case
    unfolding Let_def fold_append comp_def fold_simps s1_def[symmetric] r
    using vecAt_wr_same[OF w] ih assms(3) by (simp add: wr_length wr_other)
qed

lemma forwardEuler_st_value:
  assumes "u < length s"
  shows "case forwardEuler_st u r s of (res, s') \<Rightarrow> vecAt s' res = forwardEuler (vecAt s u) r"
proof -
  define n where "n = length (s ! u)"
  define s0 where "s0 = wr (length s) (n - 1) (Num 0) (wr (length s) 0 (Num 0)
                          (s @ [replicate n (Num 0)]))"
  have l: "length s0 = Suc (length s)" by (simp add: s0_def wr_length)
  have su: "s0 ! u = s ! u" using assms by (simp add: s0_def wr_other nth_append)
  have w0: "vecAt s0 (length s) = (newArray n)[0 := 0, n - 1 := 0]"
    by (simp add: s0_def vecAt_wr_same wr_length vecAt_alloc newArray_def)
  have vu: "vecAt s0 u = vecAt s u" by (simp add: vecAt_def su)
  have "\<forall>i \<in> set [1..<n - 1]. 0 < i \<and> i + 1 < length (s0 ! u)"
    by (auto simp: su n_def)
  from forwardEuler_st_fold[where u = u and w = "length s" and ?s0.0 = s0 and r = r, OF _ _ _ this]
  show ?thesis
    using assms l
    unfolding forwardEuler_st_def forwardEuler_def alloc_def Let_def prod.case
      n_def[symmetric] s0_def[symmetric] vecAt_length
    by (simp add: w0 vu)
qed

text \<open>
  The solver on the store and the solver on lists: when the work arrays \<open>cp\<close>, \<open>dp\<close> and
  \<open>x\<close> are arrays of their own and all seven arrays have \<open>n\<close> cells, both take the same
  early returns and compute the same numbers.
\<close>

lemma forwardSweep_st_value:
  assumes "cp < length s" "dp < length s" "cp \<noteq> dp"
    and "cp \<noteq> a" "cp \<noteq> b" "cp \<noteq> c" "cp \<noteq> d"
    and "dp \<noteq> a" "dp \<noteq> b" "dp \<noteq> c" "dp \<noteq> d"
    and "length (s ! a) = n" "length (s ! b) = n" "length (s ! c) = n" "length (s ! d) = n"
    and "length (s ! cp) = n" "length (s ! dp) = n"
    and "0 < i"
  shows "case forwardSweep_st a b c d cp dp n i s of (ok, s') \<Rightarrow>
           forwardSweep (vecAt s a) (vecAt s b) (vecAt s c) (vecAt s d) n i
               (vecAt s cp) (vecAt s dp)
             = (if ok then Some (vecAt s' cp, vecAt s' dp) else None)
           \<and> length s' = length s
           \<and> (\<forall>p. p \<noteq> cp \<and> p \<noteq> dp \<longrightarrow> s' ! p = s ! p)
           \<and> length (s' ! cp) = n \<and> length (s' ! dp) = n"
  using assms
proof (induction a b c d cp dp n i s rule: forwardSweep_st.induct)
  case (1 a b c d cp dp n i s)
  note p = "1.prems" "1.prems"(3-11)[symmetric]
  show ?case
  proof (cases "i < n")
    case False
    then show ?thesis
      by (subst forwardSweep_st.simps, subst forwardSweep.simps) (simp add: p)
  next
    case True
    define denom where "denom = rd s b i - rd s a i * rd s cp (i - 1)"
    have den: "vecAt s b ! i - vecAt s a ! i * vecAt s cp ! (i - 1) = denom"
      using True by (simp add: denom_def rd_vecAt p)
    show ?thesis
    proof (cases "\<bar>denom\<bar> < pivot_eps")
      case True
      have t1: "\<bar>rd s b i - rd s a i * rd s cp (i - 1)\<bar> < pivot_eps"
        using True by (simp add: denom_def)
      have t2: "\<bar>vecAt s b ! i - vecAt s a ! i * vecAt s cp ! (i - 1)\<bar> < pivot_eps"
        unfolding den by (rule True)
      from \<open>i < n\<close> t1 t2 show ?thesis
        by (subst forwardSweep_st.simps, subst forwardSweep.simps) (simp add: Let_def p)
    next
      case False
      define s1 where "s1 = wr cp i (Num (rd s c i / denom)) s"
      define s2 where "s2 = wr dp i (Num ((rd s1 d i - rd s1 a i * rd s1 dp (i - 1)) / denom)) s1"
      have o1: "s1 ! q = s ! q" if "q \<noteq> cp" for q using that by (simp add: s1_def wr_other)
      have o2: "s2 ! q = s ! q" if "q \<noteq> cp" "q \<noteq> dp" for q
        using that by (simp add: s2_def wr_other o1)
      have r1: "rd s1 d i = vecAt s d ! i" "rd s1 a i = vecAt s a ! i"
        "rd s1 dp (i - 1) = vecAt s dp ! (i - 1)" "rd s c i = vecAt s c ! i"
        using \<open>i < n\<close> by (simp_all add: rd_def vecAt_def o1 p)
      have vcp: "vecAt s2 cp = (vecAt s cp)[i := vecAt s c ! i / denom]"
        by (simp add: s2_def vecAt_wr_other s1_def vecAt_wr_same r1 p)
      have l1: "dp < length s1" by (simp add: s1_def p)
      have v1: "vecAt s1 dp = vecAt s dp" by (simp add: s1_def vecAt_wr_other p)
      have vdp: "vecAt s2 dp
                 = (vecAt s dp)[i := (vecAt s d ! i - vecAt s a ! i * vecAt s dp ! (i - 1)) / denom]"
        unfolding s2_def r1 vecAt_wr_same[OF l1] v1 by (rule refl)
      have same: "vecAt s2 a = vecAt s a" "vecAt s2 b = vecAt s b" "vecAt s2 c = vecAt s c"
        "vecAt s2 d = vecAt s d"
        by (simp_all add: vecAt_def o2 p)
      have lens: "length (s2 ! a) = n" "length (s2 ! b) = n" "length (s2 ! c) = n"
        "length (s2 ! d) = n" "length (s2 ! cp) = n" "length (s2 ! dp) = n"
        by (simp_all add: s2_def s1_def p)
      have l2: "length s2 = length s" by (simp add: s2_def s1_def)
      have ih: "case forwardSweep_st a b c d cp dp n (i + 1) s2 of (ok, s') \<Rightarrow>
           forwardSweep (vecAt s2 a) (vecAt s2 b) (vecAt s2 c) (vecAt s2 d) n (i + 1)
               (vecAt s2 cp) (vecAt s2 dp)
             = (if ok then Some (vecAt s' cp, vecAt s' dp) else None)
           \<and> length s' = length s2
           \<and> (\<forall>p. p \<noteq> cp \<and> p \<noteq> dp \<longrightarrow> s' ! p = s2 ! p)
           \<and> length (s' ! cp) = n \<and> length (s' ! dp) = n"
        using "1.IH"[OF \<open>i < n\<close> denom_def False s1_def s2_def] by (simp add: p lens l2)
      have f1: "\<not> \<bar>rd s b i - rd s a i * rd s cp (i - 1)\<bar> < pivot_eps"
        using False by (simp add: denom_def)
      have f2: "\<not> \<bar>vecAt s b ! i - vecAt s a ! i * vecAt s cp ! (i - 1)\<bar> < pivot_eps"
        unfolding den by (rule False)
      have unf: "forwardSweep_st a b c d cp dp n i s = forwardSweep_st a b c d cp dp n (i + 1) s2"
        apply (subst forwardSweep_st.simps)
        unfolding Let_def if_P[OF \<open>i < n\<close>] if_not_P[OF f1] s2_def s1_def denom_def
        by (rule refl)
      have unf': "forwardSweep (vecAt s a) (vecAt s b) (vecAt s c) (vecAt s d) n i
               (vecAt s cp) (vecAt s dp)
            = forwardSweep (vecAt s2 a) (vecAt s2 b) (vecAt s2 c) (vecAt s2 d) n (i + 1)
               (vecAt s2 cp) (vecAt s2 dp)"
        apply (subst forwardSweep.simps)
        unfolding Let_def if_P[OF \<open>i < n\<close>] vcp vdp same den if_not_P[OF False]
        by (rule refl)
      show ?thesis
        unfolding unf unf' using ih by (auto simp: l2 o2 split: prod.splits)
    qed
  qed
qed

lemma backSubst_st_value:
  assumes "x < length s" "x \<noteq> cp" "x \<noteq> dp"
    and "length (s ! cp) = n" "length (s ! dp) = n" "length (s ! x) = n" "k < n"
  shows "vecAt (backSubst_st cp dp x k s) x = backSubst (vecAt s cp) (vecAt s dp) (vecAt s x) k"
  using assms
proof (induction k arbitrary: s)
  case 0
  show ?case by simp
next
  case (Suc k)
  define s1 where "s1 = wr x k (Num (rd s dp k - rd s cp k * rd s x (Suc k))) s"
  have r: "rd s dp k = vecAt s dp ! k" "rd s cp k = vecAt s cp ! k"
    "rd s x (Suc k) = vecAt s x ! (Suc k)"
    using Suc.prems by (simp_all add: rd_vecAt)
  have v: "vecAt s1 x = (vecAt s x)[k := vecAt s dp ! k - vecAt s cp ! k * vecAt s x ! (Suc k)]"
    "vecAt s1 cp = vecAt s cp" "vecAt s1 dp = vecAt s dp"
    using Suc.prems by (simp_all add: s1_def vecAt_wr_same vecAt_wr_other r)
  have "vecAt (backSubst_st cp dp x k s1) x
        = backSubst (vecAt s1 cp) (vecAt s1 dp) (vecAt s1 x) k"
    using Suc.prems by (intro Suc.IH) (simp_all add: s1_def)
  then show ?case by (simp add: s1_def[symmetric] v)
qed

lemma thomasAlgorithm_st_value:
  assumes "a < length s" "b < length s" "c < length s" "d < length s"
    and "length (s ! a) = length (s ! d)" "length (s ! b) = length (s ! d)"
    and "length (s ! c) = length (s ! d)" "s ! d \<noteq> []"
  shows "case thomasAlgorithm_st a b c d s of (res, s') \<Rightarrow>
           vecAt s' res = thomasAlgorithm (vecAt s a) (vecAt s b) (vecAt s c) (vecAt s d)"
proof -
  define n where "n = length (s ! d)"
  define cp dp x where "cp = length s" and "dp = length s + 1" and "x = length s + 2"
  define s1 where "s1 = s @ [replicate n (Num 0)]"
  define s2 where "s2 = s1 @ [replicate n (Num 0)]"
  define s3 where "s3 = s2 @ [replicate n (Num 0)]"
  have a1: "alloc (replicate n (Num 0)) s = (cp, s1)"
    and a2: "alloc (replicate n (Num 0)) s1 = (dp, s2)"
    and a3: "alloc (replicate n (Num 0)) s2 = (x, s3)"
    by (simp_all add: alloc_eq cp_def dp_def x_def s1_def s2_def s3_def)
  have s3: "s3 = s @ [replicate n (Num 0), replicate n (Num 0), replicate n (Num 0)]"
    by (simp add: s3_def s2_def s1_def)
  have n: "0 < n" using assms(8) by (simp add: n_def)
  have len: "length (s ! a) = n" "length (s ! b) = n" "length (s ! c) = n" "length (s ! d) = n"
    using assms(5-7) by (simp_all add: n_def)
  have old3: "s3 ! p = s ! p" if "p < length s" for p
    using that by (simp add: s3 nth_append)
  have new3: "s3 ! cp = replicate n (Num 0)" "s3 ! dp = replicate n (Num 0)"
    "s3 ! x = replicate n (Num 0)"
    by (simp_all add: s3 cp_def dp_def x_def nth_append)
  have l3: "length s3 = length s + 3" by (simp add: s3)
  have v3: "vecAt s3 a = vecAt s a" "vecAt s3 b = vecAt s b" "vecAt s3 c = vecAt s c"
    "vecAt s3 d = vecAt s d"
    using assms(1-4) by (simp_all add: vecAt_def old3)
  have lens3: "length (s3 ! a) = n" "length (s3 ! b) = n" "length (s3 ! c) = n"
    "length (s3 ! d) = n" "length (s3 ! cp) = n" "length (s3 ! dp) = n" "length (s3 ! x) = n"
    using assms(1-4) by (simp_all add: old3 len new3)
  have z: "vecAt s3 cp = newArray n" "vecAt s3 dp = newArray n" "vecAt s3 x = newArray n"
    by (simp_all add: vecAt_def new3 newArray_def)
  have b0: "rd s3 b 0 = vecAt s b ! 0" "rd s3 c 0 = vecAt s c ! 0" "rd s3 d 0 = vecAt s d ! 0"
    using n by (simp_all add: rd_vecAt lens3 v3)
  have st: "thomasAlgorithm_st a b c d s =
     (if \<bar>rd s3 b 0\<bar> < pivot_eps then (d, s3)
        else
          (let s = wr cp 0 (Num (rd s3 c 0 / rd s3 b 0)) s3;
               s = wr dp 0 (Num (rd s d 0 / rd s b 0)) s
           in case forwardSweep_st a b c d cp dp n 1 s of
                (False, s) \<Rightarrow> (d, s)
              | (True, s) \<Rightarrow>
                  (let s = wr x (n - 1) (Num (rd s dp (n - 1))) s
                   in (x, backSubst_st cp dp x (n - 1) s))))"
    unfolding thomasAlgorithm_st_def Let_def n_def[symmetric] a1 a2 a3 prod.case
    by (rule refl)
  have pu: "thomasAlgorithm (vecAt s a) (vecAt s b) (vecAt s c) (vecAt s d) =
     (if \<bar>vecAt s b ! 0\<bar> < pivot_eps then vecAt s d
         else
           (case forwardSweep (vecAt s a) (vecAt s b) (vecAt s c) (vecAt s d) n 1
                   ((newArray n)[0 := vecAt s c ! 0 / vecAt s b ! 0])
                   ((newArray n)[0 := vecAt s d ! 0 / vecAt s b ! 0]) of
              None \<Rightarrow> vecAt s d
            | Some (cp', dp') \<Rightarrow>
                backSubst cp' dp' ((newArray n)[n - 1 := dp' ! (n - 1)]) (n - 1)))"
  proof -
    have l: "length (vecAt s d) = n" by (simp add: len)
    show ?thesis unfolding thomasAlgorithm_def Let_def l by (rule refl)
  qed
  show ?thesis
  proof (cases "\<bar>rd s3 b 0\<bar> < pivot_eps")
    case True
    then show ?thesis unfolding st pu by (simp add: b0 v3)
  next
    case False
    define s4 where "s4 = wr cp 0 (Num (rd s3 c 0 / rd s3 b 0)) s3"
    define s5 where "s5 = wr dp 0 (Num (rd s4 d 0 / rd s4 b 0)) s4"
    have ne: "cp \<noteq> a" "cp \<noteq> b" "cp \<noteq> c" "cp \<noteq> d" "dp \<noteq> a" "dp \<noteq> b" "dp \<noteq> c" "dp \<noteq> d"
      "x \<noteq> a" "x \<noteq> b" "x \<noteq> c" "x \<noteq> d" "cp \<noteq> dp" "x \<noteq> cp" "x \<noteq> dp"
      using assms(1-4) by (simp_all add: cp_def dp_def x_def)
    note ne' = ne[symmetric]
    have in3: "cp < length s3" "dp < length s3" "x < length s3"
      by (simp_all add: l3 cp_def dp_def x_def)
    have o4: "s4 ! p = s3 ! p" if "p \<noteq> cp" for p using that by (simp add: s4_def wr_other)
    have o5: "s5 ! p = s3 ! p" if "p \<noteq> cp" "p \<noteq> dp" for p
      using that by (simp add: s5_def wr_other o4)
    have r4: "rd s4 d 0 = vecAt s d ! 0" "rd s4 b 0 = vecAt s b ! 0"
      using b0 by (simp_all add: rd_def o4 ne')
    have v5: "vecAt s5 a = vecAt s a" "vecAt s5 b = vecAt s b" "vecAt s5 c = vecAt s c"
      "vecAt s5 d = vecAt s d" "vecAt s5 x = newArray n"
    proof -
      have "vecAt s5 p = vecAt s3 p" if "p \<noteq> cp" "p \<noteq> dp" for p
        using that by (simp add: vecAt_def o5)
      then show "vecAt s5 a = vecAt s a" "vecAt s5 b = vecAt s b" "vecAt s5 c = vecAt s c"
        "vecAt s5 d = vecAt s d" "vecAt s5 x = newArray n"
        by (simp_all add: ne ne' v3 z)
    qed
    have c5: "vecAt s5 cp = (newArray n)[0 := vecAt s c ! 0 / vecAt s b ! 0]"
      by (simp add: s5_def vecAt_wr_other ne ne' s4_def vecAt_wr_same in3 z b0)
    have l4: "dp < length s4" by (simp add: s4_def in3)
    have z4: "vecAt s4 dp = newArray n" by (simp add: s4_def vecAt_wr_other ne ne' z)
    have d5: "vecAt s5 dp = (newArray n)[0 := vecAt s d ! 0 / vecAt s b ! 0]"
      unfolding s5_def r4 vecAt_wr_same[OF l4] z4 by (rule refl)
    have l5: "length s5 = length s3" by (simp add: s5_def s4_def)
    have lens5: "length (s5 ! a) = n" "length (s5 ! b) = n" "length (s5 ! c) = n"
      "length (s5 ! d) = n" "length (s5 ! cp) = n" "length (s5 ! dp) = n" "length (s5 ! x) = n"
      by (simp_all add: s5_def s4_def lens3)
    have in5: "cp < length s5" "dp < length s5" by (simp_all add: l5 in3)
    obtain ok s6 where fs: "forwardSweep_st a b c d cp dp n 1 s5 = (ok, s6)"
      by (cases "forwardSweep_st a b c d cp dp n 1 s5") blast
    have sw: "forwardSweep (vecAt s5 a) (vecAt s5 b) (vecAt s5 c) (vecAt s5 d) n 1
               (vecAt s5 cp) (vecAt s5 dp)
             = (if ok then Some (vecAt s6 cp, vecAt s6 dp) else None)
           \<and> length s6 = length s5
           \<and> (\<forall>p. p \<noteq> cp \<and> p \<noteq> dp \<longrightarrow> s6 ! p = s5 ! p)
           \<and> length (s6 ! cp) = n \<and> length (s6 ! dp) = n"
      by (rule forwardSweep_st_value[where a = a and b = b and c = c and d = d and cp = cp
          and dp = dp and n = n and i = 1 and s = s5,
          OF in5 ne(13) ne(1-8) lens5(1-6) zero_less_one, unfolded fs prod.case])
    have o6: "vecAt s6 p = vecAt s5 p" if "p \<noteq> cp" "p \<noteq> dp" for p
      using sw that by (simp add: vecAt_def)
    have st': "thomasAlgorithm_st a b c d s =
        (if ok then (let s = wr x (n - 1) (Num (rd s6 dp (n - 1))) s6
                   in (x, backSubst_st cp dp x (n - 1) s)) else (d, s6))"
      unfolding st if_not_P[OF False] Let_def s4_def[symmetric] s5_def[symmetric] fs
      by simp
    have F: "\<not> \<bar>vecAt s b ! 0\<bar> < pivot_eps" using False by (simp add: b0)
    show ?thesis
    proof (cases ok)
      case False
      have "vecAt s6 d = vecAt s d" by (simp add: o6 ne' v5)
      then show ?thesis
        unfolding st' pu if_not_P[OF F] using sw False by (simp add: v5 c5 d5)
    next
      case True
      define s7 where "s7 = wr x (n - 1) (Num (rd s6 dp (n - 1))) s6"
      have x6: "x < length s6" using sw by (simp add: l5 in3)
      have v6: "vecAt s6 x = newArray n" by (simp add: o6 ne v5)
      have l6: "length (s6 ! x) = n" using sw by (simp add: ne lens5)
      have r6: "rd s6 dp (n - 1) = vecAt s6 dp ! (n - 1)" using sw n by (simp add: rd_vecAt)
      have v7: "vecAt s7 x = (newArray n)[n - 1 := vecAt s6 dp ! (n - 1)]"
        "vecAt s7 cp = vecAt s6 cp" "vecAt s7 dp = vecAt s6 dp"
        using r6 by (simp_all add: s7_def vecAt_wr_same x6 v6 vecAt_wr_other ne ne')
      have bs: "vecAt (backSubst_st cp dp x (n - 1) s7) x
                = backSubst (vecAt s7 cp) (vecAt s7 dp) (vecAt s7 x) (n - 1)"
        using n by (intro backSubst_st_value[where n = n]) (simp_all add: s7_def ne sw l5 in3 lens5)
      show ?thesis
        unfolding st' pu if_not_P[OF F] if_P[OF True] Let_def s7_def[symmetric] prod.case
        using sw True bs by (simp add: v5 c5 d5 v7)
    qed
  qed
qed

text \<open>The boundary rows, and a whole system handed to the solver.\<close>

lemma dirichletRows_st_value:
  assumes "a < length s" "b < length s" "c < length s" "d < length s"
    and "a \<noteq> b" "a \<noteq> c" "a \<noteq> d" "b \<noteq> c" "b \<noteq> d" "c \<noteq> d"
  shows "(vecAt (dirichletRows_st n a b c d s) a, vecAt (dirichletRows_st n a b c d s) b,
          vecAt (dirichletRows_st n a b c d s) c, vecAt (dirichletRows_st n a b c d s) d)
         = dirichletRows n (vecAt s a, vecAt s b, vecAt s c, vecAt s d)"
proof -
  note ne = assms(5-10) assms(5-10)[symmetric]
  show ?thesis
    unfolding dirichletRows_st_def dirichletRows_def Let_def prod.case
    by (simp add: vecAt_wr_same vecAt_wr_other ne assms(1-4))
qed

lemma dirichletRows_st_lengths [simp]:
  "length (dirichletRows_st n a b c d s) = length s"
  "length (dirichletRows_st n a b c d s ! p) = length (s ! p)"
  by (simp_all add: dirichletRows_st_def)

lemma system_value:
  assumes "a < length s" "b < length s" "c < length s" "d < length s"
    and "a \<noteq> b" "a \<noteq> c" "a \<noteq> d" "b \<noteq> c" "b \<noteq> d" "c \<noteq> d"
    and "length (s ! a) = n" "length (s ! b) = n" "length (s ! c) = n" "length (s ! d) = n"
    and "0 < n"
  shows "case thomasAlgorithm_st a b c d (dirichletRows_st n a b c d s) of (res, s') \<Rightarrow>
           vecAt s' res
           = (case dirichletRows n (vecAt s a, vecAt s b, vecAt s c, vecAt s d) of
                (a, b, c, d) \<Rightarrow> thomasAlgorithm a b c d)"
proof -
  define t where "t = dirichletRows_st n a b c d s"
  have "length (t ! d) = n" by (simp add: t_def assms(14))
  then have "t ! d \<noteq> []" using assms(15) by auto
  then have "case thomasAlgorithm_st a b c d t of (res, s') \<Rightarrow>
           vecAt s' res = thomasAlgorithm (vecAt t a) (vecAt t b) (vecAt t c) (vecAt t d)"
    by (intro thomasAlgorithm_st_value) (simp_all add: t_def assms(1-4,11-14))
  then show ?thesis
    unfolding t_def[symmetric]
      dirichletRows_st_value[OF assms(1-10), where n = n, symmetric, unfolded t_def[symmetric]]
      prod.case .
qed

text \<open>
  A loop that assigns \<open>w[i] = g(i)\<close>, where \<open>g\<close> reads arrays other than \<open>w\<close>, changes
  the array \<open>w\<close> only, and fills it with the values that \<open>g\<close> has on the initial store.
\<close>

lemma fold_wr_value:
  assumes "w < length s0"
    and "\<And>i t. i \<in> set is \<Longrightarrow> length t = length s0 \<Longrightarrow>
            (\<forall>p. p \<noteq> w \<longrightarrow> t ! p = s0 ! p) \<Longrightarrow> g i t = h i"
  shows "length (fold (\<lambda>i s. wr w i (Num (g i s)) s) is s0) = length s0
       \<and> (\<forall>p. p \<noteq> w \<longrightarrow> fold (\<lambda>i s. wr w i (Num (g i s)) s) is s0 ! p = s0 ! p)
       \<and> vecAt (fold (\<lambda>i s. wr w i (Num (g i s)) s) is s0) w
           = fold (\<lambda>i v. v[i := h i]) is (vecAt s0 w)"
  using assms(2)
proof (induction "is" rule: rev_induct)
  case Nil
  show ?case by simp
next
  case (snoc i "is")
  define s1 where "s1 = fold (\<lambda>i s. wr w i (Num (g i s)) s) is s0"
  have ih: "length s1 = length s0" "\<forall>p. p \<noteq> w \<longrightarrow> s1 ! p = s0 ! p"
    "vecAt s1 w = fold (\<lambda>i v. v[i := h i]) is (vecAt s0 w)"
    using snoc.IH snoc.prems unfolding s1_def by simp_all
  have g: "g i s1 = h i" using snoc.prems[of i s1] ih(1,2) by simp
  have w: "w < length s1" using assms(1) ih(1) by simp
  show ?case
    unfolding fold_append comp_def fold_simps s1_def[symmetric] g
    using ih by (simp add: vecAt_wr_same[OF w] wr_other)
qed

lemma fold_wr_row_length [simp]:
  "length (fold (\<lambda>i s. wr p i (v i s) s) xs s ! q) = length (s ! q)"
  by (induction xs arbitrary: s) simp_all

lemma backwardEuler_st_value:
  assumes "u < length s" and "s ! u \<noteq> []"
  shows "case backwardEuler_st u r s of (res, s') \<Rightarrow> vecAt s' res = backwardEuler (vecAt s u) r"
proof -
  define n where "n = length (s ! u)"
  define a b c d where "a = length s" and "b = length s + 1" and "c = length s + 2"
    and "d = length s + 3"
  define s1 where "s1 = s @ [replicate n (Num (- r))]"
  define s2 where "s2 = s1 @ [replicate n (Num (1 + 2 * r))]"
  define s3 where "s3 = s2 @ [replicate n (Num (- r))]"
  define s4 where "s4 = s3 @ [s3 ! u]"
  have al: "alloc (replicate n (Num (- r))) s = (a, s1)"
    "alloc (replicate n (Num (1 + 2 * r))) s1 = (b, s2)"
    "alloc (replicate n (Num (- r))) s2 = (c, s3)"
    "alloc (s3 ! u) s3 = (d, s4)"
    by (simp_all add: alloc_eq a_def b_def c_def d_def s1_def s2_def s3_def s4_def)
  have s4: "s4 = s @ [replicate n (Num (- r)), replicate n (Num (1 + 2 * r)),
                      replicate n (Num (- r)), s ! u]"
    using assms(1) by (simp add: s4_def s3_def s2_def s1_def nth_append)
  have n: "0 < n" using assms(2) by (simp add: n_def)
  have v: "vecAt s4 a = replicate n (- r)" "vecAt s4 b = replicate n (1 + 2 * r)"
    "vecAt s4 c = replicate n (- r)" "vecAt s4 d = vecAt s u"
    by (simp_all add: vecAt_def s4 a_def b_def c_def d_def nth_append)
  have l: "length (s4 ! a) = n" "length (s4 ! b) = n" "length (s4 ! c) = n" "length (s4 ! d) = n"
    by (simp_all add: s4 a_def b_def c_def d_def nth_append n_def)
  have "case thomasAlgorithm_st a b c d (dirichletRows_st n a b c d s4) of (res, s') \<Rightarrow>
           vecAt s' res
           = (case dirichletRows n (vecAt s4 a, vecAt s4 b, vecAt s4 c, vecAt s4 d) of
                (a, b, c, d) \<Rightarrow> thomasAlgorithm a b c d)"
    by (rule system_value[OF _ _ _ _ _ _ _ _ _ _ l n])
      (simp_all add: s4 a_def b_def c_def d_def)
  then show ?thesis
    unfolding backwardEuler_st_def backwardEuler_def backwardEuler_system_def Let_def
      n_def[symmetric] al prod.case v vecAt_length .
qed

lemma crankNicolson_st_value:
  assumes "u < length s" and "s ! u \<noteq> []"
  shows "case crankNicolson_st u r s of (res, s') \<Rightarrow> vecAt s' res = crankNicolson (vecAt s u) r"
proof -
  define n where "n = length (s ! u)"
  define a b c d where "a = length s" and "b = length s + 1" and "c = length s + 2"
    and "d = length s + 3"
  define s1 where "s1 = s @ [replicate n (Num (- (r / 2)))]"
  define s2 where "s2 = s1 @ [replicate n (Num (1 + r))]"
  define s3 where "s3 = s2 @ [replicate n (Num (- (r / 2)))]"
  define s4 where "s4 = s3 @ [replicate n (Num 0)]"
  define s5 where "s5 = fold (\<lambda>i s.
                   wr d i (Num ((1 - r) * rd s u i + r / 2 * (rd s u (i + 1) + rd s u (i - 1)))) s)
                   [1..<n - 1] s4"
  have al: "alloc (replicate n (Num (- (r / 2)))) s = (a, s1)"
    "alloc (replicate n (Num (1 + r))) s1 = (b, s2)"
    "alloc (replicate n (Num (- (r / 2)))) s2 = (c, s3)"
    "alloc (replicate n (Num 0)) s3 = (d, s4)"
    by (simp_all add: alloc_eq a_def b_def c_def d_def s1_def s2_def s3_def s4_def)
  have s4: "s4 = s @ [replicate n (Num (- (r / 2))), replicate n (Num (1 + r)),
                      replicate n (Num (- (r / 2))), replicate n (Num 0)]"
    by (simp add: s4_def s3_def s2_def s1_def)
  have n: "0 < n" using assms(2) by (simp add: n_def)
  have u4: "s4 ! u = s ! u" using assms(1) by (simp add: s4 nth_append)
  have d4: "d < length s4" "d \<noteq> u" using assms(1) by (simp_all add: s4 d_def)
  have f: "length s5 = length s4 \<and> (\<forall>p. p \<noteq> d \<longrightarrow> s5 ! p = s4 ! p)
       \<and> vecAt s5 d = fold (\<lambda>i v. v[i := (1 - r) * vecAt s u ! i
                + r / 2 * (vecAt s u ! (i + 1) + vecAt s u ! (i - 1))]) [1..<n - 1] (vecAt s4 d)"
    unfolding s5_def
  proof (rule fold_wr_value[OF d4(1)])
    fix i t
    assume i: "i \<in> set [1..<n - 1]" and "length t = length s4"
      and t: "\<forall>p. p \<noteq> d \<longrightarrow> t ! p = s4 ! p"
    have tu: "t ! u = s ! u" using t d4(2) u4 by simp
    have "rd t u i = vecAt s u ! i" "rd t u (i + 1) = vecAt s u ! (i + 1)"
      "rd t u (i - 1) = vecAt s u ! (i - 1)"
      using i by (auto simp: rd_def vecAt_def tu n_def)
    then show "(1 - r) * rd t u i + r / 2 * (rd t u (i + 1) + rd t u (i - 1))
               = (1 - r) * vecAt s u ! i + r / 2 * (vecAt s u ! (i + 1) + vecAt s u ! (i - 1))"
      by simp
  qed
  have o5: "s5 ! p = s4 ! p" if "p \<noteq> d" for p using f that by simp
  have v: "vecAt s5 a = replicate n (- (r / 2))" "vecAt s5 b = replicate n (1 + r)"
    "vecAt s5 c = replicate n (- (r / 2))"
    by (simp_all add: vecAt_def o5 s4 a_def b_def c_def d_def nth_append)
  have vd: "vecAt s4 d = newArray n" by (simp add: vecAt_def s4 d_def newArray_def nth_append)
  have ld: "length (s5 ! d) = n"
    by (simp add: s5_def s4 d_def nth_append)
  have l: "length (s5 ! a) = n" "length (s5 ! b) = n" "length (s5 ! c) = n"
    by (simp_all add: o5 s4 a_def b_def c_def d_def nth_append)
  have "case thomasAlgorithm_st a b c d (dirichletRows_st n a b c d s5) of (res, s') \<Rightarrow>
           vecAt s' res
           = (case dirichletRows n (vecAt s5 a, vecAt s5 b, vecAt s5 c, vecAt s5 d) of
                (a, b, c, d) \<Rightarrow> thomasAlgorithm a b c d)"
    using f by (intro system_value[OF _ _ _ _ _ _ _ _ _ _ l ld n])
      (simp_all add: s4 a_def b_def c_def d_def)
  then show ?thesis
    unfolding crankNicolson_st_def crankNicolson_def crankNicolson_system_def Let_def
      n_def[symmetric] al prod.case s5_def[symmetric] v vecAt_length
    using f by (simp add: vd)
qed

section \<open>Grids: the two models compute the same values\<close>

lemma holds_gridAt: "holds s g rows G \<Longrightarrow> gridAt s g = G"
  by (simp add: holds_def gridAt_def comp_def)

lemma holds_length: "holds s g rows G \<Longrightarrow> length G = length rows \<and> length (s ! g) = length rows"
  by (simp add: holds_def)

lemma holds_rowAt: "holds s g rows G \<Longrightarrow> i < length rows \<Longrightarrow> rowAt s g i = rows ! i"
  by (simp add: holds_def rowAt_def)

lemma holds_row:
  "holds s g rows G \<Longrightarrow> i < length rows \<Longrightarrow> G ! i = vecAt s (rows ! i)"
  by (simp add: holds_def)

lemma holds_rd2:
  assumes "holds s g rows G" and "i < length rows" and "j < length (G ! i)"
  shows "rd2 s g i j = G ! i ! j"
proof -
  have "j < length (s ! (rows ! i))"
    using assms(3) holds_row[OF assms(1,2)] by simp
  then show ?thesis
    unfolding rd2_def holds_rowAt[OF assms(1,2)] holds_row[OF assms(1,2)]
    by (rule rd_vecAt)
qed

lemma holds_frame:
  assumes "holds s g rows G" and "length s \<le> length t"
    and "t ! g = s ! g" and "\<And>q. q \<in> set rows \<Longrightarrow> t ! q = s ! q"
  shows "holds t g rows G"
proof -
  have "map (vecAt t) rows = map (vecAt s) rows"
    by (rule map_cong) (simp_all add: vecAt_def assms(4))
  then show ?thesis
    using assms unfolding holds_def by auto
qed

lemma holds_extends:
  assumes "holds s g rows G" and "extends s t"
  shows "holds t g rows G"
  using assms(1)
  by (rule holds_frame) (use assms in \<open>auto simp: extends_def holds_def\<close>)

lemma rep_frame:
  assumes "rep s g rows G" and "length s \<le> length t"
    and "t ! g = s ! g" and "\<And>q. q \<in> set rows \<Longrightarrow> t ! q = s ! q"
  shows "rep t g rows G"
  using assms holds_frame[of s g rows G t] unfolding rep_def by blast

text \<open>An assignment \<open>g[i][j] = v\<close>.\<close>

lemma rep_wr:
  assumes "rep s g rows G" and "i < length rows"
  shows "rep (wr (rows ! i) j (Num v) s) g rows (set2 G i j v)"
proof -
  define t where "t = wr (rows ! i) j (Num v) s"
  from assms(1) have h: "g < length s" "s ! g = map Ref rows" "\<forall>q \<in> set rows. q < length s"
    "G = map (vecAt s) rows" and d: "distinct rows" "g \<notin> set rows"
    by (simp_all add: rep_def holds_def)
  have ri: "rows ! i < length s" "rows ! i \<noteq> g" using h(3) d(2) assms(2) by auto
  have tg: "t ! g = s ! g" using ri by (simp add: t_def wr_other)
  have "map (vecAt t) rows = set2 G i j v"
  proof (rule nth_equalityI)
    show "length (map (vecAt t) rows) = length (set2 G i j v)" by (simp add: h(4))
  next
    fix k assume "k < length (map (vecAt t) rows)"
    then have k: "k < length rows" by simp
    show "map (vecAt t) rows ! k = set2 G i j v ! k"
    proof (cases "k = i")
      case True
      then show ?thesis
        using k ri by (simp add: t_def vecAt_wr_same set2_def h(4))
    next
      case False
      then have "rows ! k \<noteq> rows ! i"
        using d(1) k assms(2) by (simp add: nth_eq_iff_index_eq)
      then show ?thesis
        using k False by (simp add: t_def vecAt_wr_other set2_def h(4))
    qed
  qed
  then show ?thesis
    using h d tg unfolding rep_def holds_def t_def[symmetric] by (simp add: t_def)
qed

lemma wr_row_frame:
  assumes "i < length rows" and "p \<notin> set rows"
  shows "wr (rows ! i) j v s ! p = s ! p"
proof -
  have "p \<noteq> rows ! i" using assms by auto
  then show ?thesis by (simp add: wr_other)
qed

text \<open>A new grid holds zeros, in rows of their own.\<close>

lemma allocGrid_zero_rows:
  fixes s :: store and Ny :: nat
  defines "g \<equiv> length s + 1"
  defines "body \<equiv> (\<lambda>i t. case alloc (replicate Ny (Num 0)) t of (row, t) \<Rightarrow> wr g i (Ref row) t)"
  assumes "length t0 = length s + 2"
  shows "length (fold body [0..<k] t0) = length s + 2 + k
     \<and> (\<forall>i<k. fold body [0..<k] t0 ! (length s + 2 + i) = replicate Ny (Num 0))"
proof (induction k)
  case 0
  then show ?case using assms(3) by simp
next
  case (Suc k)
  define t where "t = fold body [0..<k] t0"
  from Suc have ih: "length t = length s + 2 + k"
    "\<forall>i<k. t ! (length s + 2 + i) = replicate Ny (Num 0)"
    by (simp_all add: t_def)
  define t' where "t' = wr g k (Ref (length t)) (t @ [replicate Ny (Num 0)])"
  have step: "fold body [0..<Suc k] t0 = t'"
    by (simp add: t_def t'_def body_def alloc_eq)
  have other: "t' ! q = (t @ [replicate Ny (Num 0)]) ! q" if "q \<noteq> g" for q
    unfolding t'_def using that by (simp add: wr_other)
  have l: "length t' = length s + 2 + Suc k" by (simp add: t'_def ih(1))
  have rows: "t' ! (length s + 2 + i) = replicate Ny (Num 0)" if "i < Suc k" for i
  proof (cases "i = k")
    case True
    then show ?thesis using ih(1) by (simp add: other g_def nth_append)
  next
    case False
    with that have "i < k" by simp
    then show ?thesis using ih by (simp add: other g_def nth_append)
  qed
  show ?case unfolding step using l rows by blast
qed

lemma allocGrid_value:
  "case allocGrid Nx Ny s of (g, s') \<Rightarrow>
     rep s' g (map (\<lambda>i. length s + 2 + i) [0..<Nx]) (zeros Nx Ny) \<and> g = length s + 1
     \<and> length s' = length s + 2 + Nx \<and> extends s s'"
proof -
  define t0 where "t0 = (s @ [replicate Nx (Num 0)]) @ [replicate Nx (Num 0)]"
  define g where "g = length s + 1"
  define body where
    "body = (\<lambda>i t. case alloc (replicate Ny (Num 0)) t of (row, t) \<Rightarrow> wr g i (Ref row) t)"
  define s' where "s' = fold body [0..<Nx] t0"
  have a: "allocGrid Nx Ny s = (g, s')"
    by (simp add: allocGrid_def alloc_eq t0_def g_def body_def s'_def)
  have e0: "extends s t0" by (simp add: t0_def extends_def nth_append)
  have l0: "length t0 = length s + 2" by (simp add: t0_def)
  have g0: "length (t0 ! (length s + 1)) = Nx" by (simp add: t0_def nth_append)
  from allocGrid_rows[OF e0 l0 g0, of Nx Ny]
  have r: "length s' = length s + 2 + Nx" "extends s s'" "length (s' ! g) = Nx"
    "\<forall>i<Nx. s' ! g ! i = Ref (length s + 2 + i)"
    by (simp_all add: body_def g_def s'_def)
  from allocGrid_zero_rows[OF l0, where k = Nx and Ny = Ny]
  have z: "\<forall>i<Nx. s' ! (length s + 2 + i) = replicate Ny (Num 0)"
    by (simp add: body_def g_def s'_def)
  define rows where "rows = map (\<lambda>i. length s + 2 + i) [0..<Nx]"
  have lr: "length rows = Nx" and nr: "\<And>i. i < Nx \<Longrightarrow> rows ! i = length s + 2 + i"
    by (simp_all add: rows_def)
  have cells: "s' ! g = map Ref rows"
    by (rule nth_equalityI) (simp_all add: r lr nr)
  have vals: "zeros Nx Ny = map (vecAt s') rows"
    using z by (intro nth_equalityI) (simp_all add: zeros_def vecAt_def lr nr)
  have d: "distinct rows" by (simp add: rows_def distinct_map inj_on_def)
  have rp: "rep s' g rows (zeros Nx Ny)"
    unfolding rep_def holds_def using cells vals r(1) d by (auto simp: g_def rows_def)
  show ?thesis unfolding a prod.case
    using rp[unfolded rows_def] g_def r(1,2) by blast
qed

text \<open>
  One line of a sweep: when the right-hand side entries \<open>val i\<close> read arrays of the
  caller's store only, the store model solves the system that the list model solves.
\<close>

lemma solveLine_st_value:
  assumes "0 < n"
    and val: "\<And>i t. i \<in> set idx \<Longrightarrow> extends s t \<Longrightarrow> val i t = h i"
  shows "case solveLine_st n off dg idx val s of (res, s') \<Rightarrow>
           vecAt s' res = solveLine n off dg (fold (\<lambda>i d. d[i := h i]) idx (newArray n))
           \<and> extends s s' \<and> length s \<le> res \<and> res < length s' \<and> length (s' ! res) = n"
proof -
  define a b c d where "a = length s" and "b = length s + 1" and "c = length s + 2"
    and "d = length s + 3"
  define s1 where "s1 = s @ [replicate n (Num off)]"
  define s2 where "s2 = s1 @ [replicate n (Num dg)]"
  define s3 where "s3 = s2 @ [replicate n (Num off)]"
  define s4 where "s4 = s3 @ [replicate n (Num 0)]"
  define s5 where "s5 = fold (\<lambda>i s. wr d i (Num (val i s)) s) idx s4"
  define rhs where "rhs = fold (\<lambda>i d. d[i := h i]) idx (newArray n)"
  have al: "alloc (replicate n (Num off)) s = (a, s1)"
    "alloc (replicate n (Num dg)) s1 = (b, s2)"
    "alloc (replicate n (Num off)) s2 = (c, s3)"
    "alloc (replicate n (Num 0)) s3 = (d, s4)"
    by (simp_all add: alloc_eq a_def b_def c_def d_def s1_def s2_def s3_def s4_def)
  have s4: "s4 = s @ [replicate n (Num off), replicate n (Num dg),
                      replicate n (Num off), replicate n (Num 0)]"
    by (simp add: s4_def s3_def s2_def s1_def)
  have d4: "d < length s4" by (simp add: s4 d_def)
  have f: "length s5 = length s4 \<and> (\<forall>p. p \<noteq> d \<longrightarrow> s5 ! p = s4 ! p)
       \<and> vecAt s5 d = fold (\<lambda>i v. v[i := h i]) idx (vecAt s4 d)"
    unfolding s5_def
  proof (rule fold_wr_value[OF d4])
    fix i t
    assume i: "i \<in> set idx" and l: "length t = length s4"
      and t: "\<forall>p. p \<noteq> d \<longrightarrow> t ! p = s4 ! p"
    have "extends s t"
      unfolding extends_def using l t by (auto simp: s4 d_def nth_append)
    then show "val i t = h i" using i by (rule val[rotated])
  qed
  have o5: "s5 ! p = s4 ! p" if "p \<noteq> d" for p using f that by simp
  have v: "vecAt s5 a = replicate n off" "vecAt s5 b = replicate n dg"
    "vecAt s5 c = replicate n off"
    by (simp_all add: vecAt_def o5 s4 a_def b_def c_def d_def nth_append)
  have vd: "vecAt s5 d = rhs"
    using f by (simp add: rhs_def vecAt_def s4 d_def newArray_def nth_append)
  have ld: "length (s5 ! d) = n"
    by (simp add: s5_def s4 d_def nth_append)
  have l: "length (s5 ! a) = n" "length (s5 ! b) = n" "length (s5 ! c) = n"
    by (simp_all add: o5 s4 a_def b_def c_def d_def nth_append)
  have sv: "case thomasAlgorithm_st a b c d (dirichletRows_st n a b c d s5) of (res, s') \<Rightarrow>
           vecAt s' res
           = (case dirichletRows n (vecAt s5 a, vecAt s5 b, vecAt s5 c, vecAt s5 d) of
                (a, b, c, d) \<Rightarrow> thomasAlgorithm a b c d)"
    using f by (intro system_value[OF _ _ _ _ _ _ _ _ _ _ l ld assms(1)])
      (simp_all add: s4 a_def b_def c_def d_def)
  have unf: "solveLine_st n off dg idx val s
             = thomasAlgorithm_st a b c d (dirichletRows_st n a b c d s5)"
    unfolding solveLine_st_def Let_def al prod.case s5_def[symmetric] by (rule refl)
  have lr: "length rhs = n" by (simp add: rhs_def)
  obtain res s' where rs: "solveLine_st n off dg idx val s = (res, s')"
    by (cases "solveLine_st n off dg idx val s") auto
  have val: "vecAt s' res = solveLine n off dg rhs"
    using sv unfolding unf[symmetric] rs prod.case v vd solveLine_def .
  have "length (vecAt s' res) = n"
    unfolding val by (rule solveLine_boundary(1)[OF lr assms(1)])
  then have len: "length (s' ! res) = n" by simp
  from solveLine_st_frame[OF extends_refl, where n = n and off = off and dg = dg
      and idx = idx and val = val and s = s]
  have fr: "extends s s' \<and> length s \<le> res \<and> res < length s'"
    unfolding rs by simp
  show ?thesis
    unfolding rs prod.case rhs_def[symmetric] using val len fr by blast
qed

lemma keeps_refl [simp]: "keeps R s s"
  by (simp add: keeps_def)

lemma keeps_trans: "keeps R s t \<Longrightarrow> keeps R t r \<Longrightarrow> keeps R s r"
  unfolding keeps_def by (metis (no_types, lifting) le_trans less_le_trans)

lemma keeps_extends: "extends s t \<Longrightarrow> keeps R s t"
  by (simp add: keeps_def extends_def)

lemma holds_keeps:
  assumes "holds s g rows G" and "keeps R s t" and "g \<notin> R" and "set rows \<inter> R = {}"
  shows "holds t g rows G"
  using assms(1)
proof (rule holds_frame)
  show "length s \<le> length t" using assms(2) by (simp add: keeps_def)
  show "t ! g = s ! g" using assms by (simp add: keeps_def holds_def)
  show "t ! q = s ! q" if "q \<in> set rows" for q
    using assms that by (auto simp: keeps_def holds_def)
qed

lemma rep_keeps:
  assumes "rep s g rows G" and "keeps R s t" and "g \<notin> R" and "set rows \<inter> R = {}"
  shows "rep t g rows G"
  using assms holds_keeps[of s g rows G R t] unfolding rep_def by blast

lemma rep_holds: "rep s g rows G \<Longrightarrow> holds s g rows G"
  by (simp add: rep_def)

text \<open>
  A loop of assignments \<open>g[ri k][ci k] = v k\<close>, where \<open>v k\<close> reads arrays other than the
  rows of \<open>g\<close>.
\<close>

lemma cells_value:
  assumes "rep s g rows G"
    and "\<And>k. k \<in> set xs \<Longrightarrow> ri k < length rows"
    and "\<And>k t. k \<in> set xs \<Longrightarrow> keeps (set rows) s t \<Longrightarrow> v k t = w k"
  shows "rep (fold (\<lambda>k t. wr (rowAt t g (ri k)) (ci k) (Num (v k t)) t) xs s) g rows
             (fold (\<lambda>k G. set2 G (ri k) (ci k) (w k)) xs G)
       \<and> keeps (set rows) s (fold (\<lambda>k t. wr (rowAt t g (ri k)) (ci k) (Num (v k t)) t) xs s)"
  using assms(2,3)
proof (induction xs rule: rev_induct)
  case Nil
  show ?case using assms(1) by simp
next
  case (snoc k xs)
  define t where "t = fold (\<lambda>k t. wr (rowAt t g (ri k)) (ci k) (Num (v k t)) t) xs s"
  define H where "H = fold (\<lambda>k G. set2 G (ri k) (ci k) (w k)) xs G"
  have ih: "rep t g rows H" "keeps (set rows) s t"
    using snoc.IH snoc.prems unfolding t_def H_def by simp_all
  have k: "ri k < length rows" using snoc.prems(1) by simp
  have v: "v k t = w k" using snoc.prems(2)[of k t] ih(2) by simp
  have r: "rowAt t g (ri k) = rows ! ri k"
    by (rule holds_rowAt[OF rep_holds[OF ih(1)] k])
  have 1: "rep (wr (rows ! ri k) (ci k) (Num (w k)) t) g rows (set2 H (ri k) (ci k) (w k))"
    by (rule rep_wr[OF ih(1) k])
  have "keeps (set rows) t (wr (rows ! ri k) (ci k) (Num (w k)) t)"
    unfolding keeps_def using wr_row_frame[OF k] by simp
  with ih(2) have 2: "keeps (set rows) s (wr (rows ! ri k) (ci k) (Num (w k)) t)"
    by (rule keeps_trans)
  show ?case
    unfolding fold_append comp_def fold_simps t_def[symmetric] H_def[symmetric] v r
    using 1 2 by simp
qed

lemma writeColumn_st_value:
  assumes "rep s g rows G" and "length rows = Nx" and "res < length s" and "res \<notin> set rows"
    and "length (s ! res) = Nx"
  shows "rep (writeColumn_st g Nx j res s) g rows
             (fold (\<lambda>i G. set2 G i j (vecAt s res ! i)) [0..<Nx] G)
       \<and> keeps (set rows) s (writeColumn_st g Nx j res s)"
  unfolding writeColumn_st_def
proof (rule cells_value[OF assms(1), where ri = "\<lambda>i. i" and ci = "\<lambda>i. j"])
  show "k < length rows" if "k \<in> set [0..<Nx]" for k using that assms(2) by simp
  show "rd t res k = vecAt s res ! k" if "k \<in> set [0..<Nx]" "keeps (set rows) s t" for k t
  proof -
    have "t ! res = s ! res" using that(2) assms(3,4) by (simp add: keeps_def)
    then show ?thesis using that(1) assms(5) by (simp add: rd_def vecAt_def)
  qed
qed

lemma writeRow_st_value:
  assumes "rep s g rows G" and "i < length rows" and "res < length s" and "res \<notin> set rows"
    and "length (s ! res) = Ny"
  shows "rep (writeRow_st g Ny i res s) g rows
             (fold (\<lambda>j G. set2 G i j (vecAt s res ! j)) [0..<Ny] G)
       \<and> keeps (set rows) s (writeRow_st g Ny i res s)"
  unfolding writeRow_st_def
proof (rule cells_value[OF assms(1), where ri = "\<lambda>j. i" and ci = "\<lambda>j. j"])
  show "i < length rows" if "k \<in> set [0..<Ny]" for k by (rule assms(2))
  show "rd t res k = vecAt s res ! k" if "k \<in> set [0..<Ny]" "keeps (set rows) s t" for k t
  proof -
    have "t ! res = s ! res" using that(2) assms(3,4) by (simp add: keeps_def)
    then show ?thesis using that(1) assms(5) by (simp add: rd_def vecAt_def)
  qed
qed

text \<open>A loop whose every iteration acts on the grid \<open>g\<close> as \<open>pbody\<close> acts on a field.\<close>

lemma sweep_value:
  assumes "rep s g rows G"
    and "\<And>x t H. x \<in> set xs \<Longrightarrow> rep t g rows H \<Longrightarrow> keeps (set rows) s t \<Longrightarrow>
           rep (body x t) g rows (pbody x H) \<and> keeps (set rows) t (body x t)"
  shows "rep (fold body xs s) g rows (fold pbody xs G)
       \<and> keeps (set rows) s (fold body xs s)"
  using assms(2)
proof (induction xs rule: rev_induct)
  case Nil
  show ?case using assms(1) by simp
next
  case (snoc x xs)
  have ih: "rep (fold body xs s) g rows (fold pbody xs G)"
    "keeps (set rows) s (fold body xs s)"
    using snoc.IH snoc.prems by simp_all
  have "rep (body x (fold body xs s)) g rows (pbody x (fold pbody xs G))
      \<and> keeps (set rows) (fold body xs s) (body x (fold body xs s))"
    by (rule snoc.prems[OF _ ih]) simp
  then show ?case using ih(2) by (auto intro: keeps_trans)
qed

text \<open>One iteration of a sweep: solve a line and copy the result into a column or a row.\<close>

lemma column_step_value:
  assumes "rep t g rows H" and "length rows = Nx" and "0 < Nx"
    and val: "\<And>i t'. i \<in> set idx \<Longrightarrow> extends t t' \<Longrightarrow> val i t' = h i"
  shows "rep (case solveLine_st Nx off dg idx val t of (res, t1) \<Rightarrow> writeColumn_st g Nx j res t1)
           g rows
           (fold (\<lambda>i G. set2 G i j
               (solveLine Nx off dg (fold (\<lambda>i d. d[i := h i]) idx (newArray Nx)) ! i))
              [0..<Nx] H)
       \<and> keeps (set rows) t
           (case solveLine_st Nx off dg idx val t of (res, t1) \<Rightarrow> writeColumn_st g Nx j res t1)"
proof -
  obtain res t1 where sl: "solveLine_st Nx off dg idx val t = (res, t1)"
    by (cases "solveLine_st Nx off dg idx val t") auto
  have "case solveLine_st Nx off dg idx val t of (res, s') \<Rightarrow>
           vecAt s' res = solveLine Nx off dg (fold (\<lambda>i d. d[i := h i]) idx (newArray Nx))
           \<and> extends t s' \<and> length t \<le> res \<and> res < length s' \<and> length (s' ! res) = Nx"
    using assms(3) val by (rule solveLine_st_value)
  then have v: "vecAt t1 res = solveLine Nx off dg (fold (\<lambda>i d. d[i := h i]) idx (newArray Nx))"
    and e: "extends t t1" and r: "length t \<le> res" "res < length t1"
    and l: "length (t1 ! res) = Nx"
    unfolding sl by simp_all
  have rows: "\<forall>q \<in> set rows. q < length t"
    using assms(1) by (simp add: rep_def holds_def)
  then have nr: "res \<notin> set rows" using r(1) by auto
  have r1: "rep t1 g rows H"
    by (rule rep_keeps[OF assms(1) keeps_extends[OF e], of "{}"]) simp_all
  from writeColumn_st_value[OF r1 assms(2) r(2) nr l, of j]
  have "rep (writeColumn_st g Nx j res t1) g rows
             (fold (\<lambda>i G. set2 G i j (vecAt t1 res ! i)) [0..<Nx] H)"
    and k: "keeps (set rows) t1 (writeColumn_st g Nx j res t1)"
    by simp_all
  then show ?thesis
    unfolding sl prod.case v
    using keeps_trans[OF keeps_extends[OF e] k] by simp
qed

lemma row_step_value:
  assumes "rep t g rows H" and "i < length rows" and "0 < Ny"
    and val: "\<And>j t'. j \<in> set idx \<Longrightarrow> extends t t' \<Longrightarrow> val j t' = h j"
  shows "rep (case solveLine_st Ny off dg idx val t of (res, t1) \<Rightarrow> writeRow_st g Ny i res t1)
           g rows
           (fold (\<lambda>j G. set2 G i j
               (solveLine Ny off dg (fold (\<lambda>j d. d[j := h j]) idx (newArray Ny)) ! j))
              [0..<Ny] H)
       \<and> keeps (set rows) t
           (case solveLine_st Ny off dg idx val t of (res, t1) \<Rightarrow> writeRow_st g Ny i res t1)"
proof -
  obtain res t1 where sl: "solveLine_st Ny off dg idx val t = (res, t1)"
    by (cases "solveLine_st Ny off dg idx val t") auto
  have "case solveLine_st Ny off dg idx val t of (res, s') \<Rightarrow>
           vecAt s' res = solveLine Ny off dg (fold (\<lambda>j d. d[j := h j]) idx (newArray Ny))
           \<and> extends t s' \<and> length t \<le> res \<and> res < length s' \<and> length (s' ! res) = Ny"
    using assms(3) val by (rule solveLine_st_value)
  then have v: "vecAt t1 res = solveLine Ny off dg (fold (\<lambda>j d. d[j := h j]) idx (newArray Ny))"
    and e: "extends t t1" and r: "length t \<le> res" "res < length t1"
    and l: "length (t1 ! res) = Ny"
    unfolding sl by simp_all
  have rows: "\<forall>q \<in> set rows. q < length t"
    using assms(1) by (simp add: rep_def holds_def)
  then have nr: "res \<notin> set rows" using r(1) by auto
  have r1: "rep t1 g rows H"
    by (rule rep_keeps[OF assms(1) keeps_extends[OF e], of "{}"]) simp_all
  from writeRow_st_value[OF r1 assms(2) r(2) nr l]
  have "rep (writeRow_st g Ny i res t1) g rows
             (fold (\<lambda>j G. set2 G i j (vecAt t1 res ! j)) [0..<Ny] H)"
    and k: "keeps (set rows) t1 (writeRow_st g Ny i res t1)"
    by simp_all
  then show ?thesis
    unfolding sl prod.case v
    using keeps_trans[OF keeps_extends[OF e] k] by simp
qed

text \<open>
  A whole sweep: every line is solved with a right-hand side read from the grid \<open>u\<close>,
  which is not the grid that the sweep writes to.
\<close>

lemma column_sweep_value:
  assumes "rep s g rows G" and "length rows = Nx" and "0 < Nx"
    and "holds s u urows U" and "u \<notin> set rows" and "set urows \<inter> set rows = {}"
    and val: "\<And>j i t. j \<in> set js \<Longrightarrow> i \<in> set idx \<Longrightarrow> holds t u urows U \<Longrightarrow> val j i t = h j i"
  shows "rep (fold (\<lambda>j t. case solveLine_st Nx off dg idx (val j) t of
                            (res, t1) \<Rightarrow> writeColumn_st g Nx j res t1) js s) g rows
           (fold (\<lambda>j G. fold (\<lambda>i G. set2 G i j
               (solveLine Nx off dg (fold (\<lambda>i d. d[i := h j i]) idx (newArray Nx)) ! i))
              [0..<Nx] G) js G)
       \<and> keeps (set rows) s
           (fold (\<lambda>j t. case solveLine_st Nx off dg idx (val j) t of
                            (res, t1) \<Rightarrow> writeColumn_st g Nx j res t1) js s)"
proof (rule sweep_value[OF assms(1)])
  fix j t H
  assume j: "j \<in> set js" and r: "rep t g rows H" and k: "keeps (set rows) s t"
  have hu: "holds t u urows U" by (rule holds_keeps[OF assms(4) k assms(5,6)])
  show "rep (case solveLine_st Nx off dg idx (val j) t of
               (res, t1) \<Rightarrow> writeColumn_st g Nx j res t1) g rows
          (fold (\<lambda>i G. set2 G i j
               (solveLine Nx off dg (fold (\<lambda>i d. d[i := h j i]) idx (newArray Nx)) ! i))
              [0..<Nx] H)
       \<and> keeps (set rows) t
           (case solveLine_st Nx off dg idx (val j) t of
               (res, t1) \<Rightarrow> writeColumn_st g Nx j res t1)"
    using r assms(2,3)
  proof (rule column_step_value)
    fix i t' assume "i \<in> set idx" and "extends t t'"
    then show "val j i t' = h j i"
      using val[OF j] holds_extends[OF hu] by simp
  qed
qed

lemma row_sweep_value:
  assumes "rep s g rows G" and "set is \<subseteq> {0..<length rows}" and "0 < Ny"
    and "holds s u urows U" and "u \<notin> set rows" and "set urows \<inter> set rows = {}"
    and val: "\<And>i j t. i \<in> set is \<Longrightarrow> j \<in> set idx \<Longrightarrow> holds t u urows U \<Longrightarrow> val i j t = h i j"
  shows "rep (fold (\<lambda>i t. case solveLine_st Ny off dg idx (val i) t of
                            (res, t1) \<Rightarrow> writeRow_st g Ny i res t1) is s) g rows
           (fold (\<lambda>i G. fold (\<lambda>j G. set2 G i j
               (solveLine Ny off dg (fold (\<lambda>j d. d[j := h i j]) idx (newArray Ny)) ! j))
              [0..<Ny] G) is G)
       \<and> keeps (set rows) s
           (fold (\<lambda>i t. case solveLine_st Ny off dg idx (val i) t of
                            (res, t1) \<Rightarrow> writeRow_st g Ny i res t1) is s)"
proof (rule sweep_value[OF assms(1)])
  fix i t H
  assume i: "i \<in> set is" and r: "rep t g rows H" and k: "keeps (set rows) s t"
  have hu: "holds t u urows U" by (rule holds_keeps[OF assms(4) k assms(5,6)])
  have il: "i < length rows" using i assms(2) by auto
  show "rep (case solveLine_st Ny off dg idx (val i) t of
               (res, t1) \<Rightarrow> writeRow_st g Ny i res t1) g rows
          (fold (\<lambda>j G. set2 G i j
               (solveLine Ny off dg (fold (\<lambda>j d. d[j := h i j]) idx (newArray Ny)) ! j))
              [0..<Ny] H)
       \<and> keeps (set rows) t
           (case solveLine_st Ny off dg idx (val i) t of
               (res, t1) \<Rightarrow> writeRow_st g Ny i res t1)"
    using r il assms(3)
  proof (rule row_step_value)
    fix j t' assume "j \<in> set idx" and "extends t t'"
    then show "val i j t' = h i j"
      using val[OF i] holds_extends[OF hu] by simp
  qed
qed

text \<open>
  A stepper that allocates both grids first, then sweeps along \<open>x\<close> into the first with
  right-hand sides read from \<open>u\<close>, then along \<open>y\<close> into the second with right-hand
  sides read from the first.
\<close>

lemma below_above_disjoint:
  fixes n :: nat
  assumes "\<forall>q \<in> A. q < n" and "\<forall>q \<in> B. n \<le> q"
  shows "A \<inter> B = {}" and "B \<inter> A = {}"
  using assms by (meson disjoint_iff not_le)+

lemma below_not_above:
  fixes n :: nat
  assumes "p < n" and "\<forall>q \<in> B. n \<le> q"
  shows "p \<notin> B"
  using assms by (meson not_le)

lemma two_sweep_value:
  fixes off1 dg1 :: real
  assumes hu: "holds s u urows U" and Nx: "0 < Nx" and Ny: "0 < Ny"
    and ag1: "allocGrid Nx Ny s = (g1, s1)" and ag2: "allocGrid Nx Ny s1 = (g2, s2)"
    and v1: "\<And>j i t. j \<in> set js \<Longrightarrow> i \<in> set idx1 \<Longrightarrow> holds t u urows U \<Longrightarrow>
               val1 j i t = h1 j i"
    and v2: "\<And>i j t rows1 G1. i \<in> set is \<Longrightarrow> j \<in> set idx2 \<Longrightarrow> holds t g1 rows1 G1 \<Longrightarrow>
               length G1 = Nx \<Longrightarrow> (\<forall>k<Nx. length (G1 ! k) = Ny) \<Longrightarrow> val2 i j t = h2 G1 i j"
    and "is": "set is \<subseteq> {0..<Nx}"
  defines "G1 \<equiv> fold (\<lambda>j G. fold (\<lambda>i G. set2 G i j
               (solveLine Nx off1 dg1 (fold (\<lambda>i d. d[i := h1 j i]) idx1 (newArray Nx)) ! i))
              [0..<Nx] G) js (zeros Nx Ny)"
  shows "gridAt
           (fold (\<lambda>i t. case solveLine_st Ny off2 dg2 idx2 (val2 i) t of
                            (res, t1) \<Rightarrow> writeRow_st g2 Ny i res t1) is
             (fold (\<lambda>j t. case solveLine_st Nx off1 dg1 idx1 (val1 j) t of
                            (res, t1) \<Rightarrow> writeColumn_st g1 Nx j res t1) js s2)) g2
         = fold (\<lambda>i G. fold (\<lambda>j G. set2 G i j
               (solveLine Ny off2 dg2 (fold (\<lambda>j d. d[j := h2 G1 i j]) idx2 (newArray Ny)) ! j))
              [0..<Ny] G) is (zeros Nx Ny)"
proof -
  define rows1 where "rows1 = map (\<lambda>i. length s + 2 + i) [0..<Nx]"
  define rows2 where "rows2 = map (\<lambda>i. length s1 + 2 + i) [0..<Nx]"
  note a1 = allocGrid_value[where Nx = Nx and Ny = Ny and s = s,
      unfolded ag1 prod.case, folded rows1_def]
  have r1: "rep s1 g1 rows1 (zeros Nx Ny)" and g1: "g1 = length s + 1"
    and l1: "length s1 = length s + 2 + Nx" and e1: "extends s s1"
    by (rule a1[THEN conjunct1], rule a1[THEN conjunct2, THEN conjunct1],
        rule a1[THEN conjunct2, THEN conjunct2, THEN conjunct1],
        rule a1[THEN conjunct2, THEN conjunct2, THEN conjunct2])
  note a2 = allocGrid_value[where Nx = Nx and Ny = Ny and s = s1,
      unfolded ag2 prod.case, folded rows2_def]
  have r2: "rep s2 g2 rows2 (zeros Nx Ny)" and g2: "g2 = length s1 + 1"
    and l2: "length s2 = length s1 + 2 + Nx" and e2: "extends s1 s2"
    by (rule a2[THEN conjunct1], rule a2[THEN conjunct2, THEN conjunct1],
        rule a2[THEN conjunct2, THEN conjunct2, THEN conjunct1],
        rule a2[THEN conjunct2, THEN conjunct2, THEN conjunct2])
  have old: "u < length s" "\<forall>q \<in> set urows. q < length s"
    using hu by (simp_all add: holds_def)
  have new1: "\<forall>q \<in> set rows1. length s \<le> q" "\<forall>q \<in> set rows1. q < length s1"
    by (auto simp: rows1_def l1)
  have new2: "\<forall>q \<in> set rows2. length s1 \<le> q" by (auto simp: rows2_def)
  have lr: "length rows1 = Nx" "length rows2 = Nx" by (simp_all add: rows1_def rows2_def)
  define s3 where "s3 = fold (\<lambda>j t. case solveLine_st Nx off1 dg1 idx1 (val1 j) t of
                            (res, t1) \<Rightarrow> writeColumn_st g1 Nx j res t1) js s2"
  have r1': "rep s2 g1 rows1 (zeros Nx Ny)"
    by (rule rep_keeps[OF r1 keeps_extends[OF e2], of "{}"]) simp_all
  have hu2: "holds s2 u urows U"
    by (rule holds_extends[OF holds_extends[OF hu e1] e2])
  have d1: "u \<notin> set rows1" "set urows \<inter> set rows1 = {}"
    by (rule below_not_above[OF old(1) new1(1)], rule below_above_disjoint[OF old(2) new1(1)])
  have st1: "rep s3 g1 rows1 G1 \<and> keeps (set rows1) s2 s3"
    unfolding s3_def G1_def
  proof (rule column_sweep_value[where val = val1 and h = h1 and u = u and urows = urows
        and U = U, OF r1' lr(1) Nx hu2 d1])
    fix j i t assume "j \<in> set js" "i \<in> set idx1" "holds t u urows U"
    then show "val1 j i t = h1 j i" by (rule v1)
  qed
  have g2': "\<forall>q \<in> {g2}. length s1 \<le> q" by (simp add: g2)
  have g1': "g1 < length s1" by (simp add: g1 l1)
  have d2: "g2 \<notin> set rows1" "set rows2 \<inter> set rows1 = {}"
    using below_above_disjoint(1)[OF new1(2) g2'] below_above_disjoint(2)[OF new1(2) new2]
    by simp_all
  have r3: "rep s3 g2 rows2 (zeros Nx Ny)"
    by (rule rep_keeps[OF r2 st1[THEN conjunct2] d2])
  have h3: "holds s3 g1 rows1 G1" using st1 by (simp add: rep_holds)
  have d3: "g1 \<notin> set rows2" "set rows1 \<inter> set rows2 = {}"
    by (rule below_not_above[OF g1' new2], rule below_above_disjoint[OF new1(2) new2])
  have sh: "length G1 = Nx" "\<forall>k<Nx. length (G1 ! k) = Ny"
    unfolding G1_def
    using colSweep_shape[where Nx = Nx and Ny = Ny and js = js
        and F = "\<lambda>j. solveLine Nx off1 dg1 (fold (\<lambda>i d. d[i := h1 j i]) idx1 (newArray Nx))"]
    by simp_all
  have is2: "set is \<subseteq> {0..<length rows2}" using "is" lr(2) by simp
  have "rep (fold (\<lambda>i t. case solveLine_st Ny off2 dg2 idx2 (val2 i) t of
                            (res, t1) \<Rightarrow> writeRow_st g2 Ny i res t1) is s3) g2 rows2
           (fold (\<lambda>i G. fold (\<lambda>j G. set2 G i j
               (solveLine Ny off2 dg2 (fold (\<lambda>j d. d[j := h2 G1 i j]) idx2 (newArray Ny)) ! j))
              [0..<Ny] G) is (zeros Nx Ny))
       \<and> keeps (set rows2) s3
           (fold (\<lambda>i t. case solveLine_st Ny off2 dg2 idx2 (val2 i) t of
                            (res, t1) \<Rightarrow> writeRow_st g2 Ny i res t1) is s3)"
  proof (rule row_sweep_value[where val = val2 and h = "h2 G1" and u = g1 and urows = rows1
        and U = G1, OF r3 is2 Ny h3 d3])
    fix i j t assume "i \<in> set is" "j \<in> set idx2" "holds t g1 rows1 G1"
    then show "val2 i j t = h2 G1 i j" using sh by (rule v2)
  qed
  then show ?thesis
    unfolding s3_def[symmetric] by (intro holds_gridAt[OF rep_holds]) (rule conjunct1)
qed

text \<open>
  The field at \<open>u\<close> as the steppers find it: \<open>Nx\<close> rows of length \<open>Ny\<close>, both positive.
\<close>

lemma holds_dims:
  assumes "holds s u urows U" and "U \<noteq> []"
  shows "s ! u \<noteq> []" and "length (s ! u) = length U"
    and "length (s ! rowAt s u 0) = length (U ! 0)"
proof -
  have l: "length urows = length U" "length (s ! u) = length urows"
    using holds_length[OF assms(1)] by simp_all
  then show "length (s ! u) = length U" by simp
  then show "s ! u \<noteq> []" using assms(2) by auto
  have 0: "0 < length urows" using l assms(2) by simp
  show "length (s ! rowAt s u 0) = length (U ! 0)"
    unfolding holds_rowAt[OF assms(1) 0] holds_row[OF assms(1) 0] by simp
qed

lemma holds_cell:
  assumes "holds t u urows U" and "\<forall>r \<in> set U. length r = Ny" and "i < length U" and "j < Ny"
  shows "rd2 t u i j = U ! i ! j"
proof -
  have i: "i < length urows" using holds_length[OF assms(1)] assms(3) by simp
  have "length (U ! i) = Ny" using assms(2,3) by simp
  then show ?thesis using holds_rd2[OF assms(1) i] assms(4) by simp
qed

lemma crankNicolsonADI_st_value:
  assumes hu: "holds s u urows U" and ne: "U \<noteq> []" "U ! 0 \<noteq> []"
    and rect: "\<forall>r \<in> set U. length r = length (U ! 0)"
  shows "\<exists>res s'. crankNicolsonADI_st u rx ry s = Inr (res, s')
           \<and> crankNicolsonADI U rx ry = Inr (gridAt s' res)"
proof -
  define Nx Ny where "Nx = length U" and "Ny = length (U ! 0)"
  note dims = holds_dims[OF hu ne(1), folded Nx_def Ny_def]
  have pos: "0 < Nx" "0 < Ny" using ne by (simp_all add: Nx_def Ny_def)
  have rect': "\<forall>r \<in> set U. length r = Ny" using rect by (simp add: Ny_def)
  obtain g1 s1 where ag1: "allocGrid Nx Ny s = (g1, s1)"
    by (cases "allocGrid Nx Ny s") auto
  obtain g2 s2 where ag2: "allocGrid Nx Ny s1 = (g2, s2)"
    by (cases "allocGrid Nx Ny s1") auto
  define val1 where "val1 = (\<lambda>j i s. rd2 s u i j
        + ry / 2 * (rd2 s u i (j + 1) - 2 * rd2 s u i j + rd2 s u i (j - 1)))"
  define h1 where "h1 = (\<lambda>j i. U ! i ! j
        + ry / 2 * (U ! i ! (j + 1) - 2 * U ! i ! j + U ! i ! (j - 1)))"
  define val2 where "val2 = (\<lambda>i j s. rd2 s g1 i j
        + rx / 2 * (rd2 s g1 (i + 1) j - 2 * rd2 s g1 i j + rd2 s g1 (i - 1) j))"
  define h2 where "h2 = (\<lambda>G (i :: nat) (j :: nat). (G :: grid) ! i ! j
        + rx / 2 * (G ! (i + 1) ! j - 2 * G ! i ! j + G ! (i - 1) ! j))"
  have st: "crankNicolsonADI_st u rx ry s = Inr (g2,
      fold (\<lambda>i t. case solveLine_st Ny (- (ry / 2)) (1 + ry) [1..<Ny - 1] (val2 i) t of
                            (res, t1) \<Rightarrow> writeRow_st g2 Ny i res t1) [1..<Nx - 1]
        (fold (\<lambda>j t. case solveLine_st Nx (- (rx / 2)) (1 + rx) [1..<Nx - 1] (val1 j) t of
                            (res, t1) \<Rightarrow> writeColumn_st g1 Nx j res t1) [1..<Ny - 1] s2))"
    unfolding crankNicolsonADI_st_def if_not_P[OF dims(1)] Let_def dims(2,3) ag1 ag2 prod.case
      val1_def val2_def
    by (rule refl)
  have pu: "crankNicolsonADI U rx ry = Inr
     (fold (\<lambda>i G. fold (\<lambda>j G. set2 G i j
               (solveLine Ny (- (ry / 2)) (1 + ry)
                  (fold (\<lambda>j d. d[j := h2 (crankNicolsonADI_step1 Nx Ny U rx ry) i j])
                     [1..<Ny - 1] (newArray Ny)) ! j))
              [0..<Ny] G) [1..<Nx - 1] (zeros Nx Ny))"
    unfolding crankNicolsonADI_def if_not_P[OF ne(1)] Let_def Nx_def[symmetric] Ny_def[symmetric]
      crankNicolsonADI_step2_eq h2_def
    by (rule refl)
  have "gridAt
           (fold (\<lambda>i t. case solveLine_st Ny (- (ry / 2)) (1 + ry) [1..<Ny - 1] (val2 i) t of
                            (res, t1) \<Rightarrow> writeRow_st g2 Ny i res t1) [1..<Nx - 1]
             (fold (\<lambda>j t. case solveLine_st Nx (- (rx / 2)) (1 + rx) [1..<Nx - 1] (val1 j) t of
                            (res, t1) \<Rightarrow> writeColumn_st g1 Nx j res t1) [1..<Ny - 1] s2)) g2
         = fold (\<lambda>i G. fold (\<lambda>j G. set2 G i j
               (solveLine Ny (- (ry / 2)) (1 + ry)
                  (fold (\<lambda>j d. d[j := h2 (fold (\<lambda>j G. fold (\<lambda>i G. set2 G i j
               (solveLine Nx (- (rx / 2)) (1 + rx)
                  (fold (\<lambda>i d. d[i := h1 j i]) [1..<Nx - 1] (newArray Nx)) ! i))
              [0..<Nx] G) [1..<Ny - 1] (zeros Nx Ny)) i j]) [1..<Ny - 1] (newArray Ny)) ! j))
              [0..<Ny] G) [1..<Nx - 1] (zeros Nx Ny)"
  proof (rule two_sweep_value[OF hu pos ag1 ag2])
    fix j i t
    assume j: "j \<in> set [1..<Ny - 1]" and i: "i \<in> set [1..<Nx - 1]" and h: "holds t u urows U"
    have "rd2 t u i j = U ! i ! j" "rd2 t u i (j + 1) = U ! i ! (j + 1)"
      "rd2 t u i (j - 1) = U ! i ! (j - 1)"
      using i j by (auto intro!: holds_cell[OF h rect'] simp: Nx_def)
    then show "val1 j i t = h1 j i" by (simp add: val1_def h1_def)
  next
    fix i j t rows1 G1
    assume i: "i \<in> set [1..<Nx - 1]" and j: "j \<in> set [1..<Ny - 1]"
      and h: "holds t g1 rows1 G1" and l: "length G1 = Nx" "\<forall>k<Nx. length (G1 ! k) = Ny"
    have r: "\<forall>r \<in> set G1. length r = Ny" using l by (auto simp: in_set_conv_nth)
    have "rd2 t g1 i j = G1 ! i ! j" "rd2 t g1 (i + 1) j = G1 ! (i + 1) ! j"
      "rd2 t g1 (i - 1) j = G1 ! (i - 1) ! j"
      using i j by (auto intro!: holds_cell[OF h r] simp: l(1))
    then show "val2 i j t = h2 G1 i j" by (simp add: val2_def h2_def)
  next
    show "set [1..<Nx - 1] \<subseteq> {0..<Nx}" by auto
  qed
  then show ?thesis
    unfolding st pu crankNicolsonADI_step1_eq h1_def by simp
qed

lemma backwardEuler2D_ADI_st_value:
  assumes hu: "holds s u urows U" and ne: "U \<noteq> []" "U ! 0 \<noteq> []"
    and rect: "\<forall>r \<in> set U. length r = length (U ! 0)"
  shows "\<exists>res s'. backwardEuler2D_ADI_st u rx ry s = Inr (res, s')
           \<and> backwardEuler2D_ADI U rx ry = Inr (gridAt s' res)"
proof -
  define Nx Ny where "Nx = length U" and "Ny = length (U ! 0)"
  note dims = holds_dims[OF hu ne(1), folded Nx_def Ny_def]
  have pos: "0 < Nx" "0 < Ny" using ne by (simp_all add: Nx_def Ny_def)
  have rect': "\<forall>r \<in> set U. length r = Ny" using rect by (simp add: Ny_def)
  obtain g1 s1 where ag1: "allocGrid Nx Ny s = (g1, s1)"
    by (cases "allocGrid Nx Ny s") auto
  obtain g2 s2 where ag2: "allocGrid Nx Ny s1 = (g2, s2)"
    by (cases "allocGrid Nx Ny s1") auto
  define val1 where "val1 = (\<lambda>j i s. rd2 s u i j)"
  define h1 where "h1 = (\<lambda>j i. U ! i ! j)"
  define val2 where "val2 = (\<lambda>i j s. rd2 s g1 i j)"
  define h2 where "h2 = (\<lambda>G (i :: nat) (j :: nat). (G :: grid) ! i ! j)"
  have st: "backwardEuler2D_ADI_st u rx ry s = Inr (g2,
      fold (\<lambda>i t. case solveLine_st Ny (- ry) (1 + 2 * ry) [1..<Ny - 1] (val2 i) t of
                            (res, t1) \<Rightarrow> writeRow_st g2 Ny i res t1) [0..<Nx]
        (fold (\<lambda>j t. case solveLine_st Nx (- rx) (1 + 2 * rx) [1..<Nx - 1] (val1 j) t of
                            (res, t1) \<Rightarrow> writeColumn_st g1 Nx j res t1) [0..<Ny] s2))"
    unfolding backwardEuler2D_ADI_st_def if_not_P[OF dims(1)] Let_def dims(2,3) ag1 ag2 prod.case
      val1_def val2_def
    by (rule refl)
  have pu: "backwardEuler2D_ADI U rx ry = Inr
     (fold (\<lambda>i G. fold (\<lambda>j G. set2 G i j
               (solveLine Ny (- ry) (1 + 2 * ry)
                  (fold (\<lambda>j d. d[j := h2 (backwardEuler2D_ADI_xsweep Nx Ny U rx) i j])
                     [1..<Ny - 1] (newArray Ny)) ! j))
              [0..<Ny] G) [0..<Nx] (zeros Nx Ny))"
    unfolding backwardEuler2D_ADI_def if_not_P[OF ne(1)] Let_def Nx_def[symmetric]
      Ny_def[symmetric] backwardEuler2D_ADI_ysweep_eq h2_def
    by (rule refl)
  have "gridAt
           (fold (\<lambda>i t. case solveLine_st Ny (- ry) (1 + 2 * ry) [1..<Ny - 1] (val2 i) t of
                            (res, t1) \<Rightarrow> writeRow_st g2 Ny i res t1) [0..<Nx]
             (fold (\<lambda>j t. case solveLine_st Nx (- rx) (1 + 2 * rx) [1..<Nx - 1] (val1 j) t of
                            (res, t1) \<Rightarrow> writeColumn_st g1 Nx j res t1) [0..<Ny] s2)) g2
         = fold (\<lambda>i G. fold (\<lambda>j G. set2 G i j
               (solveLine Ny (- ry) (1 + 2 * ry)
                  (fold (\<lambda>j d. d[j := h2 (fold (\<lambda>j G. fold (\<lambda>i G. set2 G i j
               (solveLine Nx (- rx) (1 + 2 * rx)
                  (fold (\<lambda>i d. d[i := h1 j i]) [1..<Nx - 1] (newArray Nx)) ! i))
              [0..<Nx] G) [0..<Ny] (zeros Nx Ny)) i j]) [1..<Ny - 1] (newArray Ny)) ! j))
              [0..<Ny] G) [0..<Nx] (zeros Nx Ny)"
  proof (rule two_sweep_value[OF hu pos ag1 ag2])
    fix j i t
    assume j: "j \<in> set [0..<Ny]" and i: "i \<in> set [1..<Nx - 1]" and h: "holds t u urows U"
    have "rd2 t u i j = U ! i ! j"
      using i j by (auto intro!: holds_cell[OF h rect'] simp: Nx_def)
    then show "val1 j i t = h1 j i" by (simp add: val1_def h1_def)
  next
    fix i j t rows1 G1
    assume i: "i \<in> set [0..<Nx]" and j: "j \<in> set [1..<Ny - 1]"
      and h: "holds t g1 rows1 G1" and l: "length G1 = Nx" "\<forall>k<Nx. length (G1 ! k) = Ny"
    have r: "\<forall>r \<in> set G1. length r = Ny" using l by (auto simp: in_set_conv_nth)
    have "rd2 t g1 i j = G1 ! i ! j"
      using i j by (auto intro!: holds_cell[OF h r] simp: l(1))
    then show "val2 i j t = h2 G1 i j" by (simp add: val2_def h2_def)
  next
    show "set [0..<Nx] \<subseteq> {0..<Nx}" by auto
  qed
  then show ?thesis
    unfolding st pu backwardEuler2D_ADI_xsweep_eq h1_def by simp
qed

lemma crankNicolson2D_ADI_st_value:
  assumes hu: "holds s u urows U" and ne: "U \<noteq> []" "U ! 0 \<noteq> []"
    and rect: "\<forall>r \<in> set U. length r = length (U ! 0)"
  shows "\<exists>res s'. crankNicolson2D_ADI_st u rx ry s = Inr (res, s')
           \<and> crankNicolson2D_ADI U rx ry = Inr (gridAt s' res)"
proof -
  define Nx Ny where "Nx = length U" and "Ny = length (U ! 0)"
  note dims = holds_dims[OF hu ne(1), folded Nx_def Ny_def]
  have pos: "0 < Nx" "0 < Ny" using ne by (simp_all add: Nx_def Ny_def)
  have rect': "\<forall>r \<in> set U. length r = Ny" using rect by (simp add: Ny_def)
  obtain g1 s1 where ag1: "allocGrid Nx Ny s = (g1, s1)"
    by (cases "allocGrid Nx Ny s") auto
  obtain g2 s2 where ag2: "allocGrid Nx Ny s1 = (g2, s2)"
    by (cases "allocGrid Nx Ny s1") auto
  define val1 where "val1 = (\<lambda>j i s. (1 - rx) * rd2 s u i j
        + rx / 2 * (rd2 s u (i + 1) j + rd2 s u (i - 1) j))"
  define h1 where "h1 = (\<lambda>j i. (1 - rx) * U ! i ! j
        + rx / 2 * (U ! (i + 1) ! j + U ! (i - 1) ! j))"
  define val2 where "val2 = (\<lambda>i j s. (1 - ry) * rd2 s g1 i j
        + ry / 2 * (rd2 s g1 i (j + 1) + rd2 s g1 i (j - 1)))"
  define h2 where "h2 = (\<lambda>G (i :: nat) (j :: nat). (1 - ry) * (G :: grid) ! i ! j
        + ry / 2 * (G ! i ! (j + 1) + G ! i ! (j - 1)))"
  have st: "crankNicolson2D_ADI_st u rx ry s = Inr (g2,
      fold (\<lambda>i t. case solveLine_st Ny (- (ry / 2)) (1 + ry) [1..<Ny - 1] (val2 i) t of
                            (res, t1) \<Rightarrow> writeRow_st g2 Ny i res t1) [0..<Nx]
        (fold (\<lambda>j t. case solveLine_st Nx (- (rx / 2)) (1 + rx) [1..<Nx - 1] (val1 j) t of
                            (res, t1) \<Rightarrow> writeColumn_st g1 Nx j res t1) [0..<Ny] s2))"
    unfolding crankNicolson2D_ADI_st_def if_not_P[OF dims(1)] Let_def dims(2,3) ag1 ag2 prod.case
      val1_def val2_def
    by (rule refl)
  have pu: "crankNicolson2D_ADI U rx ry = Inr
     (fold (\<lambda>i G. fold (\<lambda>j G. set2 G i j
               (solveLine Ny (- (ry / 2)) (1 + ry)
                  (fold (\<lambda>j d. d[j := h2 (crankNicolson2D_ADI_xsweep Nx Ny U rx) i j])
                     [1..<Ny - 1] (newArray Ny)) ! j))
              [0..<Ny] G) [0..<Nx] (zeros Nx Ny))"
    unfolding crankNicolson2D_ADI_def if_not_P[OF ne(1)] Let_def Nx_def[symmetric]
      Ny_def[symmetric] crankNicolson2D_ADI_ysweep_eq h2_def
    by (rule refl)
  have "gridAt
           (fold (\<lambda>i t. case solveLine_st Ny (- (ry / 2)) (1 + ry) [1..<Ny - 1] (val2 i) t of
                            (res, t1) \<Rightarrow> writeRow_st g2 Ny i res t1) [0..<Nx]
             (fold (\<lambda>j t. case solveLine_st Nx (- (rx / 2)) (1 + rx) [1..<Nx - 1] (val1 j) t of
                            (res, t1) \<Rightarrow> writeColumn_st g1 Nx j res t1) [0..<Ny] s2)) g2
         = fold (\<lambda>i G. fold (\<lambda>j G. set2 G i j
               (solveLine Ny (- (ry / 2)) (1 + ry)
                  (fold (\<lambda>j d. d[j := h2 (fold (\<lambda>j G. fold (\<lambda>i G. set2 G i j
               (solveLine Nx (- (rx / 2)) (1 + rx)
                  (fold (\<lambda>i d. d[i := h1 j i]) [1..<Nx - 1] (newArray Nx)) ! i))
              [0..<Nx] G) [0..<Ny] (zeros Nx Ny)) i j]) [1..<Ny - 1] (newArray Ny)) ! j))
              [0..<Ny] G) [0..<Nx] (zeros Nx Ny)"
  proof (rule two_sweep_value[OF hu pos ag1 ag2])
    fix j i t
    assume j: "j \<in> set [0..<Ny]" and i: "i \<in> set [1..<Nx - 1]" and h: "holds t u urows U"
    have "rd2 t u i j = U ! i ! j" "rd2 t u (i + 1) j = U ! (i + 1) ! j"
      "rd2 t u (i - 1) j = U ! (i - 1) ! j"
      using i j by (auto intro!: holds_cell[OF h rect'] simp: Nx_def)
    then show "val1 j i t = h1 j i" by (simp add: val1_def h1_def)
  next
    fix i j t rows1 G1
    assume i: "i \<in> set [0..<Nx]" and j: "j \<in> set [1..<Ny - 1]"
      and h: "holds t g1 rows1 G1" and l: "length G1 = Nx" "\<forall>k<Nx. length (G1 ! k) = Ny"
    have r: "\<forall>r \<in> set G1. length r = Ny" using l by (auto simp: in_set_conv_nth)
    have "rd2 t g1 i j = G1 ! i ! j" "rd2 t g1 i (j + 1) = G1 ! i ! (j + 1)"
      "rd2 t g1 i (j - 1) = G1 ! i ! (j - 1)"
      using i j by (auto intro!: holds_cell[OF h r] simp: l(1))
    then show "val2 i j t = h2 G1 i j" by (simp add: val2_def h2_def)
  next
    show "set [0..<Nx] \<subseteq> {0..<Nx}" by auto
  qed
  then show ?thesis
    unfolding st pu crankNicolson2D_ADI_xsweep_eq h1_def by simp
qed

lemma backwardEulerADI_st_value:
  assumes hu: "holds s u urows U" and ne: "U \<noteq> []" "U ! 0 \<noteq> []"
    and rect: "\<forall>r \<in> set U. length r = length (U ! 0)"
  shows "\<exists>res s'. backwardEulerADI_st u rx ry s = Inr (res, s')
           \<and> backwardEulerADI U rx ry = Inr (gridAt s' res)"
proof -
  define Nx Ny where "Nx = length U" and "Ny = length (U ! 0)"
  note dims = holds_dims[OF hu ne(1), folded Nx_def Ny_def]
  have pos: "0 < Nx" "0 < Ny" using ne by (simp_all add: Nx_def Ny_def)
  have rect': "\<forall>r \<in> set U. length r = Ny" using rect by (simp add: Ny_def)
  obtain g1 s1 where ag1: "allocGrid Nx Ny s = (g1, s1)"
    by (cases "allocGrid Nx Ny s") auto
  define val1 where "val1 = (\<lambda>j i s. rd2 s u i j)"
  define h1 where "h1 = (\<lambda>j i. U ! i ! j)"
  define s2 where "s2 = fold (\<lambda>j t. case solveLine_st Nx (- rx) (1 + 2 * rx) [0..<Nx] (val1 j) t of
                            (res, t1) \<Rightarrow> writeColumn_st g1 Nx j res t1) [1..<Ny - 1] s1"
  obtain g2 s3 where ag2: "allocGrid Nx Ny s2 = (g2, s3)"
    by (cases "allocGrid Nx Ny s2") auto
  define val2 where "val2 = (\<lambda>i j s. rd2 s g1 i j)"
  define G1 where "G1 = backwardEulerADI_step1 Nx Ny U rx"
  define s4 where "s4 = fold (\<lambda>i t. case solveLine_st Ny (- ry) (1 + 2 * ry) [0..<Ny] (val2 i) t of
                            (res, t1) \<Rightarrow> writeRow_st g2 Ny i res t1) [1..<Nx - 1] s3"
  have st: "backwardEulerADI_st u rx ry s = Inr (g2, s4)"
    unfolding backwardEulerADI_st_def if_not_P[OF dims(1)] Let_def dims(2,3) ag1 prod.case
      ag2[unfolded s2_def val1_def] s4_def val2_def
    by (rule refl)
  have pu: "backwardEulerADI U rx ry = Inr (backwardEulerADI_step2 Nx Ny G1 ry)"
    unfolding backwardEulerADI_def if_not_P[OF ne(1)] Let_def Nx_def[symmetric]
      Ny_def[symmetric] G1_def
    by (rule refl)
  define rows1 where "rows1 = map (\<lambda>i. length s + 2 + i) [0..<Nx]"
  define rows2 where "rows2 = map (\<lambda>i. length s2 + 2 + i) [0..<Nx]"
  note a1 = allocGrid_value[where Nx = Nx and Ny = Ny and s = s,
      unfolded ag1 prod.case, folded rows1_def]
  have r1: "rep s1 g1 rows1 (zeros Nx Ny)" and g1: "g1 = length s + 1"
    and l1: "length s1 = length s + 2 + Nx" and e1: "extends s s1"
    by (rule a1[THEN conjunct1], rule a1[THEN conjunct2, THEN conjunct1],
        rule a1[THEN conjunct2, THEN conjunct2, THEN conjunct1],
        rule a1[THEN conjunct2, THEN conjunct2, THEN conjunct2])
  note a2 = allocGrid_value[where Nx = Nx and Ny = Ny and s = s2,
      unfolded ag2 prod.case, folded rows2_def]
  have r2: "rep s3 g2 rows2 (zeros Nx Ny)" and g2: "g2 = length s2 + 1"
    and e2: "extends s2 s3"
    by (rule a2[THEN conjunct1], rule a2[THEN conjunct2, THEN conjunct1],
        rule a2[THEN conjunct2, THEN conjunct2, THEN conjunct2])
  have old: "u < length s" "\<forall>q \<in> set urows. q < length s"
    using hu by (simp_all add: holds_def)
  have new1: "\<forall>q \<in> set rows1. length s \<le> q" "\<forall>q \<in> set rows1. q < length s1"
    by (auto simp: rows1_def l1)
  have new2: "\<forall>q \<in> set rows2. length s2 \<le> q" by (auto simp: rows2_def)
  have lr: "length rows1 = Nx" "length rows2 = Nx" by (simp_all add: rows1_def rows2_def)
  have hu1: "holds s1 u urows U" by (rule holds_extends[OF hu e1])
  have d1: "u \<notin> set rows1" "set urows \<inter> set rows1 = {}"
    by (rule below_not_above[OF old(1) new1(1)], rule below_above_disjoint[OF old(2) new1(1)])
  have st1: "rep s2 g1 rows1
           (fold (\<lambda>j G. fold (\<lambda>i G. set2 G i j
               (solveLine Nx (- rx) (1 + 2 * rx)
                  (fold (\<lambda>i d. d[i := h1 j i]) [0..<Nx] (newArray Nx)) ! i))
              [0..<Nx] G) [1..<Ny - 1] (zeros Nx Ny))
       \<and> keeps (set rows1) s1 s2"
    unfolding s2_def
  proof (rule column_sweep_value[where val = val1 and h = h1 and u = u and urows = urows
        and U = U, OF r1 lr(1) pos(1) hu1 d1])
    fix j i t
    assume j: "j \<in> set [1..<Ny - 1]" and i: "i \<in> set [0..<Nx]" and h: "holds t u urows U"
    have "rd2 t u i j = U ! i ! j"
      using i j by (auto intro!: holds_cell[OF h rect'] simp: Nx_def)
    then show "val1 j i t = h1 j i" by (simp add: val1_def h1_def)
  qed
  then have rg1: "rep s2 g1 rows1 G1" and k1: "keeps (set rows1) s1 s2"
    unfolding G1_def backwardEulerADI_step1_eq h1_def by simp_all
  have l2: "length s1 \<le> length s2" using k1 by (simp add: keeps_def)
  have h3: "holds s3 g1 rows1 G1" by (rule holds_extends[OF rep_holds[OF rg1] e2])
  have below: "g1 < length s2" "\<forall>q \<in> set rows1. q < length s2"
    using l2 new1(2) by (auto simp: g1 l1)
  have d3: "g1 \<notin> set rows2" "set rows1 \<inter> set rows2 = {}"
    by (rule below_not_above[OF below(1) new2], rule below_above_disjoint[OF below(2) new2])
  have sh: "length G1 = Nx" "\<forall>k<Nx. length (G1 ! k) = Ny"
    unfolding G1_def backwardEulerADI_step1_eq
    using colSweep_shape[where Nx = Nx and Ny = Ny and js = "[1..<Ny - 1]"
        and F = "\<lambda>j. solveLine Nx (- rx) (1 + 2 * rx)
                  (fold (\<lambda>i d. d[i := U ! i ! j]) [0..<Nx] (newArray Nx))"]
    by simp_all
  have r: "\<forall>r \<in> set G1. length r = Ny" using sh by (auto simp: in_set_conv_nth)
  have is2: "set [1..<Nx - 1] \<subseteq> {0..<length rows2}" using lr(2) by auto
  have "rep s4 g2 rows2
           (fold (\<lambda>i G. fold (\<lambda>j G. set2 G i j
               (solveLine Ny (- ry) (1 + 2 * ry)
                  (fold (\<lambda>j d. d[j := G1 ! i ! j]) [0..<Ny] (newArray Ny)) ! j))
              [0..<Ny] G) [1..<Nx - 1] (zeros Nx Ny))
       \<and> keeps (set rows2) s3 s4"
    unfolding s4_def
  proof (rule row_sweep_value[where val = val2 and h = "\<lambda>i j. G1 ! i ! j" and u = g1
        and urows = rows1 and U = G1, OF r2 is2 pos(2) h3 d3])
    fix i j t
    assume i: "i \<in> set [1..<Nx - 1]" and j: "j \<in> set [0..<Ny]" and h: "holds t g1 rows1 G1"
    have "rd2 t g1 i j = G1 ! i ! j"
      using i j by (auto intro!: holds_cell[OF h r] simp: sh(1))
    then show "val2 i j t = G1 ! i ! j" by (simp add: val2_def)
  qed
  then have "gridAt s4 g2 = backwardEulerADI_step2 Nx Ny G1 ry"
    unfolding backwardEulerADI_step2_eq by (intro holds_gridAt[OF rep_holds]) (rule conjunct1)
  then show ?thesis unfolding st pu by simp
qed

lemma forwardEuler2D_st_value:
  assumes hu: "holds s u urows U" and ne: "U \<noteq> []"
    and rect: "\<forall>r \<in> set U. length r = length (U ! 0)"
  shows "\<exists>res s'. forwardEuler2D_st u rx ry s = Inr (res, s')
           \<and> forwardEuler2D U rx ry = Inr (gridAt s' res)"
proof -
  define Nx Ny where "Nx = length U" and "Ny = length (U ! 0)"
  note dims = holds_dims[OF hu ne(1), folded Nx_def Ny_def]
  have rect': "\<forall>r \<in> set U. length r = Ny" using rect by (simp add: Ny_def)
  obtain g s1 where ag: "allocGrid Nx Ny s = (g, s1)"
    by (cases "allocGrid Nx Ny s") auto
  define val where "val = (\<lambda>i j s. rd2 s u i j
                      + rx * (rd2 s u (i + 1) j - 2 * rd2 s u i j + rd2 s u (i - 1) j)
                      + ry * (rd2 s u i (j + 1) - 2 * rd2 s u i j + rd2 s u i (j - 1)))"
  define h where "h = (\<lambda>i j. U ! i ! j
                          + rx * (U ! (i + 1) ! j - 2 * U ! i ! j + U ! (i - 1) ! j)
                          + ry * (U ! i ! (j + 1) - 2 * U ! i ! j + U ! i ! (j - 1)))"
  define s2 where "s2 = fold (\<lambda>i s. fold (\<lambda>j s. wr (rowAt s g i) j (Num (val i j s)) s)
                 [1..<Ny - 1] s) [1..<Nx - 1] s1"
  have st: "forwardEuler2D_st u rx ry s = Inr (g, s2)"
    unfolding forwardEuler2D_st_def if_not_P[OF dims(1)] Let_def dims(2,3) ag prod.case
      s2_def val_def
    by (rule refl)
  have pu: "forwardEuler2D U rx ry = Inr
      (fold (\<lambda>i G. fold (\<lambda>j G. set2 G i j (h i j)) [1..<Ny - 1] G) [1..<Nx - 1] (zeros Nx Ny))"
    unfolding forwardEuler2D_def if_not_P[OF ne(1)] Let_def Nx_def[symmetric]
      Ny_def[symmetric] h_def
    by (rule refl)
  define rows where "rows = map (\<lambda>i. length s + 2 + i) [0..<Nx]"
  note a1 = allocGrid_value[where Nx = Nx and Ny = Ny and s = s,
      unfolded ag prod.case, folded rows_def]
  have r1: "rep s1 g rows (zeros Nx Ny)" and e1: "extends s s1"
    by (rule a1[THEN conjunct1], rule a1[THEN conjunct2, THEN conjunct2, THEN conjunct2])
  have old: "u < length s" "\<forall>q \<in> set urows. q < length s"
    using hu by (simp_all add: holds_def)
  have new: "\<forall>q \<in> set rows. length s \<le> q" by (auto simp: rows_def)
  have lr: "length rows = Nx" by (simp add: rows_def)
  have hu1: "holds s1 u urows U" by (rule holds_extends[OF hu e1])
  have d1: "u \<notin> set rows" "set urows \<inter> set rows = {}"
    by (rule below_not_above[OF old(1) new], rule below_above_disjoint[OF old(2) new])
  have "rep s2 g rows
          (fold (\<lambda>i G. fold (\<lambda>j G. set2 G i j (h i j)) [1..<Ny - 1] G) [1..<Nx - 1] (zeros Nx Ny))
        \<and> keeps (set rows) s1 s2"
    unfolding s2_def
  proof (rule sweep_value[OF r1])
    fix i t H
    assume i: "i \<in> set [1..<Nx - 1]" and r: "rep t g rows H" and k: "keeps (set rows) s1 t"
    have ht: "holds t u urows U" by (rule holds_keeps[OF hu1 k d1])
    show "rep (fold (\<lambda>j s. wr (rowAt s g i) j (Num (val i j s)) s) [1..<Ny - 1] t) g rows
            (fold (\<lambda>j G. set2 G i j (h i j)) [1..<Ny - 1] H)
        \<and> keeps (set rows) t (fold (\<lambda>j s. wr (rowAt s g i) j (Num (val i j s)) s) [1..<Ny - 1] t)"
    proof (rule cells_value[OF r, where ri = "\<lambda>j. i" and ci = "\<lambda>j. j" and v = "val i"
          and w = "h i"])
      show "i < length rows" if "j \<in> set [1..<Ny - 1]" for j using i lr by auto
      show "val i j t' = h i j" if j: "j \<in> set [1..<Ny - 1]" and k': "keeps (set rows) t t'"
        for j t'
      proof -
        have h': "holds t' u urows U" by (rule holds_keeps[OF ht k' d1])
        have "rd2 t' u i j = U ! i ! j" "rd2 t' u (i + 1) j = U ! (i + 1) ! j"
          "rd2 t' u (i - 1) j = U ! (i - 1) ! j" "rd2 t' u i (j + 1) = U ! i ! (j + 1)"
          "rd2 t' u i (j - 1) = U ! i ! (j - 1)"
          using i j by (auto intro!: holds_cell[OF h' rect'] simp: Nx_def)
        then show ?thesis by (simp add: val_def h_def)
      qed
    qed
  qed
  then have "gridAt s2 g
     = fold (\<lambda>i G. fold (\<lambda>j G. set2 G i j (h i j)) [1..<Ny - 1] G) [1..<Nx - 1] (zeros Nx Ny)"
    by (intro holds_gridAt[OF rep_holds]) (rule conjunct1)
  then show ?thesis unfolding st pu by simp
qed

section \<open>Arithmetic of the numbers with special values\<close>

lemma number_zero: "(0 :: number) = Fin 0"
  by (simp add: zero_number_def)

lemma number_one: "(1 :: number) = Fin 1"
  by (simp add: one_number_def)

lemma number_numeral: "(numeral k :: number) = Fin (numeral k)"
proof (induction k)
  case One
  show ?case by (simp only: numeral_One number_one)
next
  case (Bit0 k)
  show ?case unfolding numeral_Bit0 Bit0 plus_number.simps by (rule refl)
next
  case (Bit1 k)
  show ?case unfolding numeral_Bit1 Bit1 number_one plus_number.simps by (rule refl)
qed

lemma number_minus [simp]: "Fin a - Fin b = Fin (a - b)"
  by (simp add: minus_number_def)

lemma number_divide: "b \<noteq> 0 \<Longrightarrow> Fin a / Fin b = Fin (a / b)"
  by simp

lemmas number_simps = number_zero number_one number_numeral



lemma isFinite_abs [simp]: "isFinite \<bar>x\<bar> = isFinite x"
  by (cases x) simp_all

lemma isFinite_minus: "isFinite (x - y) \<longleftrightarrow> isFinite x \<and> isFinite y"
  by (cases x; cases y) (simp_all add: minus_number_def)

lemma fin_abs_nonneg [simp]: "0 \<le> fin \<bar>x\<bar>"
  by (cases x) simp_all

section \<open>The maximum relative error\<close>

lemma Max_insert_max:
  assumes "finite A"
  shows "Max (insert (max m x) A) = Max (insert m (insert (x :: real) A))"
proof -
  have "Max (insert m (insert x A)) = max m (Max (insert x A))"
    using assms by simp
  also have "\<dots> = Max (insert (max m x) A)"
    using assms by (cases "A = {}") (simp_all add: max.assoc)
  finally show ?thesis by simp
qed

lemma Max_insert_zero:
  assumes "finite A" and "A \<noteq> {}" and "\<forall>x\<in>A. (0 :: real) \<le> x"
  shows "Max (insert 0 A) = Max A"
proof -
  have "0 \<le> Max A" using assms by (meson Max_in)
  then show ?thesis using assms by (simp add: max_def)
qed

lemma grid_cells: "set (List.product [0..<N] [0..<M]) = {0..<N} \<times> {0..<M}"
  by auto

lemma status_step_Fin:
  "status_step e x p (Fin s, Fin m, Fin mu, c) =
     (Fin (s + fin (e p) * fin (e p)),
      Fin (if isFinite (e p) then max m (fin (e p)) else m),
      Fin (if isFinite (x p) then max mu (fin \<bar>x p\<bar>) else mu),
      c + 1)"
  by (cases "e p"; cases "x p") (auto simp: status_step_def max_def)

lemma filter_Cons:
  "{q \<in> set (p # ps). P q} = (if P p then insert p {q \<in> set ps. P q} else {q \<in> set ps. P q})"
  by auto

lemma status_fold:
  "fold (status_step e x) ps (Fin s, Fin m, Fin mu, c)
   = (Fin (s + sum_list (map (\<lambda>p. fin (e p) * fin (e p)) ps)),
      Fin (Max (insert m ((\<lambda>p. fin (e p)) ` {q \<in> set ps. isFinite (e q)}))),
      Fin (Max (insert mu ((\<lambda>p. fin \<bar>x p\<bar>) ` {q \<in> set ps. isFinite (x q)}))),
      c + length ps)"
proof (induction ps arbitrary: s m mu c)
  case Nil
  then show ?case by simp
next
  case (Cons p ps)
  show ?case
    unfolding fold_simps status_step_Fin Cons.IH filter_Cons
    by (simp add: Max_insert_max add.assoc del: Max_insert)
qed

lemma updateStatus_loop_eq:
  "updateStatus_loop N u uExact =
     fold (status_step (\<lambda>p. \<bar>u ! fst p ! snd p - uExact ! fst p ! snd p\<bar>)
                       (\<lambda>p. uExact ! fst p ! snd p))
        (List.product [0..<N] [0..<N]) (0, 0, 0, 0)"
proof -
  have "updateStatus_loop N u uExact =
     fold (\<lambda>i acc. fold (\<lambda>j acc.
         status_step (\<lambda>p. \<bar>u ! fst p ! snd p - uExact ! fst p ! snd p\<bar>)
                       (\<lambda>p. uExact ! fst p ! snd p) (i, j) acc) [0..<N] acc)
       [0..<N] (0, 0, 0, 0)"
    unfolding updateStatus_loop_def status_step_def Let_def by (simp cong: if_cong)
  then show ?thesis
    unfolding fold_nested_product[of "\<lambda>i j acc.
         status_step (\<lambda>p. \<bar>u ! fst p ! snd p - uExact ! fst p ! snd p\<bar>)
                       (\<lambda>p. uExact ! fst p ! snd p) (i, j) acc"]
    by simp
qed

lemma updateStatus_loop_value:
  "updateStatus_loop N u uExact =
     (Fin (finite_sumSq N u uExact),
      Fin (finite_max N (\<lambda>i j. \<bar>u ! i ! j - uExact ! i ! j\<bar>)),
      Fin (finite_max N (\<lambda>i j. \<bar>uExact ! i ! j\<bar>)),
      N * N)"
  unfolding updateStatus_loop_eq number_zero status_fold grid_cells finite_sumSq_def
    finite_max_def
  by simp

text \<open>The \<open>L2\<close> error is finite on a grid with at least one cell.\<close>

lemma finite_sumSq_nonneg: "0 \<le> finite_sumSq N u uExact"
  unfolding finite_sumSq_def by (rule sum_list_nonneg) auto

lemma l2_value:
  "Math_sqrt (Fin (finite_sumSq N u uExact) / Fin (real (N * N)))
     = (if N = 0 then NaN else Fin (sqrt (finite_sumSq N u uExact / real (N * N))))"
proof (cases "N = 0")
  case True
  then show ?thesis by (simp add: finite_sumSq_def)
next
  case False
  have "0 \<le> finite_sumSq N u uExact / real (N * N)"
    using finite_sumSq_nonneg[of N u uExact] by simp
  then show ?thesis using False by simp
qed

lemma finite_max_nonneg: "0 \<le> finite_max N f"
  unfolding finite_max_def by (intro Max_ge) auto

lemma updateStatus_2d_display:
  "maxRelErrorDisplay (updateStatus_2d N u uExact)
     = (if N = 0 \<or> 10 < sqrt (finite_sumSq N u uExact / real (N * N)) then Diverged
        else Shows (Fin (finite_maxRelError N u uExact)))"
proof -
  define mu where "mu = finite_max N (\<lambda>i j. \<bar>uExact ! i ! j\<bar>)"
  define m where "m = finite_max N (\<lambda>i j. \<bar>u ! i ! j - uExact ! i ! j\<bar>)"
  have rel: "(if Fin mu > Fin (1 / 10 ^ 9) then (Fin m / Fin mu) * 100 else 0)
             = Fin (finite_maxRelError N u uExact)"
    unfolding finite_maxRelError_def Let_def mu_def[symmetric] m_def[symmetric]
    by (auto simp: number_simps)
  show ?thesis
    unfolding updateStatus_2d_def updateStatus_loop_value prod.case Let_def l2_value
      mu_def[symmetric] m_def[symmetric] rel
    by (simp add: number_simps)
qed

text \<open>The accumulators of the loop in the unified application.\<close>

lemma status2D_step_Fin:
  assumes "isFinite (e p) \<longrightarrow> isFinite (x p)" and "0 \<le> t"
  shows "status2D_step e x t p (Fin s, Fin m, Fin r) =
     (Fin (s + fin (e p) * fin (e p)),
      Fin (if isFinite (e p) then max m (fin (e p)) else m),
      Fin (if isFinite (e p) \<and> \<bar>x p\<bar> > Fin t
           then max r (100 * fin (e p) / fin \<bar>x p\<bar>) else r))"
  using assms
  by (cases "e p"; cases "x p") (auto simp: status2D_step_def max_def number_simps)

lemma status2D_fold:
  assumes "\<forall>p \<in> set ps. isFinite (e p) \<longrightarrow> isFinite (x p)" and "0 \<le> t"
  shows "fold (status2D_step e x t) ps (Fin s, Fin m, Fin r)
   = (Fin (s + sum_list (map (\<lambda>p. fin (e p) * fin (e p)) ps)),
      Fin (Max (insert m ((\<lambda>p. fin (e p)) ` {q \<in> set ps. isFinite (e q)}))),
      Fin (Max (insert r ((\<lambda>p. 100 * fin (e p) / fin \<bar>x p\<bar>)
                            ` {q \<in> set ps. isFinite (e q) \<and> \<bar>x q\<bar> > Fin t}))))"
  using assms(1)
proof (induction ps arbitrary: s m r)
  case Nil
  then show ?case by simp
next
  case (Cons p ps)
  have p: "isFinite (e p) \<longrightarrow> isFinite (x p)" using Cons.prems by simp
  have ih: "fold (status2D_step e x t) ps (Fin s', Fin m', Fin r')
   = (Fin (s' + sum_list (map (\<lambda>p. fin (e p) * fin (e p)) ps)),
      Fin (Max (insert m' ((\<lambda>p. fin (e p)) ` {q \<in> set ps. isFinite (e q)}))),
      Fin (Max (insert r' ((\<lambda>p. 100 * fin (e p) / fin \<bar>x p\<bar>)
                            ` {q \<in> set ps. isFinite (e q) \<and> \<bar>x q\<bar> > Fin t}))))"
    for s' m' r'
    using Cons.prems by (intro Cons.IH) simp
  show ?case
    unfolding fold_simps status2D_step_Fin[where e = e and x = x and p = p, OF p assms(2)]
      ih filter_Cons
    by (simp add: Max_insert_max add.assoc del: Max_insert)
qed

lemma updateStatus2D_loop_eq:
  "updateStatus2D_loop u uExact =
     fold (status2D_step (\<lambda>p. \<bar>u ! fst p ! snd p - uExact ! fst p ! snd p\<bar>)
                         (\<lambda>p. uExact ! fst p ! snd p) (1 / 10 ^ 10))
        (List.product [0..<length u] [0..<length (u ! 0)]) (0, 0, 0)"
proof -
  have "updateStatus2D_loop u uExact =
     fold (\<lambda>i acc. fold (\<lambda>j acc.
         status2D_step (\<lambda>p. \<bar>u ! fst p ! snd p - uExact ! fst p ! snd p\<bar>)
                       (\<lambda>p. uExact ! fst p ! snd p) (1 / 10 ^ 10) (i, j) acc)
           [0..<length (u ! 0)] acc)
       [0..<length u] (0, 0, 0)"
    unfolding updateStatus2D_loop_def status2D_step_def Let_def by (simp cong: if_cong)
  then show ?thesis
    unfolding fold_nested_product[of "\<lambda>i j acc.
         status2D_step (\<lambda>p. \<bar>u ! fst p ! snd p - uExact ! fst p ! snd p\<bar>)
                       (\<lambda>p. uExact ! fst p ! snd p) (1 / 10 ^ 10) (i, j) acc"]
    by simp
qed

lemma updateStatus2D_display:
  assumes "u \<noteq> []"
  shows "\<exists>m. updateStatus2D u uExact = Inr m
           \<and> maxRelErrorDisplay m
             = Shows (Fin (pointwise_maxRelErr (length u) (length (u ! 0)) u uExact))"
proof -
  have fin: "\<forall>p \<in> set (List.product [0..<length u] [0..<length (u ! 0)]).
               isFinite \<bar>u ! fst p ! snd p - uExact ! fst p ! snd p\<bar>
               \<longrightarrow> isFinite (uExact ! fst p ! snd p)"
    by (simp add: isFinite_minus)
  have t: "(0 :: real) \<le> 1 / 10 ^ 10" by simp
  note v = status2D_fold[where e = "\<lambda>p. \<bar>u ! fst p ! snd p - uExact ! fst p ! snd p\<bar>"
      and x = "\<lambda>p. uExact ! fst p ! snd p" and s = 0 and m = 0 and r = 0, OF fin t]
  show ?thesis
    using assms
    unfolding updateStatus2D_def updateStatus2D_loop_eq number_zero v prod.case
      grid_cells pointwise_maxRelErr_def Let_def
    by simp
qed

text \<open>
  On fields whose entries are all finite the maxima over the finite values are the
  maxima over the whole grid, and the maximum relative error is the one of the
  specification's formula.
\<close>

lemma finite_grid_nth:
  assumes "square_grid N U" and "i < N" and "j < N"
  shows "map (map Fin) U ! i ! j = Fin (U ! i ! j)"
proof -
  have "length U = N" "length (U ! i) = N"
    using assms by (simp_all add: square_grid_def)
  then show ?thesis using assms(2,3) by simp
qed

lemma finite_max_all_finite:
  assumes "0 < N" and "\<And>i j. i < N \<Longrightarrow> j < N \<Longrightarrow> f i j = Fin (g i j)"
    and "\<And>i j. 0 \<le> g i j"
  shows "finite_max N f = grid_max N g"
proof -
  have all: "{p \<in> {0..<N} \<times> {0..<N}. isFinite (f (fst p) (snd p))} = {0..<N} \<times> {0..<N}"
    using assms(2) by auto
  have img: "(\<lambda>p. fin (f (fst p) (snd p))) ` ({0..<N} \<times> {0..<N})
             = (\<lambda>(i, j). g i j) ` ({0..<N} \<times> {0..<N})"
    by (rule image_cong) (auto simp: assms(2))
  have ne: "{0..<N} \<times> {0..<N} \<noteq> {}" using assms(1) by auto
  show ?thesis
    unfolding finite_max_def grid_max_def all img
    using ne assms(3) by (intro Max_insert_zero) auto
qed

lemma finite_maxRelError_all_finite:
  assumes "0 < N" and "square_grid N U" and "square_grid N UE"
  shows "finite_maxRelError N (map (map Fin) U) (map (map Fin) UE) = spec_maxRelError N U UE"
proof -
  have a: "finite_max N (\<lambda>i j. \<bar>map (map Fin) UE ! i ! j\<bar>) = grid_max N (\<lambda>i j. \<bar>UE ! i ! j\<bar>)"
    by (rule finite_max_all_finite[OF assms(1)])
      (simp_all add: finite_grid_nth[OF assms(3)])
  have b: "finite_max N (\<lambda>i j. \<bar>map (map Fin) U ! i ! j - map (map Fin) UE ! i ! j\<bar>)
           = grid_max N (\<lambda>i j. \<bar>U ! i ! j - UE ! i ! j\<bar>)"
    by (rule finite_max_all_finite[OF assms(1)])
      (simp_all add: finite_grid_nth[OF assms(2)] finite_grid_nth[OF assms(3)])
  show ?thesis
    unfolding finite_maxRelError_def spec_maxRelError_def a b by (rule refl)
qed

lemma square_grid_map: "square_grid N (map (map f) U) = square_grid N U"
  by (simp add: square_grid_def)

text \<open>
  C7, as the code has it. The two-dimensional application shows \<open>DIVERGED!\<close> when the
  grid is empty or the \<open>L2\<close> error, taken over the finite errors, exceeds \<open>10\<close>.
  Otherwise the maximum relative error it shows is \<open>100\<close> times the maximum of the
  finite pointwise errors over the maximum of the finite \<open>|uExact|\<close>, and \<open>0\<close> when that
  maximum is at most \<open>1e-9\<close>; on fields whose entries are all finite this is the formula
  of the specification, with the maxima over the whole grid. The unified application
  shows the maximum, over the grid points where the error is finite and
  \<open>|uExact| > 1e-10\<close>, of \<open>100 |u - uExact| / |uExact|\<close> at the point, and \<open>0\<close> when there
  is no such point; it has no \<open>DIVERGED!\<close> case.
\<close>

theorem maxRelError_formulas:
  assumes "square_grid N u" and "square_grid N uExact"
  shows "maxRelErrorDisplay (updateStatus_2d N u uExact)
           = (if N = 0 \<or> 10 < sqrt (finite_sumSq N u uExact / real (N * N)) then Diverged
              else Shows (Fin (finite_maxRelError N u uExact)))
       \<and> (finite_max N (\<lambda>i j. \<bar>uExact ! i ! j\<bar>) \<le> 1 / 10 ^ 9 \<longrightarrow>
             finite_maxRelError N u uExact = 0)
       \<and> (0 < N \<and> u = map (map Fin) U \<and> uExact = map (map Fin) UE \<longrightarrow>
             finite_maxRelError N u uExact = spec_maxRelError N U UE)
       \<and> (0 < N \<longrightarrow>
             (\<exists>m. updateStatus2D u uExact = Inr m
                \<and> maxRelErrorDisplay m = Shows (Fin (pointwise_maxRelErr N N u uExact))))"
proof -
  have a: "finite_maxRelError N u uExact = 0"
    if "finite_max N (\<lambda>i j. \<bar>uExact ! i ! j\<bar>) \<le> 1 / 10 ^ 9"
    using that by (simp add: finite_maxRelError_def Let_def)
  have b: "finite_maxRelError N u uExact = spec_maxRelError N U UE"
    if "0 < N \<and> u = map (map Fin) U \<and> uExact = map (map Fin) UE"
  proof -
    have "square_grid N U" "square_grid N UE"
      using assms that by (simp_all add: square_grid_map)
    then show ?thesis using that finite_maxRelError_all_finite by blast
  qed
  have c: "\<exists>m. updateStatus2D u uExact = Inr m
                \<and> maxRelErrorDisplay m = Shows (Fin (pointwise_maxRelErr N N u uExact))"
    if "0 < N"
  proof -
    have l: "length u = N" using assms(1) by (simp add: square_grid_def)
    then have ne: "u \<noteq> []" using that by auto
    then have "u ! 0 \<in> set u" by simp
    then have l0: "length (u ! 0) = N" using assms(1) by (simp add: square_grid_def)
    from updateStatus2D_display[OF ne, of uExact] show ?thesis unfolding l l0 .
  qed
  from updateStatus_2d_display[of N u uExact] a b c show ?thesis by blast
qed

lemma sqrt_quarter: "\<not> 10 < sqrt (1 / 4 / real (2 * 2))"
proof -
  have "sqrt (1 / 4 / real (2 * 2)) \<le> sqrt 1" by (intro real_sqrt_le_mono) simp
  also have "\<dots> < 10" by simp
  finally show ?thesis by simp
qed

lemma partial_values:
  "finite_sumSq 2 partial_u partial_uExact = 1 / 4"
  "finite_maxRelError 2 partial_u partial_uExact = 50"
  "pointwise_maxRelErr 2 2 partial_u partial_uExact = 100"
  by code_simp+

theorem maxRelError_formulas_witness:
  "square_grid 2 partial_u \<and> square_grid 2 partial_uExact
   \<and> maxRelErrorDisplay (updateStatus_2d 2 partial_u partial_uExact) = Shows (Fin 50)
   \<and> (\<exists>m. updateStatus2D partial_u partial_uExact = Inr m
         \<and> maxRelErrorDisplay m = Shows (Fin 100))"
proof -
  have sq: "square_grid 2 partial_u" "square_grid 2 partial_uExact"
    by (simp_all add: square_grid_def partial_u_def partial_uExact_def)
  from maxRelError_formulas[OF sq] show ?thesis
    using sq sqrt_quarter by (simp add: partial_values)
qed

text \<open>
  C7 as stated fails in both applications. On the 2 by 2 state whose error is \<open>1 / 2\<close>
  at the point where the exact field is \<open>1 / 2\<close>, and whose exact field has maximum
  \<open>1\<close>, \<open>updateStatus2D\<close> of the unified application shows \<open>100\<close> per cent where the
  stated formula gives \<open>50\<close>. On the state whose numerical field has grown to \<open>100\<close>
  while the exact field is \<open>1\<close>, \<open>updateStatus\<close> of the two-dimensional application
  shows \<open>DIVERGED!\<close> where the stated formula gives \<open>9900\<close>.
\<close>

lemma skewed_values:
  "pointwise_maxRelErr 2 2 (map (map Fin) skewed_u) (map (map Fin) skewed_uExact) = 100"
  "spec_maxRelError 2 skewed_u skewed_uExact = 50"
  "finite_sumSq 2 (map (map Fin) diverged_u) (map (map Fin) diverged_uExact) = 39204"
  "spec_maxRelError 2 diverged_u diverged_uExact = 9900"
  by code_simp+

lemma sqrt_diverged: "10 < sqrt (39204 / real (2 * 2))"
  by (rule real_less_rsqrt) simp

theorem updateStatus2D_counterexample:
  "(\<exists>m. updateStatus2D (map (map Fin) skewed_u) (map (map Fin) skewed_uExact) = Inr m
      \<and> maxRelErrorDisplay m = Shows (Fin 100))
   \<and> spec_maxRelError 2 skewed_u skewed_uExact = 50
   \<and> maxRelErrorDisplay
        (updateStatus_2d 2 (map (map Fin) diverged_u) (map (map Fin) diverged_uExact))
      = Diverged
   \<and> spec_maxRelError 2 diverged_u diverged_uExact = 9900"
proof -
  have ne: "map (map Fin) skewed_u \<noteq> []" by (simp add: skewed_u_def)
  have l: "length (map (map Fin) skewed_u) = 2" "length (map (map Fin) skewed_u ! 0) = 2"
    by (simp_all add: skewed_u_def)
  from updateStatus2D_display[OF ne, of "map (map Fin) skewed_uExact"]
  have a: "\<exists>m. updateStatus2D (map (map Fin) skewed_u) (map (map Fin) skewed_uExact) = Inr m
      \<and> maxRelErrorDisplay m = Shows (Fin 100)"
    unfolding l skewed_values .
  have b: "maxRelErrorDisplay
        (updateStatus_2d 2 (map (map Fin) diverged_u) (map (map Fin) diverged_uExact))
      = Diverged"
    unfolding updateStatus_2d_display skewed_values using sqrt_diverged by simp
  from a b show ?thesis by (simp add: skewed_values)
qed

section \<open>No configuration is checked\<close>







section \<open>The steppers on finite numbers\<close>










lemma fold_update_map:
  "(\<And>i. i \<in> set xs \<Longrightarrow> F i = h (f i)) \<Longrightarrow>
     fold (\<lambda>i d. d[i := F i]) xs (map h d0) = map h (fold (\<lambda>i d. d[i := f i]) xs d0)"
proof (induction xs arbitrary: d0)
  case Nil
  show ?case by simp
next
  case (Cons x xs)
  have "(map h d0)[x := F x] = map h (d0[x := f x])"
    using Cons.prems[of x] by (simp add: map_update)
  then show ?case using Cons by simp
qed









lemma forwardEuler_Fin:
  "forwardEuler_num (map Fin u) (Fin r) = map Fin (forwardEuler u r)"
proof -
  have z: "(newArray (length u))[0 := 0, length u - 1 := 0]
             = map Fin ((newArray (length u))[0 := 0, length u - 1 := 0])"
    by (simp add: newArray_def number_zero map_update)
  have "fold (\<lambda>i uNew. uNew[i := map Fin u ! i
                 + Fin r * (map Fin u ! (i + 1) - 2 * map Fin u ! i + map Fin u ! (i - 1))])
          [1..<length u - 1] (map Fin ((newArray (length u))[0 := 0, length u - 1 := 0]))
        = map Fin (fold (\<lambda>i uNew. uNew[i := u ! i + r * (u ! (i + 1) - 2 * u ! i + u ! (i - 1))])
          [1..<length u - 1] ((newArray (length u))[0 := 0, length u - 1 := 0]))"
  proof (rule fold_update_map)
    fix i assume "i \<in> set [1..<length u - 1]"
    then have i: "i < length u" "i + 1 < length u" "i - 1 < length u" by auto
    show "map Fin u ! i + Fin r * (map Fin u ! (i + 1) - 2 * map Fin u ! i + map Fin u ! (i - 1))
          = Fin (u ! i + r * (u ! (i + 1) - 2 * u ! i + u ! (i - 1)))"
      unfolding nth_map[OF i(1)] nth_map[OF i(2)] nth_map[OF i(3)] number_numeral
      by simp
  qed
  then show ?thesis
    unfolding forwardEuler_num_def forwardEuler_def Let_def length_map z .
qed





































section \<open>The boundary invariant\<close>





end
